(* ===== verification/Prelude.thy ===== *)
theory Prelude
  imports Main "HOL-Library.Word"
begin

text \<open>
  The prelude of the development: the C integer types as words of their width,
  the errors of the kernel and of the C abstract machine as values, and the generic lemmas
  on words, lists and concatenations that the component theories share.

  A \<open>size_t\<close>, \<open>ssize_t\<close>, \<open>loff_t\<close>, \<open>long\<close> is a 64-bit word: arithmetic wraps, \<open>unat\<close> reads it
  unsigned and \<open>sint\<close> reads it signed. A byte is a \<open>char\<close>, a memory block is a list of
  bytes, and a heap is a partial map from block addresses to blocks.
\<close>

section \<open>Machine types\<close>

type_synonym u8 = "8 word"
type_synonym u16 = "16 word"
type_synonym u32 = "32 word"
type_synonym u64 = "64 word"
type_synonym bytes = "char list"
type_synonym addr = nat
type_synonym ptr = "addr option"
type_synonym heap = "addr \<rightharpoonup> bytes"

text \<open>The errors the kernel code returns, and the faults of the C abstract machine.\<close>

datatype errno = EFAULT | ENOMEM | EINVAL | ENOTTY | ERESTARTSYS

datatype error =
    Errno errno      \<comment> \<open>the function returns the negated code\<close>
  | NullDeref        \<comment> \<open>a NULL pointer is dereferenced\<close>
  | OutOfBounds      \<comment> \<open>an array is indexed past its end\<close>
  | BadAccess        \<comment> \<open>memory outside an allocated block is touched\<close>
  | BadFree          \<comment> \<open>a pointer is freed that no allocation returned, or twice\<close>
  | Undefined        \<comment> \<open>signed overflow and other undefined behaviour\<close>
  | Panic            \<comment> \<open>a consistency check of a kernel build calls \<open>panic\<close>\<close>

type_synonym 'a result = "error + 'a"

abbreviation nl :: char where
  "nl \<equiv> CHR 0x0A"

named_theorems word_facts \<open>facts that move word arithmetic to the natural numbers\<close>
named_theorems list_facts \<open>facts on slices and concatenations of lists\<close>

section \<open>Words\<close>

lemma unat_u8_of_nat [simp, word_facts]: "n < 256 \<Longrightarrow> unat (of_nat n :: u8) = n"
  by (simp add: unat_of_nat take_bit_nat_eq_self)

lemma unat_u64_of_nat [simp, word_facts]:
  "n < 18446744073709551616 \<Longrightarrow> unat (of_nat n :: u64) = n"
  by (simp add: unat_of_nat take_bit_nat_eq_self)

lemma unat_u64_lt: "unat (w :: u64) < 18446744073709551616"
  using unsigned_less [where 'a = nat, of w] by simp

lemma unat_ucast_u32 [simp, word_facts]: "unat (ucast (w :: u32) :: u64) = unat w"
proof -
  have "unat w < 2 ^ 32" using unsigned_less [where 'a = nat, of w] by simp
  then show ?thesis by (simp add: unsigned_ucast_eq take_bit_nat_eq_self)
qed

lemma unat_Suc_less [word_facts]:
  fixes a b :: "'a::len word"
  assumes "a < b"
  shows "unat (a + 1) = Suc (unat a)"
proof -
  have "unat a < unat b" using assms by (simp add: word_less_nat_alt)
  also have "unat b < 2 ^ LENGTH('a)" by (rule unsigned_less)
  finally have "unat a + unat (1 :: 'a word) < 2 ^ LENGTH('a)"
    using \<open>unat a < unat b\<close> \<open>unat b < 2 ^ LENGTH('a)\<close> by (simp only: unat_1)
  then show ?thesis by (simp add: unat_add_lem [THEN iffD1])
qed

lemma unat_u8_inc [word_facts]: "unat (i :: u8) < 255 \<Longrightarrow> unat (i + 1) = Suc (unat i)"
  using unat_Suc_less [of i 255] by (simp add: word_less_nat_alt)

lemmas unat_u8_inc' [word_facts] = unat_u8_inc [unfolded add.commute [of _ "1 :: u8"]]

lemma mod_add_lt:
  fixes r k n :: nat
  shows "r < n \<Longrightarrow> k < n \<Longrightarrow> (r + k) mod n = (if r + k < n then r + k else r + k - n)"
  by (simp add: le_mod_geq)

lemma mod_add_inj:
  fixes x i j n :: nat
  assumes "i < n" "j < n"
  shows "(x + i) mod n = (x + j) mod n \<longleftrightarrow> i = j"
proof -
  have r: "x mod n < n" using assms by simp
  have e: "(x + k) mod n = (if x mod n + k < n then x mod n + k else x mod n + k - n)"
    if "k < n" for k
    using mod_add_lt [OF r that] by (simp add: mod_simps)
  show ?thesis using assms r by (auto simp: e split: if_splits)
qed

lemma unat_sub_le [word_facts]:
  fixes a b :: "'a::len word"
  shows "b \<le> a \<Longrightarrow> unat (a - b) = unat a - unat b"
  by (rule unat_sub)

lemma unat_add_small [word_facts]:
  fixes a b :: "'a::len word"
  shows "unat a + unat b < 2 ^ LENGTH('a) \<Longrightarrow> unat (a + b) = unat a + unat b"
  using unat_add_lem by blast

lemma sint_eq_unat:
  fixes w :: u64
  assumes "unat w < 2 ^ 63"
  shows "sint w = int (unat w)"
proof -
  have u: "uint w = int (unat w)" by simp
  from assms have "int (unat w) < int (2 ^ 63)" by (simp only: of_nat_less_iff)
  with u have "uint w < 2 ^ 63" by simp
  then have "signed_take_bit 63 (uint w) = uint w"
    by (intro signed_take_bit_int_eq_self) (simp_all add: order_trans [OF _ uint_ge_0])
  then show ?thesis by (simp add: sint_uint)
qed

section \<open>Positions in a concatenation\<close>

text \<open>
  \<open>locate ss n\<close> is the place of position \<open>n\<close> in a sequence of segments of sizes \<open>ss\<close>: the
  index of the segment and the offset inside it. It is the reference definition for
  the position search of the ring buffer.
\<close>

fun locate :: "nat list \<Rightarrow> nat \<Rightarrow> (nat \<times> nat) option" where
  "locate [] n = None"
| "locate (s # ss) n =
     (if n < s then Some (0, n) else map_option (apfst Suc) (locate ss (n - s)))"

lemma locate_None_iff [list_facts]: "locate ss n = None \<longleftrightarrow> sum_list ss \<le> n"
  by (induction ss n rule: locate.induct) auto

lemma locate_SomeD:
  "locate ss n = Some (i, j) \<Longrightarrow> i < length ss \<and> j < ss ! i \<and> n = sum_list (take i ss) + j"
proof (induction ss n arbitrary: i rule: locate.induct)
  case (1 n)
  then show ?case by simp
next
  case (2 s ss n)
  show ?case
  proof (cases "n < s")
    case True
    with "2.prems" show ?thesis by simp
  next
    case False
    with "2.prems" obtain i' where i': "locate ss (n - s) = Some (i', j)" "i = Suc i'"
      by (auto simp: apfst_def map_prod_def split: prod.splits)
    with "2.IH" False show ?thesis by fastforce
  qed
qed

lemma locate_SomeI:
  "i < length ss \<Longrightarrow> j < ss ! i \<Longrightarrow> locate ss (sum_list (take i ss) + j) = Some (i, j)"
proof (induction ss arbitrary: i)
  case Nil
  then show ?case by simp
next
  case (Cons s ss)
  then show ?case by (cases i) auto
qed

lemma concat_split_at:
  "i < length xss \<Longrightarrow> concat xss = concat (take i xss) @ xss ! i @ concat (drop (Suc i) xss)"
  by (metis concat.simps(2) concat_append id_take_nth_drop)

lemma length_concat_take [list_facts]:
  "length (concat (take i xss)) = sum_list (take i (map length xss))"
  by (simp add: length_concat take_map)

text \<open>Dropping to a located position leaves the rest of its segment in front.\<close>

lemma drop_concat_locate:
  assumes "locate (map length xss) n = Some (i, j)"
  shows "drop n (concat xss) = drop j (xss ! i) @ concat (drop (Suc i) xss)"
proof -
  from locate_SomeD [OF assms] have i: "i < length xss"
    and j: "j < length (xss ! i)" and n: "n = length (concat (take i xss)) + j"
    by (auto simp: length_concat_take)
  show ?thesis
    using j by (simp add: concat_split_at [OF i] n)
qed

section \<open>Windows\<close>

text \<open>The last \<open>n\<close> elements of a list, and adding an element to a window of capacity \<open>n\<close>.\<close>

definition take_last :: "nat \<Rightarrow> 'a list \<Rightarrow> 'a list" where
  "take_last n xs = drop (length xs - n) xs"

definition push_window :: "nat \<Rightarrow> 'a list \<Rightarrow> 'a \<Rightarrow> 'a list" where
  "push_window n xs x = take_last n (xs @ [x])"

lemma length_take_last [simp]: "length (take_last n xs) = min n (length xs)"
  by (simp add: take_last_def)

lemma take_last_id [simp]: "length xs \<le> n \<Longrightarrow> take_last n xs = xs"
  by (simp add: take_last_def)

lemma set_take_last: "set (take_last n xs) \<subseteq> set xs"
  by (simp add: take_last_def set_drop_subset)

lemma map_take_last: "map f (take_last n xs) = take_last n (map f xs)"
  by (simp add: take_last_def drop_map)

lemma map_push_window: "map f (push_window n xs x) = push_window n (map f xs) (f x)"
  by (simp add: push_window_def map_take_last)

lemma push_window_full:
  "xs \<noteq> [] \<Longrightarrow> length xs = n \<Longrightarrow> push_window n xs x = tl xs @ [x]"
  by (cases xs) (auto simp: push_window_def take_last_def)

lemma push_window_room: "length xs < n \<Longrightarrow> push_window n xs x = xs @ [x]"
  by (simp add: push_window_def)

lemma push_window_take_last:
  "push_window n (take_last n xs) x = take_last n (xs @ [x])"
proof (cases "length xs < n")
  case True
  then show ?thesis by (simp add: push_window_def)
next
  case False
  then show ?thesis
    by (cases n) (auto simp: push_window_def take_last_def Suc_diff_Suc)
qed

lemma take_last_append: "take_last n (take_last n xs @ ys) = take_last n (xs @ ys)"
proof (cases "length xs \<le> n")
  case True
  then show ?thesis by simp
next
  case False
  then have "take_last n xs @ ys = drop (length xs - n) (xs @ ys)"
    by (simp add: take_last_def)
  with False show ?thesis by (simp add: take_last_def add.commute)
qed

text \<open>Adding a sequence of elements one after another, with an operation that may fail.\<close>

fun run_adds :: "('q \<Rightarrow> 'a \<Rightarrow> 'q option) \<Rightarrow> 'q \<Rightarrow> 'a list \<Rightarrow> 'q option" where
  "run_adds add q [] = Some q"
| "run_adds add q (x # xs) = Option.bind (add q x) (\<lambda>q'. run_adds add q' xs)"

section \<open>Sequencing of fallible steps\<close>

text \<open>
  \<open>rbind\<close> continues a computation that may fail. A computation that may also run forever has an
  option around its result, with \<open>None\<close> for not returning; \<open>obind\<close> continues such a computation.
\<close>

type_synonym 'a run = "'a result option"

definition rbind :: "'a result \<Rightarrow> ('a \<Rightarrow> 'b result) \<Rightarrow> 'b result" where
  "rbind r f = (case r of Inl e \<Rightarrow> Inl e | Inr v \<Rightarrow> f v)"

definition obind :: "'a run \<Rightarrow> ('a \<Rightarrow> 'b run) \<Rightarrow> 'b run" where
  "obind r f = (case r of None \<Rightarrow> None | Some (Inl e) \<Rightarrow> Some (Inl e) | Some (Inr v) \<Rightarrow> f v)"

lemma rbind_simps [simp]: "rbind (Inl e) f = Inl e" "rbind (Inr v) f = f v"
  by (simp_all add: rbind_def)

lemma obind_simps [simp]:
  "obind None g = None" "obind (Some (Inl e)) g = Some (Inl e)" "obind (Some (Inr v)) g = g v"
  by (simp_all add: obind_def)

lemma rbind_eq_Inr [simp]: "rbind r f = Inr w \<longleftrightarrow> (\<exists>v. r = Inr v \<and> f v = Inr w)"
  by (cases r) auto

lemma obind_eq_Inr [simp]:
  "obind r g = Some (Inr w) \<longleftrightarrow> (\<exists>v. r = Some (Inr v) \<and> g v = Some (Inr w))"
  by (auto simp: obind_def split: option.splits sum.splits)

section \<open>C library functions on byte sequences\<close>

text \<open>\<open>memchr(s, c, n)\<close>: the index of the first \<open>c\<close> among the first \<open>n\<close> bytes, or NULL.\<close>

fun memchr :: "bytes \<Rightarrow> char \<Rightarrow> nat \<Rightarrow> nat option" where
  "memchr bs c 0 = None"
| "memchr [] c (Suc n) = None"
| "memchr (b # bs) c (Suc n) = (if b = c then Some 0 else map_option Suc (memchr bs c n))"

lemma memchr_None_iff: "memchr bs c n = None \<longleftrightarrow> c \<notin> set (take n bs)"
  by (induction bs c n rule: memchr.induct) auto

end
