(* ===== verification/Circular_Buffer.thy ===== *)
theory Circular_Buffer
  imports Prelude
begin

text \<open>
  The circular buffer of the character driver (\<open>aesd-char-driver/aesd-circular-buffer.h\<close> and
  \<open>aesd-circular-buffer.c\<close>): its structures as records, its three functions and the iteration
  macro as definitions, the invariant of the ring, and the refinement of the ring to a window
  over the last ten entries that were added.

  The array \<open>entry\<close> is a list of ten entries. \<open>uint8_t\<close> offsets are 8-bit words; the index
  expressions of the source are computed in \<open>int\<close> after promotion, so they are written over
  the natural numbers and cut back to eight bits on assignment. An index past the end of
  the array is the error \<open>OutOfBounds\<close>.
\<close>

section \<open>Data\<close>

definition AESDCHAR_MAX_WRITE_OPERATIONS_SUPPORTED :: nat where
  "AESDCHAR_MAX_WRITE_OPERATIONS_SUPPORTED = 10"

record aesd_buffer_entry =
  buffptr :: ptr
  entry_size :: u64

record aesd_circular_buffer =
  entry :: "aesd_buffer_entry list"
  in_offs :: u8
  out_offs :: u8
  full :: bool

section \<open>Operations\<close>

text \<open>Reading an element of the array.\<close>

definition entry_at :: "aesd_circular_buffer \<Rightarrow> nat \<Rightarrow> aesd_buffer_entry result" where
  "entry_at b k =
     (if k < AESDCHAR_MAX_WRITE_OPERATIONS_SUPPORTED then Inr (entry b ! k) else Inl OutOfBounds)"

text \<open>
  The search loop: \<open>i\<close> and \<open>totalEntries\<close> are \<open>uint8_t\<close>. The result is the index of the
  entry whose address the code returns (\<open>None\<close> for NULL), with the final value of
  \<open>*entry_offset_byte_rtn\<close>, which is written only when an entry is found.
\<close>

function find_entry_loop ::
  "aesd_circular_buffer \<Rightarrow> u8 \<Rightarrow> u8 \<Rightarrow> u64 \<Rightarrow> u64 \<Rightarrow> (nat option \<times> u64) result" where
  "find_entry_loop buffer totalEntries i char_offset entry_offset_byte_rtn =
     (if i < totalEntries then
        let k = (unat (out_offs buffer) + unat i) mod AESDCHAR_MAX_WRITE_OPERATIONS_SUPPORTED
        in (case entry_at buffer k of
              Inl err \<Rightarrow> Inl err
            | Inr e \<Rightarrow>
                if char_offset < entry_size e then Inr (Some k, char_offset)
                else find_entry_loop buffer totalEntries (i + 1) (char_offset - entry_size e)
                       entry_offset_byte_rtn)
      else Inr (None, entry_offset_byte_rtn))"
  by pat_completeness auto
termination
  by (relation "measure (\<lambda>(b, t, i, c, r). unat t - unat i)")
    (auto simp: unat_Suc_less word_less_nat_alt)

declare find_entry_loop.simps [simp del]

definition aesd_circular_buffer_find_entry_offset_for_fpos ::
  "aesd_circular_buffer option \<Rightarrow> u64 \<Rightarrow> u64 \<Rightarrow> (nat option \<times> u64) result" where
  "aesd_circular_buffer_find_entry_offset_for_fpos buffer char_offset entry_offset_byte_rtn =
     (case buffer of
        None \<Rightarrow> Inr (None, entry_offset_byte_rtn)
      | Some b \<Rightarrow>
          let totalEntries =
                (if full b then of_nat AESDCHAR_MAX_WRITE_OPERATIONS_SUPPORTED else in_offs b)
          in find_entry_loop b totalEntries 0 char_offset entry_offset_byte_rtn)"

text \<open>
  Adding an entry: the new buffer and the returned pointer, which is the \<open>buffptr\<close> of the
  overwritten entry, or NULL.
\<close>

definition aesd_circular_buffer_add_entry ::
  "aesd_circular_buffer option \<Rightarrow> aesd_buffer_entry option
     \<Rightarrow> (aesd_circular_buffer option \<times> ptr) result" where
  "aesd_circular_buffer_add_entry buffer add_entry =
     (case (buffer, add_entry) of
        (Some b, Some e) \<Rightarrow>
          if full b \<and> \<not> unat (out_offs b) < AESDCHAR_MAX_WRITE_OPERATIONS_SUPPORTED
          then Inl OutOfBounds
          else
            let (removed, b1) =
                  (if full b then
                     (buffptr (entry b ! unat (out_offs b)),
                      b\<lparr>out_offs := of_nat ((unat (out_offs b) + 1)
                                      mod AESDCHAR_MAX_WRITE_OPERATIONS_SUPPORTED)\<rparr>)
                   else (None, b))
            in if \<not> unat (in_offs b1) < AESDCHAR_MAX_WRITE_OPERATIONS_SUPPORTED
               then Inl OutOfBounds
               else
                 let b2 = b1\<lparr>entry := (entry b1)[unat (in_offs b1) := e]\<rparr>;
                     b3 = b2\<lparr>in_offs := of_nat ((unat (in_offs b2) + 1)
                                      mod AESDCHAR_MAX_WRITE_OPERATIONS_SUPPORTED)\<rparr>;
                     b4 = (if in_offs b3 = out_offs b3 then b3\<lparr>full := True\<rparr> else b3)
                 in Inr (Some b4, removed)
      | _ \<Rightarrow> Inr (buffer, None))"

text \<open>\<open>memset\<close> of the whole structure to zero bytes.\<close>

definition zero_entry :: aesd_buffer_entry where
  "zero_entry = \<lparr>buffptr = None, entry_size = 0\<rparr>"

definition aesd_circular_buffer_init :: "aesd_circular_buffer \<Rightarrow> aesd_circular_buffer" where
  "aesd_circular_buffer_init buffer =
     \<lparr>entry = replicate AESDCHAR_MAX_WRITE_OPERATIONS_SUPPORTED zero_entry,
      in_offs = 0, out_offs = 0, full = False\<rparr>"

text \<open>
  The loop of \<open>AESD_CIRCULAR_BUFFER_FOREACH\<close> with a \<open>uint8_t\<close> index and the loop body as a
  state transformer.
\<close>

function AESD_CIRCULAR_BUFFER_FOREACH ::
  "(aesd_buffer_entry \<Rightarrow> 's \<Rightarrow> 's) \<Rightarrow> aesd_circular_buffer \<Rightarrow> u8 \<Rightarrow> 's \<Rightarrow> 's" where
  "AESD_CIRCULAR_BUFFER_FOREACH body buffer index s =
     (if index < of_nat AESDCHAR_MAX_WRITE_OPERATIONS_SUPPORTED
      then AESD_CIRCULAR_BUFFER_FOREACH body buffer (index + 1)
             (body (entry buffer ! unat index) s)
      else s)"
  by pat_completeness auto
termination
  by (relation "measure (\<lambda>(f, b, i, s). 10 - unat i)")
    (auto simp: AESDCHAR_MAX_WRITE_OPERATIONS_SUPPORTED_def unat_u8_inc word_less_nat_alt)

declare AESD_CIRCULAR_BUFFER_FOREACH.simps [simp del]

lemma MAX_eq [simp]: "AESDCHAR_MAX_WRITE_OPERATIONS_SUPPORTED = 10"
  by (simp add: AESDCHAR_MAX_WRITE_OPERATIONS_SUPPORTED_def)

lemma entry_at_ok [simp]: "k < 10 \<Longrightarrow> entry_at b k = Inr (entry b ! k)"
  by (simp add: entry_at_def)

section \<open>Invariant and abstraction\<close>

text \<open>
  The invariant: ten slots, both offsets in range; a full ring writes where it reads, a ring
  that is not full starts at slot 0, and its slots from \<open>in_offs\<close> on are still zero.
\<close>

definition ring_inv :: "aesd_circular_buffer \<Rightarrow> bool" where
  "ring_inv b \<longleftrightarrow>
     length (entry b) = 10 \<and> unat (in_offs b) < 10 \<and> unat (out_offs b) < 10 \<and>
     (if full b then in_offs b = out_offs b
      else out_offs b = 0 \<and> (\<forall>k < 10. unat (in_offs b) \<le> k \<longrightarrow> entry b ! k = zero_entry))"

definition ring_count :: "aesd_circular_buffer \<Rightarrow> nat" where
  "ring_count b = (if full b then 10 else unat (in_offs b))"

definition ring_slot :: "aesd_circular_buffer \<Rightarrow> nat \<Rightarrow> nat" where
  "ring_slot b i = (unat (out_offs b) + i) mod 10"

text \<open>The entries of the ring, oldest first.\<close>

definition ring_list :: "aesd_circular_buffer \<Rightarrow> aesd_buffer_entry list" where
  "ring_list b = map (\<lambda>i. entry b ! ring_slot b i) [0..<ring_count b]"

abbreviation ring_sizes :: "aesd_circular_buffer \<Rightarrow> nat list" where
  "ring_sizes b \<equiv> map (\<lambda>e. unat (entry_size e)) (ring_list b)"

lemma length_ring_list [simp]: "length (ring_list b) = ring_count b"
  by (simp add: ring_list_def)

lemma ring_list_nth [simp]: "i < ring_count b \<Longrightarrow> ring_list b ! i = entry b ! ring_slot b i"
  by (simp add: ring_list_def)

lemma ring_slot_less [simp]: "ring_slot b i < 10"
  by (simp add: ring_slot_def)

lemma ring_count_le: "ring_inv b \<Longrightarrow> ring_count b \<le> 10"
  by (simp add: ring_inv_def ring_count_def)


section \<open>The search finds the position in the concatenation\<close>

definition size_at :: "aesd_circular_buffer \<Rightarrow> nat \<Rightarrow> nat" where
  "size_at b i = unat (entry_size (entry b ! ring_slot b i))"

lemma ring_sizes_eq: "ring_sizes b = map (size_at b) [0..<ring_count b]"
  by (simp add: ring_list_def size_at_def comp_def)

lemma find_entry_loop_locate:
  "find_entry_loop b t i c r =
     Inr (case locate (map (size_at b) [unat i..<unat t]) (unat c) of
        None \<Rightarrow> (None, r)
      | Some (k, j) \<Rightarrow> (Some (ring_slot b (unat i + k)), of_nat j))"
proof (induction b t i c r rule: find_entry_loop.induct)
  case (1 b t i c r)
  let ?e = "entry b ! ring_slot b (unat i)"
  show ?case
  proof (cases "i < t")
    case True
    then have upt: "[unat i..<unat t] = unat i # [unat (i + 1)..<unat t]"
      by (simp add: unat_Suc_less upt_rec word_less_nat_alt)
    show ?thesis
    proof (cases "c < entry_size ?e")
      case True
      with \<open>i < t\<close> show ?thesis
        by (subst find_entry_loop.simps)
          (simp add: upt size_at_def ring_slot_def word_less_nat_alt Let_def)
    next
      case False
      then have c: "unat (c - entry_size ?e) = unat c - size_at b (unat i)"
        by (simp add: size_at_def unat_sub_le)
      from False have ge: "\<not> unat c < size_at b (unat i)"
        by (simp add: size_at_def word_less_nat_alt)
      have "find_entry_loop b t i c r = find_entry_loop b t (i + 1) (c - entry_size ?e) r"
        using \<open>i < t\<close> False
        by (subst find_entry_loop.simps) (simp add: ring_slot_def Let_def)
      also have "\<dots> =
        Inr (case locate (map (size_at b) [unat (i + 1)..<unat t]) (unat c - size_at b (unat i)) of
           None \<Rightarrow> (None, r)
         | Some (k, j) \<Rightarrow> (Some (ring_slot b (unat (i + 1) + k)), of_nat j))"
        using "1.IH" \<open>i < t\<close> False c by (simp add: ring_slot_def Let_def)
      finally show ?thesis
        using ge \<open>i < t\<close> by (simp add: upt unat_Suc_less split: option.split)
    qed
  next
    case False
    then show ?thesis
      by (subst find_entry_loop.simps) (simp add: word_less_nat_alt)
  qed
qed

lemma find_entry_locate:
  "aesd_circular_buffer_find_entry_offset_for_fpos (Some b) c r =
     Inr (case locate (ring_sizes b) (unat c) of
        None \<Rightarrow> (None, r)
      | Some (k, j) \<Rightarrow> (Some (ring_slot b k), of_nat j))"
  by (simp add: aesd_circular_buffer_find_entry_offset_for_fpos_def find_entry_loop_locate
      ring_sizes_eq ring_count_def split: option.split prod.split)

section \<open>Adding an entry slides the window\<close>

lemma add_entry_full:
  assumes "ring_inv b" "full b"
  shows "aesd_circular_buffer_add_entry (Some b) (Some e) =
     Inr (Some (b\<lparr>entry := (entry b)[unat (out_offs b) := e],
                  in_offs := of_nat ((unat (out_offs b) + 1) mod 10),
                  out_offs := of_nat ((unat (out_offs b) + 1) mod 10)\<rparr>),
          buffptr (entry b ! unat (out_offs b)))"
  using assms by (simp add: aesd_circular_buffer_add_entry_def ring_inv_def Let_def)

lemma add_entry_room:
  assumes "ring_inv b" "\<not> full b"
  shows "aesd_circular_buffer_add_entry (Some b) (Some e) =
     Inr (Some (b\<lparr>entry := (entry b)[unat (in_offs b) := e],
                  in_offs := of_nat ((unat (in_offs b) + 1) mod 10),
                  full := (unat (in_offs b) = 9)\<rparr>), None)"
proof -
  have "of_nat ((unat (in_offs b) + 1) mod 10) = (0 :: u8) \<longleftrightarrow> unat (in_offs b) = 9"
    using assms by (auto simp: ring_inv_def word_unat_eq_iff mod_Suc)
  then show ?thesis
    using assms by (simp add: aesd_circular_buffer_add_entry_def ring_inv_def Let_def)
qed

lemma ring_slot_inj:
  assumes "i < 10" "j < 10"
  shows "ring_slot b i = ring_slot b j \<longleftrightarrow> i = j"
  using assms unfolding ring_slot_def by (rule mod_add_inj)

lemma ring_add_full:
  assumes "ring_inv b" "full b"
    and b': "b' = b\<lparr>entry := (entry b)[unat (out_offs b) := e],
                  in_offs := of_nat ((unat (out_offs b) + 1) mod 10),
                  out_offs := of_nat ((unat (out_offs b) + 1) mod 10)\<rparr>"
  shows "ring_inv b'" and "ring_list b' = push_window 10 (ring_list b) e"
proof -
  show "ring_inv b'" using assms by (simp add: ring_inv_def)
  have ne: "ring_list b \<noteq> []" using assms(2) by (simp add: ring_list_def ring_count_def)
  have slot: "ring_slot b' i = ring_slot b (Suc i)" for i
    by (simp add: b' ring_slot_def mod_simps)
  have cnt: "ring_count b' = 10" "ring_count b = 10"
    using assms(2) by (simp_all add: b' ring_count_def)
  have ent: "entry b' = (entry b)[ring_slot b 0 := e]" "length (entry b) = 10"
    using assms(1) by (simp_all add: b' ring_slot_def ring_inv_def)
  have "ring_list b' = tl (ring_list b) @ [e]"
  proof (rule nth_equalityI)
    show "length (ring_list b') = length (tl (ring_list b) @ [e])" by (simp add: cnt)
  next
    fix i assume "i < length (ring_list b')"
    then have i: "i < 10" by (simp add: cnt)
    show "ring_list b' ! i = (tl (ring_list b) @ [e]) ! i"
    proof (cases "i = 9")
      case True
      then have "ring_slot b (Suc i) = ring_slot b 0" by (simp add: ring_slot_def)
      with True show ?thesis by (simp add: nth_append slot cnt ent)
    next
      case False
      with i have "Suc i < 10" by simp
      then have "ring_slot b (Suc i) \<noteq> ring_slot b 0"
        using ring_slot_inj [of "Suc i" 0 b] by simp
      with \<open>Suc i < 10\<close> show ?thesis by (simp add: nth_append nth_tl slot cnt ent)
    qed
  qed
  then show "ring_list b' = push_window 10 (ring_list b) e"
    using ne assms(2) by (simp add: push_window_full ring_count_def)
qed

lemma ring_add_room:
  assumes "ring_inv b" "\<not> full b"
    and b': "b' = b\<lparr>entry := (entry b)[unat (in_offs b) := e],
                  in_offs := of_nat ((unat (in_offs b) + 1) mod 10),
                  full := (unat (in_offs b) = 9)\<rparr>"
  shows "ring_inv b'" and "ring_list b' = push_window 10 (ring_list b) e"
proof -
  have inb: "unat (in_offs b) < 10" "length (entry b) = 10" "out_offs b = 0"
    using assms(1,2) by (simp_all add: ring_inv_def)
  have cnt: "ring_count b' = Suc (ring_count b)"
    using inb assms(2) by (simp add: b' ring_count_def unat_u8_inc')
  show "ring_inv b'" using assms inb
    by (auto simp: ring_inv_def word_unat_eq_iff unat_u8_inc')
  have "ring_list b' = ring_list b @ [e]"
  proof (rule nth_equalityI)
    show "length (ring_list b') = length (ring_list b @ [e])" by (simp add: cnt)
  next
    fix i assume "i < length (ring_list b')"
    then have "i \<le> unat (in_offs b)" using cnt assms(2) by (simp add: ring_count_def)
    with inb cnt assms(2) show "ring_list b' ! i = (ring_list b @ [e]) ! i"
      by (auto simp: nth_append ring_count_def ring_slot_def b')
  qed
  then show "ring_list b' = push_window 10 (ring_list b) e"
    using inb assms(2) by (simp add: push_window_room ring_count_def)
qed

text \<open>One statement for both cases: no index error, the invariant, the window, the evicted pointer.\<close>

lemma add_entry_window:
  assumes "ring_inv b"
  obtains b' where
    "aesd_circular_buffer_add_entry (Some b) (Some e) =
       Inr (Some b', if ring_count b = 10 then buffptr (hd (ring_list b)) else None)"
    "ring_inv b'" "ring_list b' = push_window 10 (ring_list b) e"
proof (cases "full b")
  case True
  have "hd (ring_list b) = entry b ! unat (out_offs b)"
    using assms True by (simp add: hd_conv_nth ring_count_def ring_slot_def ring_inv_def
        flip: length_greater_0_conv)
  then show thesis
    using that add_entry_full [OF assms True] ring_add_full [OF assms True] True
    by (simp add: ring_count_def)
next
  case False
  moreover have "ring_count b \<noteq> 10" using assms False by (simp add: ring_inv_def ring_count_def)
  ultimately show thesis
    using that add_entry_room [OF assms False] ring_add_room [OF assms False] by simp
qed


section \<open>The interface the driver relies on\<close>

text \<open>
  A window keeps the last \<open>cap\<close> elements added to it, in order. A positioned window also finds
  the element that holds a position of the concatenation of its elements.
\<close>

locale bounded_window =
  fixes start :: 'q
    and add :: "'q \<Rightarrow> 'a \<Rightarrow> 'q option"
    and contents :: "'q \<Rightarrow> 'a list"
    and invar :: "'q \<Rightarrow> bool"
    and cap :: nat
  assumes start_invar: "invar start"
    and start_contents: "contents start = []"
    and add_ok: "invar q \<Longrightarrow> \<exists>q'. add q x = Some q' \<and> invar q' \<and>
                   contents q' = push_window cap (contents q) x"
    and contents_cap: "invar q \<Longrightarrow> length (contents q) \<le> cap"
begin

lemma run_adds_window:
  "invar q \<Longrightarrow> \<exists>q'. run_adds add q xs = Some q' \<and> invar q' \<and>
                   contents q' = take_last cap (contents q @ xs)"
proof (induction xs arbitrary: q)
  case Nil
  then show ?case by (simp add: contents_cap)
next
  case (Cons x xs)
  from add_ok [OF Cons.prems, of x] obtain q1 where
    q1: "add q x = Some q1" "invar q1" "contents q1 = push_window cap (contents q) x"
    by blast
  from Cons.IH [OF q1(2)] obtain q' where
    q': "run_adds add q1 xs = Some q'" "invar q'" "contents q' = take_last cap (contents q1 @ xs)"
    by blast
  have "take_last cap (contents q1 @ xs) = take_last cap (contents q @ x # xs)"
    using take_last_append [of cap "contents q @ [x]" xs] by (simp add: q1(3) push_window_def)
  with q1 q' show ?case by simp
qed

lemma run_adds_start:
  "\<exists>q'. run_adds add start xs = Some q' \<and> invar q' \<and> contents q' = take_last cap xs"
  using run_adds_window [OF start_invar] by (simp add: start_contents)

end

locale positioned_window = bounded_window +
  fixes find :: "'q \<Rightarrow> nat \<Rightarrow> ('a \<times> nat) option"
    and width :: "'a \<Rightarrow> nat"
  assumes find_ok: "invar q \<Longrightarrow> n < 2 ^ 64 \<Longrightarrow> find q n =
      map_option (\<lambda>(i, j). (contents q ! i, j)) (locate (map width (contents q)) n)"
begin

text \<open>
  Reading from the element that \<open>find\<close> returns reads the concatenation at the position, for any
  meaning of the elements as byte sequences of their width.
\<close>

lemma find_slice:
  assumes "invar q" "n < 2 ^ 64"
    and "\<And>x. x \<in> set (contents q) \<Longrightarrow> length (val x) = width x"
  shows "find q n = None \<longleftrightarrow> drop n (concat (map val (contents q))) = []"
    and "find q n = Some (x, j) \<Longrightarrow>
           x \<in> set (contents q) \<and> j < width x \<and>
           (\<exists>rest. drop n (concat (map val (contents q))) = drop j (val x) @ rest)"
proof -
  let ?xss = "map val (contents q)"
  have w: "map width (contents q) = map length ?xss" using assms(3) by simp
  show "find q n = None \<longleftrightarrow> drop n (concat ?xss) = []"
    by (simp add: find_ok [OF assms(1,2)] w locate_None_iff length_concat del: map_map)
  assume "find q n = Some (x, j)"
  then obtain i where l: "locate (map length ?xss) n = Some (i, j)" and x: "x = contents q ! i"
    by (auto simp: find_ok [OF assms(1,2)] w simp del: map_map)
  from locate_SomeD [OF l] have i: "i < length (contents q)" and j: "j < length (?xss ! i)"
    by auto
  from drop_concat_locate [OF l] i x have
    "drop n (concat ?xss) = drop j (val x) @ concat (drop (Suc i) ?xss)" by simp
  with i j x assms(3) [of x] show "x \<in> set (contents q) \<and> j < width x \<and>
      (\<exists>rest. drop n (concat ?xss) = drop j (val x) @ rest)"
    by auto
qed

end

text \<open>The ring as a positioned window: the model's own operations behind the interface.\<close>

definition ring_start :: aesd_circular_buffer where
  "ring_start = aesd_circular_buffer_init \<lparr>entry = [], in_offs = 0, out_offs = 0, full = False\<rparr>"

definition ring_add :: "aesd_circular_buffer \<Rightarrow> aesd_buffer_entry \<Rightarrow> aesd_circular_buffer option" where
  "ring_add b e =
     (case aesd_circular_buffer_add_entry (Some b) (Some e) of
        Inr (b', removed) \<Rightarrow> b' | Inl err \<Rightarrow> None)"

definition ring_find :: "aesd_circular_buffer \<Rightarrow> nat \<Rightarrow> (aesd_buffer_entry \<times> nat) option" where
  "ring_find b n =
     (case aesd_circular_buffer_find_entry_offset_for_fpos (Some b) (of_nat n) 0 of
        Inr (Some k, j) \<Rightarrow> Some (entry b ! k, unat j) | _ \<Rightarrow> None)"

lemma ring_start_simps [simp]:
  "ring_inv (aesd_circular_buffer_init b)" "ring_list (aesd_circular_buffer_init b) = []"
  by (simp_all add: aesd_circular_buffer_init_def ring_inv_def ring_list_def ring_count_def)

lemma locate_bound: "locate ss n = Some (i, j) \<Longrightarrow> j \<le> n"
  by (drule locate_SomeD) simp

interpretation ring: positioned_window ring_start ring_add ring_list ring_inv 10 ring_find
  "\<lambda>e. unat (entry_size e)"
proof unfold_locales
  show "ring_inv ring_start" "ring_list ring_start = []"
    by (simp_all add: ring_start_def)
next
  fix q x assume "ring_inv q"
  then show "\<exists>q'. ring_add q x = Some q' \<and> ring_inv q' \<and>
      ring_list q' = push_window 10 (ring_list q) x"
    by (rule add_entry_window [where e = x]) (simp add: ring_add_def)
next
  fix q assume "ring_inv q"
  then show "length (ring_list q) \<le> 10" by (simp add: ring_count_le)
next
  fix q and n :: nat assume "ring_inv q" and n: "n < 2 ^ 64"
  then have n': "unat (of_nat n :: u64) = n" by simp
  show "ring_find q n = map_option (\<lambda>(i, j). (ring_list q ! i, j)) (locate (ring_sizes q) n)"
  proof (cases "locate (ring_sizes q) n")
    case None
    then show ?thesis by (simp add: ring_find_def find_entry_locate n')
  next
    case (Some p)
    obtain i j where p: "p = (i, j)" by (cases p)
    from Some p have "j < 2 ^ 64" "i < ring_count q"
      using locate_bound [of "ring_sizes q" n i j] locate_SomeD [of "ring_sizes q" n i j] n
      by auto
    with Some p show ?thesis by (simp add: ring_find_def find_entry_locate n')
  qed
qed

section \<open>Iterating over all slots\<close>

lemma foreach_fold_from:
  "length (entry b) = 10 \<Longrightarrow>
     AESD_CIRCULAR_BUFFER_FOREACH f b i s = fold f (drop (unat i) (entry b)) s"
proof (induction f b i s rule: AESD_CIRCULAR_BUFFER_FOREACH.induct)
  case (1 f b i s)
  show ?case
  proof (cases "unat i < 10")
    case True
    then have "drop (unat i) (entry b) = entry b ! unat i # drop (unat (i + 1)) (entry b)"
      using "1.prems" by (simp add: unat_u8_inc Cons_nth_drop_Suc)
    with True "1.IH" "1.prems" show ?thesis
      by (subst AESD_CIRCULAR_BUFFER_FOREACH.simps) (simp add: word_less_nat_alt)
  next
    case False
    with "1.prems" show ?thesis
      by (subst AESD_CIRCULAR_BUFFER_FOREACH.simps) (simp add: word_less_nat_alt)
  qed
qed

lemma foreach_fold:
  "ring_inv b \<Longrightarrow> AESD_CIRCULAR_BUFFER_FOREACH f b 0 s = fold f (entry b) s"
  by (simp add: foreach_fold_from ring_inv_def)


section \<open>Properties\<close>

text \<open>A full ring whose oldest entry is in slot 3, and an entry to add: inputs for the witnesses.\<close>

definition ring_example :: aesd_circular_buffer where
  "ring_example =
     \<lparr>entry = map (\<lambda>i. \<lparr>buffptr = Some i, entry_size = 5\<rparr>) [0, 1, 2, 3, 4, 5, 6, 7, 8, 9],
      in_offs = 3, out_offs = 3, full = True\<rparr>"

definition entry_example :: aesd_buffer_entry where
  "entry_example = \<lparr>buffptr = Some 77, entry_size = 4\<rparr>"

lemma ring_inv_example: "ring_inv ring_example"
  by (simp add: ring_inv_def ring_example_def)

text \<open>
  \<open>aesd_circular_buffer_add_entry\<close> on a well-formed ring makes no index error, keeps the ring
  well-formed, slides the window of the last ten entries by one, and returns the buffer pointer
  of the entry it overwrote when the ring was full, NULL otherwise.
\<close>

lemma add_entry_slides_window:
  assumes "ring_inv b"
  shows "\<exists>b'. aesd_circular_buffer_add_entry (Some b) (Some e) =
            Inr (Some b', if ring_count b = 10 then buffptr (hd (ring_list b)) else None) \<and>
          ring_inv b' \<and> ring_list b' = push_window 10 (ring_list b) e"
  by (rule add_entry_window [OF assms, where e = e]) blast

lemma add_entry_slides_window_witness:
  "ring_inv ring_example \<and>
   (\<exists>b'. aesd_circular_buffer_add_entry (Some ring_example) (Some entry_example) =
            Inr (Some b', Some 3) \<and>
          ring_inv b' \<and> ring_list b' = push_window 10 (ring_list ring_example) entry_example)"
proof -
  have "hd (ring_list ring_example) = \<lparr>buffptr = Some 3, entry_size = 5\<rparr>" "ring_count ring_example = 10"
    by (simp_all add: ring_list_def ring_count_def ring_slot_def ring_example_def upt_rec)
  then show ?thesis
    using ring_inv_example add_entry_slides_window [OF ring_inv_example, of entry_example] by simp
qed

text \<open>
  C14: the position search is exact. It returns slot \<open>k\<close> and offset \<open>j\<close> precisely when \<open>k\<close> holds
  the \<open>i\<close>-th oldest entry, \<open>j\<close> lies inside that entry, and the requested position is the total
  size of the older entries plus \<open>j\<close>; it returns NULL and leaves \<open>*entry_offset_byte_rtn\<close> alone
  precisely when the position is past the end of all entries; a NULL buffer gives NULL; and it never
  indexes the array out of its bounds.
\<close>

theorem find_entry_exact:
  "(aesd_circular_buffer_find_entry_offset_for_fpos (Some b) c r = Inr (Some k, j) \<longleftrightarrow>
      (\<exists>i. i < ring_count b \<and> k = ring_slot b i \<and> unat j < unat (entry_size (entry b ! k)) \<and>
           unat c = sum_list (take i (ring_sizes b)) + unat j)) \<and>
   ((\<exists>j. aesd_circular_buffer_find_entry_offset_for_fpos (Some b) c r = Inr (None, j)) \<longleftrightarrow>
      sum_list (ring_sizes b) \<le> unat c) \<and>
   (aesd_circular_buffer_find_entry_offset_for_fpos (Some b) c r = Inr (None, r) \<longleftrightarrow>
      sum_list (ring_sizes b) \<le> unat c) \<and>
   (\<exists>x. aesd_circular_buffer_find_entry_offset_for_fpos (Some b) c r = Inr x) \<and>
   aesd_circular_buffer_find_entry_offset_for_fpos None c r = Inr (None, r)"
proof (cases "locate (ring_sizes b) (unat c)")
  case None
  then have tot: "sum_list (ring_sizes b) \<le> unat c" by (simp only: locate_None_iff)
  have "\<not> (\<exists>i. i < ring_count b \<and> k = ring_slot b i \<and> unat j < unat (entry_size (entry b ! k)) \<and>
           unat c = sum_list (take i (ring_sizes b)) + unat j)"
    using None locate_SomeI [of _ "ring_sizes b" "unat j"] by force
  with None tot show ?thesis
    by (simp add: find_entry_locate aesd_circular_buffer_find_entry_offset_for_fpos_def [of None])
next
  case (Some p)
  obtain i' j' where p: "p = (i', j')" by (cases p)
  have loc: "i' < ring_count b" "j' < unat (entry_size (entry b ! ring_slot b i'))"
    "unat c = sum_list (take i' (ring_sizes b)) + j'"
    using Some p locate_SomeD by fastforce+
  have j': "unat (of_nat j' :: u64) = j'" using loc(3) unat_u64_lt [of c] by simp
  have tot: "\<not> sum_list (ring_sizes b) \<le> unat c"
    using Some by (simp flip: locate_None_iff)
  have "(\<exists>i. i < ring_count b \<and> k = ring_slot b i \<and> unat j < unat (entry_size (entry b ! k)) \<and>
           unat c = sum_list (take i (ring_sizes b)) + unat j)
        \<longleftrightarrow> k = ring_slot b i' \<and> j = of_nat j'" (is "?L \<longleftrightarrow> ?R")
  proof
    assume ?L
    then show ?R using Some p locate_SomeI [of _ "ring_sizes b" "unat j"] by fastforce
  next
    assume ?R
    then show ?L using loc j' by auto
  qed
  with Some p tot show ?thesis
    by (auto simp: find_entry_locate aesd_circular_buffer_find_entry_offset_for_fpos_def [of None])
qed

text \<open>
  C5: starting from the initialised ring, adding any sequence of entries never fails and leaves
  exactly the last ten of them, oldest first.
\<close>

theorem ring_keeps_last_ten:
  "\<exists>b. run_adds ring_add (aesd_circular_buffer_init b0) es = Some b \<and> ring_inv b \<and>
       ring_list b = take_last 10 es"
  using ring.run_adds_window [of "aesd_circular_buffer_init b0" es] by simp

text \<open>
  the iteration macro runs its body once on each of the ten slots, in slot order, also for
  slots that were never filled.
\<close>

lemma foreach_visits_every_slot:
  "ring_inv b \<Longrightarrow>
     AESD_CIRCULAR_BUFFER_FOREACH body b 0 s = fold body (entry b) s \<and> length (entry b) = 10"
  by (simp add: foreach_fold) (simp add: ring_inv_def)

lemma foreach_visits_every_slot_witness:
  "ring_inv ring_example \<and>
   AESD_CIRCULAR_BUFFER_FOREACH (\<lambda>e n. n + unat (entry_size e)) ring_example 0 0 = 50"
  using ring_inv_example
    foreach_visits_every_slot [OF ring_inv_example, of "\<lambda>e n. n + unat (entry_size e)" 0]
  by (simp add: ring_example_def)

end
