(* ===== verification/Kernel.thy ===== *)
theory Kernel
  imports Prelude
begin

text \<open>
  The services of the Linux kernel that the character driver calls. Their code is not part of the
  repository, so they are parameters of the driver's definitions, collected in the record
  \<open>kernel\<close>; what the driver relies on is the predicate \<open>kernel_ok\<close>, a conjunction of the
  documented contracts. \<open>reference_kernel\<close> is one concrete instance, used to show that the
  contracts can hold together.
\<close>

section \<open>The services\<close>

text \<open>
  \<^item> \<open>mutex_lock_interruptible held\<close>: the return code and whether the mutex is held afterwards;
    \<open>mutex_unlock\<close> likewise.
  \<^item> \<open>kmalloc h n\<close>, \<open>krealloc h p n\<close>: the returned pointer (\<open>None\<close> for NULL) and the new heap;
    \<open>kfree h p\<close>: the new heap.
  \<^item> \<open>copy_from_user h p off buf n\<close>: copy \<open>n\<close> bytes from the user memory \<open>buf\<close> to offset
    \<open>off\<close> of block \<open>p\<close>: the number of bytes not copied and the new heap.
  \<^item> \<open>copy_to_user h p off n\<close>: copy \<open>n\<close> bytes from offset \<open>off\<close> of block \<open>p\<close>: the number
    of bytes not copied and the bytes that arrived in user memory.
  \<^item> \<open>copy_struct_from_user v\<close>: copying a two-word structure \<open>v\<close> from user memory: the number
    of bytes not copied and the value that arrived.
  \<^item> \<open>ioc_type\<close>, \<open>ioc_nr\<close>, \<open>iowr\<close>: the command number macros \<open>_IOC_TYPE\<close>, \<open>_IOC_NR\<close>, \<open>_IOWR\<close>.
  \<^item> \<open>alloc_chrdev_region minor count\<close>: return code and device number; \<open>cdev_add\<close>: return code;
    \<open>major_of\<close>, \<open>mkdev\<close>: the macros \<open>MAJOR\<close> and \<open>MKDEV\<close>.
\<close>

record kernel =
  mutex_lock_interruptible :: "bool \<Rightarrow> int \<times> bool"
  mutex_unlock :: "bool \<Rightarrow> bool"
  kmalloc :: "heap \<Rightarrow> u64 \<Rightarrow> ptr \<times> heap"
  krealloc :: "heap \<Rightarrow> ptr \<Rightarrow> u64 \<Rightarrow> ptr \<times> heap"
  kfree :: "heap \<Rightarrow> ptr \<Rightarrow> heap"
  copy_from_user :: "heap \<Rightarrow> ptr \<Rightarrow> u64 \<Rightarrow> bytes \<Rightarrow> u64 \<Rightarrow> u64 \<times> heap"
  copy_to_user :: "heap \<Rightarrow> ptr \<Rightarrow> u64 \<Rightarrow> u64 \<Rightarrow> u64 \<times> bytes"
  copy_struct_from_user :: "u32 \<times> u32 \<Rightarrow> u64 \<times> (u32 \<times> u32)"
  ioc_type :: "u32 \<Rightarrow> u32"
  ioc_nr :: "u32 \<Rightarrow> u32"
  iowr :: "u32 \<Rightarrow> u32 \<Rightarrow> nat \<Rightarrow> u32"
  alloc_chrdev_region :: "u32 \<Rightarrow> u32 \<Rightarrow> int \<times> u32"
  cdev_add :: "u32 \<Rightarrow> u32 \<Rightarrow> int"
  major_of :: "u32 \<Rightarrow> u32"
  mkdev :: "u32 \<Rightarrow> u32 \<Rightarrow> u32"

section \<open>Their contracts\<close>

text \<open>The mutex: code 0 means that a free mutex was taken; another code leaves it as it was.\<close>

definition mutex_ok :: "kernel \<Rightarrow> bool" where
  "mutex_ok K \<longleftrightarrow>
     (\<forall>held rc held'. mutex_lock_interruptible K held = (rc, held') \<longrightarrow>
        (if rc = 0 then \<not> held \<and> held' else held' = held)) \<and>
     mutex_unlock K True = False"

text \<open>
  Allocation: NULL and an unchanged heap, or a block of the requested length at a fresh
  address with unspecified contents. Requests of half the address space or more fail.
\<close>

definition fresh_block :: "heap \<Rightarrow> u64 \<Rightarrow> addr \<Rightarrow> heap \<Rightarrow> bool" where
  "fresh_block h n a h' \<longleftrightarrow>
     h a = None \<and> unat n < 2 ^ 63 \<and> (\<exists>bs. length bs = unat n \<and> h' = h(a \<mapsto> bs))"

definition kmalloc_ok :: "kernel \<Rightarrow> bool" where
  "kmalloc_ok K \<longleftrightarrow>
     (\<forall>h n h'. kmalloc K h n = (None, h') \<longrightarrow> h' = h) \<and>
     (\<forall>h n a h'. kmalloc K h n = (Some a, h') \<longrightarrow> fresh_block h n a h')"

text \<open>
  Reallocation of NULL is allocation. Reallocation of a block keeps the contents up to the
  smaller length, in place or in a fresh block with the old one freed; on failure the old
  block stays as it is.
\<close>

definition moved_block :: "heap \<Rightarrow> addr \<Rightarrow> bytes \<Rightarrow> u64 \<Rightarrow> addr \<Rightarrow> heap \<Rightarrow> bool" where
  "moved_block h a old n q h' \<longleftrightarrow>
     (q = a \<or> h q = None) \<and> unat n < 2 ^ 63 \<and>
     (\<exists>bs. length bs = unat n \<and> take (length old) bs = take (unat n) old \<and>
           h' = (h(a := None))(q \<mapsto> bs))"

definition krealloc_ok :: "kernel \<Rightarrow> bool" where
  "krealloc_ok K \<longleftrightarrow>
     (\<forall>h n a h'. krealloc K h None n = (Some a, h') \<longrightarrow> fresh_block h n a h') \<and>
     (\<forall>h a old n q h'. h a = Some old \<longrightarrow> krealloc K h (Some a) n = (Some q, h') \<longrightarrow>
        moved_block h a old n q h') \<and>
     (\<forall>h p n h'. krealloc K h p n = (None, h') \<longrightarrow> h' = h)"

definition kfree_ok :: "kernel \<Rightarrow> bool" where
  "kfree_ok K \<longleftrightarrow>
     (\<forall>h. kfree K h None = h) \<and>
     (\<forall>h a bs. h a = Some bs \<longrightarrow> kfree K h (Some a) = h(a := None))"

text \<open>
  Copying in: a prefix of the user's bytes arrives at the destination, the rest of the
  destination range is unspecified, nothing else changes.
\<close>

definition copy_from_user_ok :: "kernel \<Rightarrow> bool" where
  "copy_from_user_ok K \<longleftrightarrow>
     (\<forall>h a blk off buf n r h'.
        h a = Some blk \<longrightarrow> unat off + unat n \<le> length blk \<longrightarrow>
        copy_from_user K h (Some a) off buf n = (r, h') \<longrightarrow>
          r \<le> n \<and> unat n - unat r \<le> length buf \<and>
          (\<exists>pad. length pad = unat r \<and>
             h' = h(a \<mapsto> take (unat off) blk @ take (unat n - unat r) buf @ pad
                         @ drop (unat off + unat n) blk)))"

text \<open>Copying out: a prefix of the source range arrives.\<close>

definition copy_to_user_ok :: "kernel \<Rightarrow> bool" where
  "copy_to_user_ok K \<longleftrightarrow>
     (\<forall>h a blk off n r out.
        h a = Some blk \<longrightarrow> unat off + unat n \<le> length blk \<longrightarrow>
        copy_to_user K h (Some a) off n = (r, out) \<longrightarrow>
          r \<le> n \<and> out = take (unat n - unat r) (drop (unat off) blk)) \<and>
     (\<forall>v r v'. copy_struct_from_user K v = (r, v') \<longrightarrow> r = 0 \<longrightarrow> v' = v)"

text \<open>A command number carries its type and its number.\<close>

definition ioc_ok :: "kernel \<Rightarrow> bool" where
  "ioc_ok K \<longleftrightarrow>
     (\<forall>t n s. t < 256 \<longrightarrow> n < 256 \<longrightarrow> ioc_type K (iowr K t n s) = t \<and> ioc_nr K (iowr K t n s) = n)"

definition kernel_ok :: "kernel \<Rightarrow> bool" where
  "kernel_ok K \<longleftrightarrow>
     mutex_ok K \<and> kmalloc_ok K \<and> krealloc_ok K \<and> kfree_ok K \<and>
     copy_from_user_ok K \<and> copy_to_user_ok K \<and> ioc_ok K"

section \<open>A reference instance\<close>

text \<open>
  Addresses are searched from 0 to 63; freshly allocated memory holds the byte \<open>?\<close>; every
  allocation above four kilobytes fails and every copy of accessible memory succeeds.
\<close>

definition ref_fresh :: "heap \<Rightarrow> ptr" where
  "ref_fresh h = List.find (\<lambda>a. h a = None) [0..<64]"

definition ref_kmalloc :: "heap \<Rightarrow> u64 \<Rightarrow> ptr \<times> heap" where
  "ref_kmalloc h n =
     (if unat n > 4096 then (None, h)
      else case ref_fresh h of
             None \<Rightarrow> (None, h)
           | Some p \<Rightarrow> (Some p, h(p \<mapsto> replicate (unat n) CHR ''?'')))"

definition ref_krealloc :: "heap \<Rightarrow> ptr \<Rightarrow> u64 \<Rightarrow> ptr \<times> heap" where
  "ref_krealloc h p n =
     (case p of
        None \<Rightarrow> ref_kmalloc h n
      | Some a \<Rightarrow>
          if unat n > 4096 then (None, h)
          else let old = (case h a of None \<Rightarrow> [] | Some bs \<Rightarrow> bs)
               in (Some a, h(a \<mapsto> take (unat n) old
                                  @ replicate (unat n - length old) CHR ''?'')))"

definition ref_copy_from_user :: "heap \<Rightarrow> ptr \<Rightarrow> u64 \<Rightarrow> bytes \<Rightarrow> u64 \<Rightarrow> u64 \<times> heap" where
  "ref_copy_from_user h p off buf n =
     (case p of
        None \<Rightarrow> (n, h)
      | Some a \<Rightarrow>
         let blk = (case h a of None \<Rightarrow> [] | Some bs \<Rightarrow> bs);
             k = min (unat n) (length buf)
         in (n - of_nat k, h(a \<mapsto> take (unat off) blk @ take k buf
                              @ replicate (unat n - k) CHR 0x00
                              @ drop (unat off + unat n) blk)))"

definition ref_copy_to_user :: "heap \<Rightarrow> ptr \<Rightarrow> u64 \<Rightarrow> u64 \<Rightarrow> u64 \<times> bytes" where
  "ref_copy_to_user h p off n =
     (case p of
        None \<Rightarrow> (n, [])
      | Some a \<Rightarrow> (case h a of None \<Rightarrow> (n, [])
                           | Some blk \<Rightarrow> (0, take (unat n) (drop (unat off) blk))))"

definition reference_kernel :: kernel where
  "reference_kernel =
     \<lparr>mutex_lock_interruptible = (\<lambda>held. if held then (4, held) else (0, True)),
      mutex_unlock = (\<lambda>held. False),
      kmalloc = ref_kmalloc,
      krealloc = ref_krealloc,
      kfree = (\<lambda>h p. case p of None \<Rightarrow> h | Some a \<Rightarrow> h(a := None)),
      copy_from_user = ref_copy_from_user,
      copy_to_user = ref_copy_to_user,
      copy_struct_from_user = (\<lambda>v. (0, v)),
      ioc_type = (\<lambda>c. of_nat ((unat c div 256) mod 256)),
      ioc_nr = (\<lambda>c. of_nat (unat c mod 256)),
      iowr = (\<lambda>t n s. t * 256 + n),
      alloc_chrdev_region = (\<lambda>minor count. (0, of_nat (240 * 256 + unat minor))),
      cdev_add = (\<lambda>devno count. 0),
      major_of = (\<lambda>d. of_nat (unat d div 256)),
      mkdev = (\<lambda>ma mi. of_nat (unat ma * 256 + unat mi))\<rparr>"


lemma ref_fresh_free: "ref_fresh h = Some p \<Longrightarrow> h p = None"
  by (simp add: ref_fresh_def find_Some_iff) blast

lemma ref_kmalloc_fresh: "ref_kmalloc h n = (Some a, h') \<Longrightarrow> fresh_block h n a h'"
  by (auto simp: fresh_block_def ref_kmalloc_def ref_fresh_free
      intro!: exI [of _ "replicate (unat n) CHR ''?''"] split: if_splits option.splits)

lemma reference_kmalloc_ok: "kmalloc_ok reference_kernel"
  using ref_kmalloc_fresh
  by (auto simp: kmalloc_ok_def reference_kernel_def)
    (auto simp: ref_kmalloc_def split: if_splits option.splits)

lemma reference_krealloc_ok: "krealloc_ok reference_kernel"
proof -
  have "moved_block h a old n q h'"
    if "h a = Some old" "ref_krealloc h (Some a) n = (Some q, h')" for h a old n q h'
    using that
    by (auto simp: moved_block_def ref_krealloc_def Let_def min_def
        intro!: exI [of _ "take (unat n) old @ replicate (unat n - length old) CHR ''?''"]
        split: if_splits)
  moreover have "h' = h" if "ref_krealloc h p n = (None, h')" for h p n h'
    using that
    by (auto simp: ref_krealloc_def ref_kmalloc_def Let_def split: if_splits option.splits)
  ultimately show ?thesis
    using ref_kmalloc_fresh
    by (simp add: krealloc_ok_def reference_kernel_def) (simp add: ref_krealloc_def)
qed

lemma reference_copy_from_user_ok: "copy_from_user_ok reference_kernel"
  unfolding copy_from_user_ok_def
proof (intro allI impI)
  fix h a blk off buf n r h'
  assume h: "h a = Some blk"
    and "copy_from_user reference_kernel h (Some a) off buf n = (r, h')"
  then have r: "r = n - of_nat (min (unat n) (length buf))"
    and h': "h' = h(a \<mapsto> take (unat off) blk @ take (min (unat n) (length buf)) buf
               @ replicate (unat n - min (unat n) (length buf)) CHR 0x00
               @ drop (unat off + unat n) blk)"
    by (auto simp: reference_kernel_def ref_copy_from_user_def Let_def)
  have m: "unat (of_nat (min (unat n) (length buf)) :: u64) = min (unat n) (length buf)"
    using unat_u64_lt [of n] by (intro unat_u64_of_nat) simp
  have le: "of_nat (min (unat n) (length buf)) \<le> n"
    unfolding word_le_nat_alt m by simp
  have ur: "unat r = unat n - min (unat n) (length buf)"
    unfolding r unat_sub_le [OF le] m by simp
  have "unat n - unat r = min (unat n) (length buf)" unfolding ur by simp
  with ur h' show "r \<le> n \<and> unat n - unat r \<le> length buf \<and>
      (\<exists>pad. length pad = unat r \<and>
         h' = h(a \<mapsto> take (unat off) blk @ take (unat n - unat r) buf @ pad
                     @ drop (unat off + unat n) blk))"
    by (auto simp: word_le_nat_alt intro!: exI [of _ "replicate (unat r) CHR 0x00"])
qed

lemma reference_copy_to_user_ok: "copy_to_user_ok reference_kernel"
  by (auto simp: copy_to_user_ok_def reference_kernel_def ref_copy_to_user_def)

lemma reference_ioc_ok: "ioc_ok reference_kernel"
proof -
  have "unat (t * 256 + n) = unat t * 256 + unat n" if "t < 256" "n < 256" for t n :: u32
    using that by (simp add: word_less_nat_alt unat_word_ariths)
  then show ?thesis
    by (simp add: ioc_ok_def reference_kernel_def word_less_nat_alt)
qed

lemma reference_kernel_ok [simp]: "kernel_ok reference_kernel"
proof -
  have "mutex_ok reference_kernel" "kfree_ok reference_kernel"
    by (auto simp: mutex_ok_def kfree_ok_def reference_kernel_def split: if_splits)
  then show ?thesis
    by (simp add: kernel_ok_def reference_kmalloc_ok reference_krealloc_ok
        reference_copy_from_user_ok reference_copy_to_user_ok
        reference_ioc_ok)
qed

end
