(* ===== verification/Char_Driver.thy ===== *)
theory Char_Driver
  imports Circular_Buffer Kernel
begin

text \<open>
  The character driver (\<open>aesd-char-driver/main.c\<close>, \<open>aesdchar.h\<close>, \<open>aesd_ioctl.h\<close>): the device
  structure and the files open on it, one definition per file operation and per module entry
  point, over the circular buffer and the kernel services.

  An operation takes the driver's state and returns the new one with its result: \<open>Inr\<close> of the
  returned value, \<open>Inl (Errno e)\<close> where the code returns \<open>-e\<close>, another \<open>Inl\<close> where it would
  touch memory it must not touch. A fault leaves the state as it is at that point, with the mutex
  still held if it was taken.
\<close>

section \<open>Data\<close>

definition AESD_IOC_MAGIC :: u32 where
  "AESD_IOC_MAGIC = 0x16"

definition AESDCHAR_IOC_MAXNR :: u32 where
  "AESDCHAR_IOC_MAXNR = 1"

record aesd_seekto =
  write_cmd :: u32
  write_cmd_offset :: u32

text \<open>\<open>_IOWR(AESD_IOC_MAGIC, 1, struct aesd_seekto)\<close>; the structure has eight bytes.\<close>

definition AESDCHAR_IOCSEEKTO :: "kernel \<Rightarrow> u32" where
  "AESDCHAR_IOCSEEKTO K = iowr K AESD_IOC_MAGIC 1 8"

text \<open>Of \<open>struct cdev\<close> the driver sets the owner and the operations; the kernel adds and removes it.\<close>

record cdev =
  cdev_owner_set :: bool
  cdev_ops_set :: bool
  cdev_live :: bool

record aesd_dev =
  dev_cdev :: cdev
  dev_lock :: bool
  dev_buffer :: aesd_circular_buffer
  dev_entry :: aesd_buffer_entry

text \<open>
  The driver's globals with the memory they point into: the kernel heap, the device, the device
  numbers and the registered device number regions.
\<close>

record kstate =
  kheap :: heap
  aesd_device :: aesd_dev
  aesd_major :: u32
  aesd_minor :: u32
  chrdev_regions :: "u32 set"

datatype devptr = Null_dev | Aesd_device

record inode =
  i_cdev :: devptr

record file_t =
  f_pos :: u64
  private_data :: devptr

datatype origin = SEEK_SET | SEEK_CUR | SEEK_END | SEEK_OTHER int

text \<open>Setting the lock and the pending entry of the device.\<close>

abbreviation set_lock :: "bool \<Rightarrow> kstate \<Rightarrow> kstate" where
  "set_lock l s \<equiv> s\<lparr>aesd_device := (aesd_device s)\<lparr>dev_lock := l\<rparr>\<rparr>"

abbreviation set_pending :: "aesd_buffer_entry \<Rightarrow> kstate \<Rightarrow> kstate" where
  "set_pending e s \<equiv> s\<lparr>aesd_device := (aesd_device s)\<lparr>dev_entry := e\<rparr>\<rparr>"

abbreviation set_buffer :: "aesd_circular_buffer \<Rightarrow> kstate \<Rightarrow> kstate" where
  "set_buffer b s \<equiv> s\<lparr>aesd_device := (aesd_device s)\<lparr>dev_buffer := b\<rparr>\<rparr>"

text \<open>\<open>unlock K s\<close>: \<open>mutex_unlock(&dev->lock)\<close>.\<close>

definition unlock :: "kernel \<Rightarrow> kstate \<Rightarrow> kstate" where
  "unlock K s = set_lock (mutex_unlock K (dev_lock (aesd_device s))) s"

text \<open>The \<open>n\<close> bytes at offset \<open>off\<close> of the block at \<open>p\<close> are allocated.\<close>

definition in_block :: "heap \<Rightarrow> ptr \<Rightarrow> u64 \<Rightarrow> u64 \<Rightarrow> bool" where
  "in_block h p off n =
     (case p of
        None \<Rightarrow> False
      | Some a \<Rightarrow> (case h a of None \<Rightarrow> False | Some blk \<Rightarrow> unat off + unat n \<le> length blk))"

definition block_at :: "heap \<Rightarrow> ptr \<Rightarrow> bytes" where
  "block_at h p =
     (case p of None \<Rightarrow> [] | Some a \<Rightarrow> (case h a of None \<Rightarrow> [] | Some blk \<Rightarrow> blk))"

section \<open>Open and release\<close>

text \<open>\<open>container_of(inode->i_cdev, struct aesd_dev, cdev)\<close> is the device that holds the cdev.\<close>

definition aesd_open :: "inode \<Rightarrow> file_t \<Rightarrow> file_t \<times> int" where
  "aesd_open inode filp = (filp\<lparr>private_data := i_cdev inode\<rparr>, 0)"

definition aesd_release :: "inode \<Rightarrow> file_t \<Rightarrow> file_t \<times> int" where
  "aesd_release inode filp = (filp, 0)"

section \<open>Read\<close>

text \<open>
  The arguments of \<open>read\<close>: \<open>filp\<close>, \<open>buf\<close> and \<open>f_pos\<close> may be NULL. The debug print reads
  \<open>*f_pos\<close> and the next line reads \<open>filp->private_data\<close> before the NULL checks. The result is the
  new state, the new \<open>*f_pos\<close>, the bytes that arrived in user memory and the returned value.
\<close>

definition aesd_read ::
  "kernel \<Rightarrow> kstate \<Rightarrow> file_t option \<Rightarrow> ptr \<Rightarrow> u64 \<Rightarrow> u64 option
     \<Rightarrow> kstate \<times> u64 option \<times> bytes \<times> u64 result" where
  "aesd_read K s filp buf count fpos =
     (case (fpos, filp) of
        (Some pos, Some f) \<Rightarrow>
          if buf = None then (s, fpos, [], Inl (Errno EFAULT))
          else if private_data f = Null_dev then (s, fpos, [], Inl NullDeref)
          else
            let (rc, held) = mutex_lock_interruptible K (dev_lock (aesd_device s));
                s1 = set_lock held s
            in if rc \<noteq> 0 then (s1, fpos, [], Inl (Errno ERESTARTSYS))
               else
                 let b = dev_buffer (aesd_device s1)
                 in (case aesd_circular_buffer_find_entry_offset_for_fpos (Some b) pos 0 of
                       Inl err \<Rightarrow> (s1, fpos, [], Inl err)
                     | Inr (None, offset) \<Rightarrow> (unlock K s1, fpos, [], Inr 0)
                     | Inr (Some k, offset) \<Rightarrow>
                         let e = entry b ! k;
                             count' = (if count > entry_size e - offset
                                       then entry_size e - offset else count)
                         in if \<not> in_block (kheap s1) (buffptr e) offset count'
                            then (s1, fpos, [], Inl BadAccess)
                            else
                              let (bytes, out) =
                                    copy_to_user K (kheap s1) (buffptr e) offset count';
                                  retval = count' - bytes
                              in (unlock K s1, Some (pos + retval), out, Inr retval))
      | _ \<Rightarrow> (s, fpos, [], Inl NullDeref))"

section \<open>Write\<close>

text \<open>The allocation of \<open>write\<close>: a new block for a new command, a larger one for a pending command.\<close>

definition aesd_write_alloc ::
  "kernel \<Rightarrow> heap \<Rightarrow> aesd_buffer_entry \<Rightarrow> u64 \<Rightarrow> ptr \<times> heap" where
  "aesd_write_alloc K h e count =
     (if entry_size e = 0 then kmalloc K h count
      else krealloc K h (buffptr e) (entry_size e + count))"

text \<open>
  The second half of \<open>write\<close>, with the mutex held and room for the new bytes: copy, and when the
  pending command now holds a newline, move it into the ring. The pointer returned by the ring is
  passed to \<open>kfree\<close> only when it is NULL, as the code has it.
\<close>

definition aesd_write_commit ::
  "kernel \<Rightarrow> kstate \<Rightarrow> bytes \<Rightarrow> u64 \<Rightarrow> u64 \<Rightarrow> kstate \<times> u64 option \<times> u64 result" where
  "aesd_write_commit K s buf count pos =
     (let e = dev_entry (aesd_device s) in
      if \<not> in_block (kheap s) (buffptr e) (entry_size e) count then (s, Some pos, Inl BadAccess)
      else
        let (bytes, h) = copy_from_user K (kheap s) (buffptr e) (entry_size e) buf count;
            retval = count - bytes;
            e' = e\<lparr>entry_size := entry_size e + retval\<rparr>;
            s' = set_pending e' (s\<lparr>kheap := h\<rparr>)
        in if \<not> in_block h (buffptr e') 0 (entry_size e') then (s', Some pos, Inl BadAccess)
           else if memchr (block_at h (buffptr e')) nl (unat (entry_size e')) = None
           then (unlock K s', Some pos, Inr retval)
           else
             (case aesd_circular_buffer_add_entry (Some (dev_buffer (aesd_device s'))) (Some e') of
                Inl err \<Rightarrow> (s', Some pos, Inl err)
              | Inr (None, removed) \<Rightarrow> (s', Some pos, Inl NullDeref)
              | Inr (Some b, removed) \<Rightarrow>
                  let h' = (if removed = None then kfree K h removed else h);
                      s'' = set_pending \<lparr>buffptr = None, entry_size = 0\<rparr>
                              (set_buffer b (s'\<lparr>kheap := h'\<rparr>))
                  in (unlock K s'', Some (pos + entry_size e'), Inr retval)))"

definition aesd_write ::
  "kernel \<Rightarrow> kstate \<Rightarrow> file_t option \<Rightarrow> bytes option \<Rightarrow> u64 \<Rightarrow> u64 option
     \<Rightarrow> kstate \<times> u64 option \<times> u64 result" where
  "aesd_write K s filp buf count fpos =
     (case fpos of
        None \<Rightarrow> (s, fpos, Inl NullDeref)
      | Some pos \<Rightarrow>
          if count = 0 then (s, fpos, Inr 0)
          else
            (case (filp, buf) of
               (Some f, Some ubuf) \<Rightarrow>
                 if private_data f = Null_dev then (s, fpos, Inl NullDeref)
                 else
                   let (rc, held) = mutex_lock_interruptible K (dev_lock (aesd_device s));
                       s1 = set_lock held s
                   in if rc \<noteq> 0 then (s1, fpos, Inl (Errno ERESTARTSYS))
                      else
                        let e = dev_entry (aesd_device s1);
                            (p, h) = aesd_write_alloc K (kheap s1) e count;
                            s2 = set_pending (e\<lparr>buffptr := p\<rparr>) (s1\<lparr>kheap := h\<rparr>)
                        in if p = None then (unlock K s2, fpos, Inl (Errno ENOMEM))
                           else aesd_write_commit K s2 ubuf count pos
             | _ \<Rightarrow> (s, fpos, Inl (Errno EFAULT))))"

section \<open>Seek\<close>

text \<open>
  The \<open>do\<close> loop of \<open>SEEK_END\<close> over a \<open>uint8_t\<close> position. It may run forever on a malformed ring,
  so its result is an option: \<open>None\<close> is not returning.
\<close>

partial_function (option) seek_end_loop ::
  "aesd_circular_buffer \<Rightarrow> u8 \<Rightarrow> u64 \<Rightarrow> u64 result option" where
  "seek_end_loop b position totalLength =
     (if \<not> unat position < AESDCHAR_MAX_WRITE_OPERATIONS_SUPPORTED then Some (Inl OutOfBounds)
      else
        let totalLength' = totalLength + entry_size (entry b ! unat position);
            position' = (if position = of_nat (AESDCHAR_MAX_WRITE_OPERATIONS_SUPPORTED - 1)
                         then 0 else position + 1)
        in if position' \<noteq> in_offs b then seek_end_loop b position' totalLength'
           else Some (Inr totalLength'))"

text \<open>
  \<open>llseek\<close> on an open file. The local variable \<open>totalLength\<close> is declared without an
  initialiser: its indeterminate value is the argument \<open>totalLength\<close>. The result is \<open>None\<close>
  when the loop of \<open>SEEK_END\<close> does not return.
\<close>

definition aesd_llseek ::
  "kernel \<Rightarrow> u64 \<Rightarrow> kstate \<Rightarrow> file_t \<Rightarrow> u64 \<Rightarrow> origin \<Rightarrow> (kstate \<times> file_t \<times> u64 result) option" where
  "aesd_llseek K totalLength s filp off origin =
     (if private_data filp = Null_dev then Some (s, filp, Inl NullDeref)
      else
        let (rc, held) = mutex_lock_interruptible K (dev_lock (aesd_device s));
            s1 = set_lock held s
        in if rc \<noteq> 0 then Some (s1, filp, Inl (Errno ERESTARTSYS))
           else
             let b = dev_buffer (aesd_device s1);
                 finish = (\<lambda>retval. if sint retval < 0
                             then (unlock K s1, filp, Inl (Errno EINVAL))
                             else (unlock K s1, filp\<lparr>f_pos := retval\<rparr>, Inr retval))
             in (case origin of
                   SEEK_SET \<Rightarrow> Some (finish off)
                 | SEEK_CUR \<Rightarrow> Some (finish (f_pos filp + off))
                 | SEEK_END \<Rightarrow>
                     (case seek_end_loop b (out_offs b) totalLength of
                        None \<Rightarrow> None
                      | Some (Inl err) \<Rightarrow> Some (s1, filp, Inl err)
                      | Some (Inr len) \<Rightarrow> Some (finish (len + off)))
                 | SEEK_OTHER n \<Rightarrow> Some (unlock K s1, filp, Inl (Errno EINVAL))))"

section \<open>Ioctl\<close>

text \<open>The summation loop of \<open>ioctl\<close>, from \<open>i\<close> up to \<open>n\<close>.\<close>

function ioctl_offset_loop :: "aesd_circular_buffer \<Rightarrow> nat \<Rightarrow> nat \<Rightarrow> u64 \<Rightarrow> u64 result" where
  "ioctl_offset_loop b i n offset =
     (if i < n
      then (case entry_at b i of
              Inl err \<Rightarrow> Inl err
            | Inr e \<Rightarrow> ioctl_offset_loop b (i + 1) n (offset + entry_size e))
      else Inr offset)"
  by pat_completeness auto
termination
  by (relation "measure (\<lambda>(b, i, n, acc). n - i)") auto

declare ioctl_offset_loop.simps [simp del]

text \<open>\<open>arg\<close> is the structure in user memory that the argument of the call points to.\<close>

definition aesd_ioctl ::
  "kernel \<Rightarrow> kstate \<Rightarrow> file_t \<Rightarrow> u32 \<Rightarrow> aesd_seekto \<Rightarrow> kstate \<times> file_t \<times> u64 result" where
  "aesd_ioctl K s filp cmd arg =
     (if ioc_type K cmd \<noteq> AESD_IOC_MAGIC then (s, filp, Inl (Errno ENOTTY))
      else if ioc_nr K cmd > AESDCHAR_IOC_MAXNR then (s, filp, Inl (Errno ENOTTY))
      else
        let (r, wc, wo) = copy_struct_from_user K (write_cmd arg, write_cmd_offset arg);
            seek_to = \<lparr>write_cmd = wc, write_cmd_offset = wo\<rparr>
        in if r \<noteq> 0 then (s, filp, Inl (Errno EFAULT))
           else if private_data filp = Null_dev then (s, filp, Inl NullDeref)
           else
             let (rc, held) = mutex_lock_interruptible K (dev_lock (aesd_device s));
                 s1 = set_lock held s;
                 b = dev_buffer (aesd_device s1)
             in if rc \<noteq> 0 then (s1, filp, Inl (Errno ERESTARTSYS))
                else if unat (write_cmd seek_to) \<ge> AESDCHAR_MAX_WRITE_OPERATIONS_SUPPORTED
                then (unlock K s1, filp, Inl (Errno EINVAL))
                else
                  (case entry_at b (unat (write_cmd seek_to)) of
                     Inl err \<Rightarrow> (s1, filp, Inl err)
                   | Inr e \<Rightarrow>
                       if ucast (write_cmd_offset seek_to) \<ge> entry_size e
                       then (unlock K s1, filp, Inl (Errno EINVAL))
                       else
                         (case ioctl_offset_loop b 0 (unat (write_cmd seek_to)) 0 of
                            Inl err \<Rightarrow> (s1, filp, Inl err)
                          | Inr offset \<Rightarrow>
                              (unlock K s1,
                               filp\<lparr>f_pos := offset + ucast (write_cmd_offset seek_to)\<rparr>, Inr 0))))"

section \<open>The operation table\<close>

record file_operations =
  fop_read :: "kernel \<Rightarrow> kstate \<Rightarrow> file_t option \<Rightarrow> ptr \<Rightarrow> u64 \<Rightarrow> u64 option
                 \<Rightarrow> kstate \<times> u64 option \<times> bytes \<times> u64 result"
  fop_write :: "kernel \<Rightarrow> kstate \<Rightarrow> file_t option \<Rightarrow> bytes option \<Rightarrow> u64 \<Rightarrow> u64 option
                 \<Rightarrow> kstate \<times> u64 option \<times> u64 result"
  fop_open :: "inode \<Rightarrow> file_t \<Rightarrow> file_t \<times> int"
  fop_release :: "inode \<Rightarrow> file_t \<Rightarrow> file_t \<times> int"
  fop_llseek :: "kernel \<Rightarrow> u64 \<Rightarrow> kstate \<Rightarrow> file_t \<Rightarrow> u64 \<Rightarrow> origin
                 \<Rightarrow> (kstate \<times> file_t \<times> u64 result) option"
  fop_unlocked_ioctl :: "kernel \<Rightarrow> kstate \<Rightarrow> file_t \<Rightarrow> u32 \<Rightarrow> aesd_seekto
                 \<Rightarrow> kstate \<times> file_t \<times> u64 result"

definition aesd_fops :: file_operations where
  "aesd_fops =
     \<lparr>fop_read = aesd_read, fop_write = aesd_write, fop_open = aesd_open,
      fop_release = aesd_release, fop_llseek = aesd_llseek, fop_unlocked_ioctl = aesd_ioctl\<rparr>"

section \<open>Module start and stop\<close>

definition zero_device :: aesd_dev where
  "zero_device =
     \<lparr>dev_cdev = \<lparr>cdev_owner_set = False, cdev_ops_set = False, cdev_live = False\<rparr>,
      dev_lock = False,
      dev_buffer = \<lparr>entry = replicate AESDCHAR_MAX_WRITE_OPERATIONS_SUPPORTED zero_entry,
                    in_offs = 0, out_offs = 0, full = False\<rparr>,
      dev_entry = zero_entry\<rparr>"

definition aesd_setup_cdev :: "kernel \<Rightarrow> kstate \<Rightarrow> kstate \<times> int" where
  "aesd_setup_cdev K s =
     (let devno = mkdev K (aesd_major s) (aesd_minor s);
          err = cdev_add K devno 1;
          c = \<lparr>cdev_owner_set = True, cdev_ops_set = True, cdev_live = (err = 0)\<rparr>
      in (s\<lparr>aesd_device := (aesd_device s)\<lparr>dev_cdev := c\<rparr>\<rparr>, err))"

definition aesd_init_module :: "kernel \<Rightarrow> kstate \<Rightarrow> kstate \<times> int" where
  "aesd_init_module K s =
     (let (result, dev) = alloc_chrdev_region K (aesd_minor s) 1;
          s1 = s\<lparr>aesd_major := major_of K dev\<rparr>
      in if result < 0 then (s1, result)
         else
           let s2 = s1\<lparr>chrdev_regions := insert dev (chrdev_regions s1),
                       aesd_device := zero_device\<rparr>;
               s3 = set_buffer (aesd_circular_buffer_init (dev_buffer (aesd_device s2))) s2;
               s4 = set_lock False s3;
               (s5, result') = aesd_setup_cdev K s4
           in if result' \<noteq> 0
              then (s5\<lparr>chrdev_regions := chrdev_regions s5 - {dev}\<rparr>, result')
              else (s5, result'))"

text \<open>
  Module exit: remove the cdev, free the block of every slot, destroy the mutex (which has no
  state here), release the region.
\<close>

definition aesd_cleanup_module :: "kernel \<Rightarrow> kstate \<Rightarrow> kstate" where
  "aesd_cleanup_module K s =
     (let devno = mkdev K (aesd_major s) (aesd_minor s);
          c = (dev_cdev (aesd_device s))\<lparr>cdev_live := False\<rparr>;
          s1 = s\<lparr>aesd_device := (aesd_device s)\<lparr>dev_cdev := c\<rparr>\<rparr>;
          h = AESD_CIRCULAR_BUFFER_FOREACH (\<lambda>e h. kfree K h (buffptr e))
                (dev_buffer (aesd_device s1)) 0 (kheap s1)
      in s1\<lparr>kheap := h, chrdev_regions := chrdev_regions s1 - {devno}\<rparr>)"

end
