(* ===== verification/Driver_Spec.thy ===== *)
theory Driver_Spec
  imports Char_Driver
begin

text \<open>
  What the character driver promises. The abstract device is a list of complete commands and a
  pending command that has no newline yet; \<open>view\<close> reads it off the driver's state. Two invariants:
  \<open>mem_inv\<close> (every pointer the driver may follow leads to an allocated block that is long enough)
  is kept by every operation whatever the kernel answers; \<open>dev_inv\<close> adds that the pending command
  is intact and every stored command holds a newline.
\<close>

section \<open>Abstract device\<close>

record dev_view =
  commands :: "bytes list"
  pending :: bytes

definition spec_write :: "dev_view \<Rightarrow> bytes \<Rightarrow> dev_view" where
  "spec_write v bs =
     (let p = pending v @ bs in
      if nl \<in> set p then \<lparr>commands = push_window 10 (commands v) p, pending = []\<rparr>
      else v\<lparr>pending := p\<rparr>)"

definition spec_read :: "bytes list \<Rightarrow> nat \<Rightarrow> nat \<Rightarrow> bytes" where
  "spec_read cmds pos n =
     (case locate (map length cmds) pos of
        None \<Rightarrow> []
      | Some (i, j) \<Rightarrow> take n (drop j (cmds ! i)))"

text \<open>A read returns a prefix of what follows the position, and nothing only at the end.\<close>

lemma spec_read_prefix:
  "\<exists>rest. drop pos (concat cmds) = spec_read cmds pos n @ rest"
proof (cases "locate (map length cmds) pos")
  case None
  then show ?thesis by (simp add: spec_read_def)
next
  case (Some p)
  obtain i j where p: "p = (i, j)" by (cases p)
  have "drop j (cmds ! i) = take n (drop j (cmds ! i)) @ drop n (drop j (cmds ! i))"
    by (rule append_take_drop_id [symmetric])
  with drop_concat_locate [of cmds pos i j] Some p show ?thesis
    by (simp add: spec_read_def) (metis append_assoc)
qed

lemma spec_read_nonempty:
  assumes "pos < length (concat cmds)" "0 < n"
  shows "spec_read cmds pos n \<noteq> []"
proof -
  have "locate (map length cmds) pos \<noteq> None"
    using assms(1) by (simp add: locate_None_iff length_concat)
  then obtain i j where l: "locate (map length cmds) pos = Some (i, j)" by auto
  from locate_SomeD [OF l] have "j < length (cmds ! i)" by auto
  with l assms(2) show ?thesis by (simp add: spec_read_def)
qed

lemma spec_read_end: "length (concat cmds) \<le> pos \<Longrightarrow> spec_read cmds pos n = []"
  using locate_None_iff [of "map length cmds" pos]
  by (simp add: spec_read_def length_concat)

lemma spec_read_length: "length (spec_read cmds pos n) \<le> n"
  by (auto simp: spec_read_def split: option.split)

section \<open>Abstraction and invariants\<close>

definition entry_bytes :: "heap \<Rightarrow> aesd_buffer_entry \<Rightarrow> bytes" where
  "entry_bytes h e = take (unat (entry_size e)) (block_at h (buffptr e))"

definition live :: "heap \<Rightarrow> aesd_buffer_entry \<Rightarrow> bool" where
  "live h e \<longleftrightarrow> in_block h (buffptr e) 0 (entry_size e)"

abbreviation ring_of :: "kstate \<Rightarrow> aesd_circular_buffer" where
  "ring_of s \<equiv> dev_buffer (aesd_device s)"

abbreviation pending_of :: "kstate \<Rightarrow> aesd_buffer_entry" where
  "pending_of s \<equiv> dev_entry (aesd_device s)"

definition view :: "kstate \<Rightarrow> dev_view" where
  "view s = \<lparr>commands = map (entry_bytes (kheap s)) (ring_list (ring_of s)),
             pending = entry_bytes (kheap s) (pending_of s)\<rparr>"

definition mem_inv :: "kstate \<Rightarrow> bool" where
  "mem_inv s \<longleftrightarrow>
     ring_inv (ring_of s) \<and>
     (\<forall>e \<in> set (ring_list (ring_of s)). live (kheap s) e) \<and>
     distinct (map buffptr (ring_list (ring_of s))) \<and>
     unat (entry_size (pending_of s)) < 2 ^ 63 \<and>
     (entry_size (pending_of s) \<noteq> 0 \<longrightarrow>
        buffptr (pending_of s) = None \<or>
        live (kheap s) (pending_of s) \<and>
        buffptr (pending_of s) \<notin> buffptr ` set (ring_list (ring_of s))) \<and>
     \<not> dev_lock (aesd_device s)"

definition dev_inv :: "kstate \<Rightarrow> bool" where
  "dev_inv s \<longleftrightarrow>
     mem_inv s \<and>
     (entry_size (pending_of s) \<noteq> 0 \<longrightarrow> buffptr (pending_of s) \<noteq> None) \<and>
     (\<forall>c \<in> set (commands (view s)). nl \<in> set c)"

lemma liveE:
  assumes "live h e"
  obtains a blk where "buffptr e = Some a" "h a = Some blk" "unat (entry_size e) \<le> length blk"
    "entry_bytes h e = take (unat (entry_size e)) blk"
  using assms by (auto simp: live_def in_block_def entry_bytes_def block_at_def split: option.splits)

lemma live_allocated: "live h e \<Longrightarrow> buffptr e = Some r \<Longrightarrow> \<exists>bs. h r = Some bs"
  by (erule liveE) simp

lemma length_entry_bytes: "live h e \<Longrightarrow> length (entry_bytes h e) = unat (entry_size e)"
  by (erule liveE) simp

lemma entry_bytes_empty [simp]: "entry_size e = 0 \<Longrightarrow> entry_bytes h e = []"
  by (simp add: entry_bytes_def)

lemma entry_frame:
  assumes "live h e" "\<And>a. buffptr e = Some a \<Longrightarrow> h' a = h a"
  shows "entry_bytes h' e = entry_bytes h e" "live h' e"
  using assms
  by (auto simp: entry_bytes_def live_def in_block_def block_at_def split: option.splits)

text \<open>The parts of the memory invariant.\<close>

lemma mem_inv_ring: "mem_inv s \<Longrightarrow> ring_inv (ring_of s)"
  and mem_inv_unlocked: "mem_inv s \<Longrightarrow> \<not> dev_lock (aesd_device s)"
  and mem_inv_size: "mem_inv s \<Longrightarrow> unat (entry_size (pending_of s)) < 2 ^ 63"
  by (simp_all add: mem_inv_def)

lemma mem_inv_live: "mem_inv s \<Longrightarrow> e \<in> set (ring_list (ring_of s)) \<Longrightarrow> live (kheap s) e"
  by (simp add: mem_inv_def)

lemma mem_inv_pending:
  assumes "mem_inv s" "entry_size (pending_of s) \<noteq> 0" "buffptr (pending_of s) \<noteq> None"
  shows "live (kheap s) (pending_of s)"
    "buffptr (pending_of s) \<notin> buffptr ` set (ring_list (ring_of s))"
  using assms by (simp_all add: mem_inv_def)

section \<open>Facts from the kernel's contracts\<close>

lemma kernel_lock:
  assumes "kernel_ok K" "mutex_lock_interruptible K False = (rc, held)"
  shows "rc = 0 \<longleftrightarrow> held" "rc \<noteq> 0 \<longleftrightarrow> \<not> held"
  using assms unfolding kernel_ok_def mutex_ok_def by (metis (full_types))+

lemma kernel_unlock [simp]: "kernel_ok K \<Longrightarrow> mutex_unlock K True = False"
  by (simp add: kernel_ok_def mutex_ok_def)

lemma unlock_simps [simp]:
  "kheap (unlock K s) = kheap s" "ring_of (unlock K s) = ring_of s"
  "pending_of (unlock K s) = pending_of s"
  "dev_lock (aesd_device (unlock K s)) = mutex_unlock K (dev_lock (aesd_device s))"
  "aesd_major (unlock K s) = aesd_major s" "aesd_minor (unlock K s) = aesd_minor s"
  "chrdev_regions (unlock K s) = chrdev_regions s"
  by (simp_all add: unlock_def)

lemma set_lock_id [simp]: "\<not> dev_lock (aesd_device s) \<Longrightarrow> set_lock False s = s"
  by simp

lemma unlock_locked:
  "kernel_ok K \<Longrightarrow> \<not> dev_lock (aesd_device s) \<Longrightarrow> unlock K (set_lock True s) = s"
  by (simp add: unlock_def)


text \<open>Taking the mutex of an idle device either fails or succeeds.\<close>

definition interrupted :: "kernel \<Rightarrow> bool" where
  "interrupted K \<longleftrightarrow> fst (mutex_lock_interruptible K False) \<noteq> 0"

lemma lock_cases:
  assumes "kernel_ok K" "\<not> dev_lock (aesd_device s)"
  obtains (fail) rc where "interrupted K" "rc \<noteq> 0"
      "mutex_lock_interruptible K (dev_lock (aesd_device s)) = (rc, False)"
  | (got) "\<not> interrupted K" "mutex_lock_interruptible K (dev_lock (aesd_device s)) = (0, True)"
proof -
  obtain rc held where lock: "mutex_lock_interruptible K False = (rc, held)" by fastforce
  from kernel_lock [OF assms(1) lock] lock assms(2) that show thesis
    by (cases "rc = 0") (auto simp: interrupted_def)
qed

section \<open>Reading\<close>

lemma commands_lengths:
  "mem_inv s \<Longrightarrow> map length (commands (view s)) = ring_sizes (ring_of s)"
  by (simp add: view_def mem_inv_def length_entry_bytes)

lemma unat_min_word:
  fixes a b :: "'a::len word"
  shows "unat (if a > b then b else a) = min (unat a) (unat b)"
  by (simp add: word_less_nat_alt min_def)

text \<open>Copies into accessible user memory are complete.\<close>

definition full_copies :: "kernel \<Rightarrow> bool" where
  "full_copies K \<longleftrightarrow>
     (\<forall>h a blk off n. h a = Some blk \<longrightarrow> unat off + unat n \<le> length blk \<longrightarrow>
        fst (copy_to_user K h (Some a) off n) = 0)"

text \<open>The part of \<open>read\<close> after the search: the clipped count, the copy and the returned value.\<close>

lemma read_copy:
  assumes K: "kernel_ok K" and "live h e" and j: "j < unat (entry_size e)"
    and count': "count' = (if count > entry_size e - of_nat j then entry_size e - of_nat j else count)"
    and copy: "copy_to_user K h (buffptr e) (of_nat j) count' = (r, out)"
  shows "in_block h (buffptr e) (of_nat j) count'"
    and "out = take (unat (count' - r)) (take (unat count) (drop j (entry_bytes h e)))"
    and "unat (count' - r) \<le> length (take (unat count) (drop j (entry_bytes h e)))"
    and "full_copies K \<Longrightarrow> unat (count' - r) = length (take (unat count) (drop j (entry_bytes h e)))"
proof -
  from \<open>live h e\<close> obtain a blk where
    blk: "buffptr e = Some a" "h a = Some blk" "unat (entry_size e) \<le> length blk"
      "entry_bytes h e = take (unat (entry_size e)) blk"
    by (rule liveE)
  have uj: "unat (of_nat j :: u64) = j" using j unat_u64_lt [of "entry_size e"] by simp
  then have "unat (entry_size e - of_nat j) = unat (entry_size e) - j"
    using j by (subst unat_sub_le) (simp_all add: word_le_nat_alt)
  then have c: "unat count' = min (unat count) (unat (entry_size e) - j)"
    by (simp add: count' unat_min_word)
  then have room: "j + unat count' \<le> length blk" using blk(3) j by simp
  then show "in_block h (buffptr e) (of_nat j) count'"
    using blk by (simp add: in_block_def uj)
  from K blk(1,2) room copy have r: "r \<le> count'"
    and out: "out = take (unat count' - unat r) (drop j blk)"
    unfolding kernel_ok_def copy_to_user_ok_def by (metis uj)+
  from r have u: "unat (count' - r) = unat count' - unat r" by (rule unat_sub_le)
  show "out = take (unat (count' - r)) (take (unat count) (drop j (entry_bytes h e)))"
    by (simp add: out u blk(4) drop_take c min_def)
  show "unat (count' - r) \<le> length (take (unat count) (drop j (entry_bytes h e)))"
    using blk(3) by (simp add: u blk(4) c) linarith
  assume "full_copies K"
  then have "r = 0" using blk(1,2) room copy unfolding full_copies_def by (metis fst_conv uj)
  then show "unat (count' - r) = length (take (unat count) (drop j (entry_bytes h e)))"
    using blk(3) by (simp add: blk(4) c min_def)
qed

lemma aesd_read_view:
  assumes K: "kernel_ok K" and inv: "mem_inv s"
    and f: "private_data f = Aesd_device" "buf \<noteq> None"
    and run: "aesd_read K s (Some f) buf count (Some pos) = (s', fp, out, res)"
  shows "s' = s \<and>
    (if interrupted K then res = Inl (Errno ERESTARTSYS) \<and> fp = Some pos \<and> out = []
     else (\<exists>n. res = Inr n \<and> fp = Some (pos + n) \<and>
          out = take (unat n) (spec_read (commands (view s)) (unat pos) (unat count)) \<and>
          unat n \<le> length (spec_read (commands (view s)) (unat pos) (unat count)) \<and>
          (full_copies K \<longrightarrow>
             unat n = length (spec_read (commands (view s)) (unat pos) (unat count)))))"
proof -
  let ?b = "ring_of s"
  note free = mem_inv_unlocked [OF inv]
  note simps = aesd_read_def f Let_def find_entry_locate commands_lengths [OF inv]
  from K free show ?thesis
  proof (cases rule: lock_cases)
    case fail
    with run free show ?thesis by (auto simp: simps)
  next
    case got
    show ?thesis
    proof (cases "locate (ring_sizes ?b) (unat pos)")
      case None
      then have "spec_read (commands (view s)) (unat pos) (unat count) = []"
        by (simp add: spec_read_def commands_lengths [OF inv])
      with None got run show ?thesis by (auto simp: simps unlock_locked [OF K free])
    next
      case (Some p)
      obtain i j where p: "p = (i, j)" by (cases p)
      define e where "e = entry ?b ! ring_slot ?b i"
      from locate_SomeD Some p have i: "i < ring_count ?b" and "j < ring_sizes ?b ! i" by fastforce+
      then have e: "ring_list ?b ! i = e" and j: "j < unat (entry_size e)"
        by (simp_all add: e_def)
      from e i have "e \<in> set (ring_list ?b)" by (metis length_ring_list nth_mem)
      with inv have live: "live (kheap s) e" by (simp add: mem_inv_def)
      have cmd: "commands (view s) ! i = entry_bytes (kheap s) e"
        using i by (simp add: view_def e_def)
      define count' where
        "count' = (if count > entry_size e - of_nat j then entry_size e - of_nat j else count)"
      obtain r d where copy: "copy_to_user K (kheap s) (buffptr e) (of_nat j) count' = (r, d)"
        by fastforce
      note rc = read_copy [OF K live j count'_def copy]
      have "(s', fp, out, res) = (s, Some (pos + (count' - r)), d, Inr (count' - r))"
        using run got Some p copy rc(1) unlock_locked [OF K free]
        by (simp add: simps flip: e_def count'_def)
      with rc(2-4) show ?thesis
        using got by (simp add: spec_read_def commands_lengths [OF inv] Some p cmd)
    qed
  qed
qed


section \<open>Writing\<close>

text \<open>
  After a successful allocation the pending block has room for the new bytes, the blocks of the
  ring are untouched, and an intact pending command is still at its start.
\<close>

lemma pending_size_sum:
  assumes "mem_inv s" "unat count < 2 ^ 63"
  shows "unat (entry_size (pending_of s) + count) = unat (entry_size (pending_of s)) + unat count"
  using assms by (intro unat_add_small) (simp add: mem_inv_def)

lemma alloc_NoneD:
  "kernel_ok K \<Longrightarrow> aesd_write_alloc K h e count = (None, h') \<Longrightarrow> h' = h"
  unfolding kernel_ok_def kmalloc_ok_def krealloc_ok_def aesd_write_alloc_def
  by (metis (no_types))

lemma alloc_SomeD:
  assumes K: "kernel_ok K" and inv: "mem_inv s" and count: "unat count < 2 ^ 63"
    and alloc: "aesd_write_alloc K (kheap s) (pending_of s) count = (Some a, h')"
  obtains blk where "h' a = Some blk"
    "length blk = unat (entry_size (pending_of s)) + unat count" "length blk < 2 ^ 63"
    "Some a \<notin> buffptr ` set (ring_list (ring_of s))"
    "\<And>e r. e \<in> set (ring_list (ring_of s)) \<Longrightarrow> buffptr e = Some r \<Longrightarrow> h' r = kheap s r"
    "entry_size (pending_of s) = 0 \<or> buffptr (pending_of s) \<noteq> None \<Longrightarrow>
       take (unat (entry_size (pending_of s))) blk = entry_bytes (kheap s) (pending_of s)"
proof -
  let ?h = "kheap s" and ?p = "pending_of s"
  have used: "?h r \<noteq> None" if "Some r \<in> buffptr ` set (ring_list (ring_of s))" for r
    using that mem_inv_live [OF inv] live_allocated by fastforce
  have sum: "unat (entry_size ?p + count) = unat (entry_size ?p) + unat count"
    using inv count by (rule pending_size_sum)
  show thesis
  proof (cases "entry_size ?p = 0 \<or> buffptr ?p = None")
    case True
    then obtain n where n: "fresh_block ?h n a h'" "unat n = unat (entry_size ?p) + unat count"
      "buffptr ?p \<noteq> None \<Longrightarrow> entry_size ?p = 0"
      using K alloc sum unfolding kernel_ok_def kmalloc_ok_def krealloc_ok_def aesd_write_alloc_def
      by (metis add_0 unsigned_0)
    then obtain bs where bs: "?h a = None" "unat n < 2 ^ 63" "length bs = unat n" "h' = ?h(a \<mapsto> bs)"
      unfolding fresh_block_def by blast
    show thesis
    proof (rule that [of bs])
      show "Some a \<notin> buffptr ` set (ring_list (ring_of s))" using used [of a] bs(1) by blast
      show "h' r = ?h r" if "e \<in> set (ring_list (ring_of s))" "buffptr e = Some r" for e r
        using that used [of r] bs(1,4) by (metis fun_upd_other image_eqI)
      show "take (unat (entry_size ?p)) bs = entry_bytes ?h ?p"
        if "entry_size ?p = 0 \<or> buffptr ?p \<noteq> None"
        using that n(3) by auto
    qed (use bs n in auto)
  next
    case False
    then have ne: "entry_size ?p \<noteq> 0" "buffptr ?p \<noteq> None" by auto
    from mem_inv_pending [OF inv ne] obtain r old where
      old: "buffptr ?p = Some r" "?h r = Some old" "unat (entry_size ?p) \<le> length old"
        "entry_bytes ?h ?p = take (unat (entry_size ?p)) old"
      and new: "Some r \<notin> buffptr ` set (ring_list (ring_of s))"
      by (auto elim!: liveE)
    have "moved_block ?h r old (entry_size ?p + count) a h'"
      using K alloc ne old(1,2) unfolding kernel_ok_def krealloc_ok_def aesd_write_alloc_def by auto
    then obtain bs where bs: "a = r \<or> ?h a = None" "length bs = unat (entry_size ?p + count)"
      "length bs < 2 ^ 63" "take (length old) bs = take (unat (entry_size ?p + count)) old"
      "h' = (?h(r := None))(a \<mapsto> bs)"
      unfolding moved_block_def by auto
    show thesis
    proof (rule that [of bs])
      show a: "Some a \<notin> buffptr ` set (ring_list (ring_of s))" using used [of a] bs(1) new by auto
      show "h' q = ?h q" if "e \<in> set (ring_list (ring_of s))" "buffptr e = Some q" for e q
        using that a new bs(5) by (metis fun_upd_other image_eqI)
      have "take (unat (entry_size ?p)) (take (length old) bs) = take (unat (entry_size ?p)) old"
        by (simp add: bs(4) sum)
      then show "take (unat (entry_size ?p)) bs = entry_bytes ?h ?p"
        using old(3,4) by (simp add: min_def split: if_splits)
    qed (use bs sum in auto)
  qed
qed


text \<open>
  The copy: the pending block then starts with the old pending bytes and the bytes that arrived.
\<close>

lemma commit_copy:
  assumes K: "kernel_ok K" and a: "h a = Some blk" "length blk = unat sz + unat count"
    and copy: "copy_from_user K h (Some a) sz buf count = (r, h')"
  obtains blk' where "h' = h(a \<mapsto> blk')" "length blk' = length blk" "r \<le> count"
    "unat (count - r) \<le> length buf"
    "take (unat sz + unat (count - r)) blk' = take (unat sz) blk @ take (unat (count - r)) buf"
proof -
  from K a copy obtain pad where r: "r \<le> count" "unat count - unat r \<le> length buf"
    "length pad = unat r"
    "h' = h(a \<mapsto> take (unat sz) blk @ take (unat count - unat r) buf @ pad
                @ drop (unat sz + unat count) blk)"
    unfolding kernel_ok_def copy_from_user_ok_def by (metis order_refl)
  have u: "unat (count - r) = unat count - unat r" using r(1) by (rule unat_sub_le)
  from r(1) have "unat r \<le> unat count" by (simp add: word_le_nat_alt)
  with r a(2) u show thesis
    by (intro that [of "take (unat sz) blk @ take (unat count - unat r) buf @ pad"]) auto
qed

text \<open>Moving a live entry into the ring keeps the ring's part of the memory invariant.\<close>

lemma ring_push_ok:
  assumes ring: "ring_inv b" "distinct (map buffptr (ring_list b))"
      "\<And>x. x \<in> set (ring_list b) \<Longrightarrow> live h x"
    and e: "live h e" "buffptr e \<notin> buffptr ` set (ring_list b)"
  obtains b' removed where
    "aesd_circular_buffer_add_entry (Some b) (Some e) = Inr (Some b', removed)" "ring_inv b'"
    "distinct (map buffptr (ring_list b'))" "\<And>x. x \<in> set (ring_list b') \<Longrightarrow> live h x"
    "map (entry_bytes h) (ring_list b')
       = push_window 10 (map (entry_bytes h) (ring_list b)) (entry_bytes h e)"
    "map buffptr (ring_list b') = push_window 10 (map buffptr (ring_list b)) (buffptr e)"
proof (rule add_entry_window [OF ring(1), where e = e])
  fix b'
  assume add: "aesd_circular_buffer_add_entry (Some b) (Some e) =
       Inr (Some b', if ring_count b = 10 then buffptr (hd (ring_list b)) else None)"
    and inv': "ring_inv b'" and list: "ring_list b' = push_window 10 (ring_list b) e"
  have "distinct (map buffptr (ring_list b @ [e]))" using ring(2) e(2) by auto
  then have dist: "distinct (map buffptr (ring_list b'))"
    unfolding list push_window_def take_last_def drop_map [symmetric] by (rule distinct_drop)
  have "set (ring_list b') \<subseteq> set (ring_list b @ [e])"
    unfolding list push_window_def by (rule set_take_last)
  then have "live h x" if "x \<in> set (ring_list b')" for x
    using that ring(3) e(1) by auto
  then show thesis
    using that [OF add inv' dist] by (simp add: list map_push_window)
qed

lemma aesd_write_commit_ok:
  assumes K: "kernel_ok K" and lock: "dev_lock (aesd_device t)"
    and ring: "ring_inv (ring_of t)" "distinct (map buffptr (ring_list (ring_of t)))"
      "\<And>e. e \<in> set (ring_list (ring_of t)) \<Longrightarrow> live (kheap t) e"
    and pend: "buffptr (pending_of t) = Some a" "kheap t a = Some blk"
      "length blk = unat (entry_size (pending_of t)) + unat count" "length blk < 2 ^ 63"
      "Some a \<notin> buffptr ` set (ring_list (ring_of t))"
    and run: "aesd_write_commit K t buf count pos = (t', fp, res)"
  obtains n where "res = Inr n" "n \<le> count" "unat n \<le> length buf" "mem_inv t'"
    "\<And>p. p = take (unat (entry_size (pending_of t))) blk @ take (unat n) buf \<Longrightarrow>
       (if nl \<in> set p
        then commands (view t') = push_window 10 (commands (view t)) p \<and> pending (view t') = [] \<and>
             pending_of t' = zero_entry \<and> fp = Some (pos + entry_size (pending_of t) + n) \<and>
             map buffptr (ring_list (ring_of t'))
               = push_window 10 (map buffptr (ring_list (ring_of t))) (Some a)
        else commands (view t') = commands (view t) \<and> pending (view t') = p \<and>
             buffptr (pending_of t') = Some a \<and> fp = Some pos \<and> ring_of t' = ring_of t)"
    "\<exists>blk'. kheap t' = (kheap t)(a \<mapsto> blk')"
proof -
  let ?e = "pending_of t" and ?b = "ring_of t"
  obtain r h where copy: "copy_from_user K (kheap t) (Some a) (entry_size ?e) buf count = (r, h)"
    by fastforce
  from commit_copy [OF K pend(2,3) copy] obtain blk' where
    h: "h = (kheap t)(a \<mapsto> blk')" and len: "length blk' = length blk" and r: "r \<le> count"
    "unat (count - r) \<le> length buf"
    "take (unat (entry_size ?e) + unat (count - r)) blk'
       = take (unat (entry_size ?e)) blk @ take (unat (count - r)) buf" .
  define n where "n = count - r"
  have nle: "n \<le> count" using r(1) unfolding n_def by (simp add: word_sub_le_iff)
  then have n: "unat n \<le> unat count" by (simp add: word_le_nat_alt)
  have sz: "unat (entry_size ?e + n) = unat (entry_size ?e) + unat n"
    using pend(3,4) n by (intro unat_add_small) simp
  define e' where "e' = ?e\<lparr>entry_size := entry_size ?e + n\<rparr>"
  define p where "p = take (unat (entry_size ?e)) blk @ take (unat n) buf"
  have room: "in_block (kheap t) (Some a) (entry_size ?e) count"
    using pend by (simp add: in_block_def)
  have room': "in_block h (buffptr e') 0 (entry_size e')"
    using pend len n by (simp add: in_block_def e'_def h sz)
  have bytes: "entry_bytes h e' = p"
    using r(3) [folded n_def, folded p_def] pend(1)
    by (simp add: entry_bytes_def block_at_def e'_def h sz)
  have found: "memchr (block_at h (buffptr e')) nl (unat (entry_size e')) = None \<longleftrightarrow> nl \<notin> set p"
    unfolding memchr_None_iff bytes [symmetric] entry_bytes_def ..
  have frame: "entry_bytes h e = entry_bytes (kheap t) e" "live h e"
    if "e \<in> set (ring_list ?b)" for e
  proof -
    have "buffptr e \<noteq> Some a" using that pend(5) by (metis image_eqI)
    then have same: "h r = kheap t r" if "buffptr e = Some r" for r using that by (auto simp: h)
    show "entry_bytes h e = entry_bytes (kheap t) e" "live h e"
      using entry_frame [OF ring(3) [OF that] same] by simp_all
  qed
  have commit: "aesd_write_commit K t buf count pos =
     (if memchr (block_at h (buffptr e')) nl (unat (entry_size e')) = None
      then (unlock K (set_pending e' (t\<lparr>kheap := h\<rparr>)), Some pos, Inr n)
      else (case aesd_circular_buffer_add_entry (Some ?b) (Some e') of
              Inl err \<Rightarrow> (set_pending e' (t\<lparr>kheap := h\<rparr>), Some pos, Inl err)
            | Inr (None, removed) \<Rightarrow> (set_pending e' (t\<lparr>kheap := h\<rparr>), Some pos, Inl NullDeref)
            | Inr (Some b, removed) \<Rightarrow>
                (unlock K (set_pending zero_entry
                   (set_buffer b (t\<lparr>kheap := if removed = None then kfree K h removed else h\<rparr>))),
                 Some (pos + entry_size e'), Inr n)))"
    using room'
    by (simp add: aesd_write_commit_def Let_def pend(1) copy room e'_def n_def zero_entry_def
        split: sum.split prod.split option.split)
  have small: "unat (entry_size e') < 2 ^ 63" using pend(3,4) n by (simp add: e'_def sz)
  have e'ptr: "buffptr e' = Some a" using pend(1) by (simp add: e'_def)
  show thesis
  proof (cases "nl \<in> set p")
    case False
    let ?t = "unlock K (set_pending e' (t\<lparr>kheap := h\<rparr>))"
    have res: "t' = ?t" "fp = Some pos" "res = Inr n"
      using run False by (simp_all add: commit found)
    have "mem_inv t'" using ring(1,2) frame(2) small pend(5) K lock room'
      by (simp add: res mem_inv_def live_def e'ptr)
    moreover have "commands (view t') = commands (view t)" "pending (view t') = p"
      "buffptr (pending_of t') = Some a" "ring_of t' = ring_of t" "\<exists>blk'. kheap t' = (kheap t)(a \<mapsto> blk')"
      using frame(1) bytes e'ptr by (simp_all add: res view_def) (auto simp: h)
    ultimately show thesis
      using that [of n] res(2,3) nle r(2) False by (simp add: n_def [symmetric] p_def [symmetric])
  next
    case True
    obtain b' removed where b':
      "aesd_circular_buffer_add_entry (Some ?b) (Some e') = Inr (Some b', removed)" "ring_inv b'"
      "distinct (map buffptr (ring_list b'))" "\<And>x. x \<in> set (ring_list b') \<Longrightarrow> live h x"
      "map (entry_bytes h) (ring_list b')
         = push_window 10 (map (entry_bytes h) (ring_list ?b)) (entry_bytes h e')"
      "map buffptr (ring_list b') = push_window 10 (map buffptr (ring_list ?b)) (Some a)"
      using ring_push_ok [OF ring(1,2) frame(2), of e'] pend(5) room' by (auto simp: e'ptr live_def)
    have cmds: "map (entry_bytes h) (ring_list b') = push_window 10 (commands (view t)) p"
      using frame(1) by (simp add: b'(5) bytes view_def cong: map_cong)
    let ?t = "unlock K (set_pending zero_entry (set_buffer b' (t\<lparr>kheap := h\<rparr>)))"
    have nofree: "kfree K h None = h" using K by (simp add: kernel_ok_def kfree_ok_def)
    have res: "t' = ?t" "fp = Some (pos + entry_size ?e + n)" "res = Inr n"
      using run True nofree by (simp_all add: commit found b'(1) split: if_splits)
        (simp_all add: e'_def add.assoc)
    have "mem_inv t'" using b'(2-4) K lock
      by (simp add: res mem_inv_def zero_entry_def)
    moreover have "commands (view t') = push_window 10 (commands (view t)) p"
      "pending (view t') = []" "pending_of t' = zero_entry"
      "map buffptr (ring_list (ring_of t'))
         = push_window 10 (map buffptr (ring_list (ring_of t))) (Some a)"
      "\<exists>blk'. kheap t' = (kheap t)(a \<mapsto> blk')"
      using cmds b'(6) by (simp_all add: res view_def zero_entry_def) (auto simp: h)
    ultimately show thesis
      using that [of n] res(2,3) nle r(2) True by (simp add: n_def [symmetric] p_def [symmetric])
  qed
qed


text \<open>An intact pending command: no bytes, or a block that holds them.\<close>

definition intact :: "kstate \<Rightarrow> bool" where
  "intact s \<longleftrightarrow> entry_size (pending_of s) = 0 \<or> buffptr (pending_of s) \<noteq> None"

text \<open>The effect of an accepted write of \<open>n\<close> bytes, with the pending block at \<open>a\<close>.\<close>

definition write_effect ::
  "kstate \<Rightarrow> bytes \<Rightarrow> u64 \<Rightarrow> addr \<Rightarrow> u64 \<Rightarrow> kstate \<Rightarrow> u64 option \<Rightarrow> bool" where
  "write_effect s ubuf pos a n s' fp \<longleftrightarrow>
     mem_inv s' \<and> intact s' \<and> unat n \<le> length ubuf \<and>
     Some a \<notin> buffptr ` set (ring_list (ring_of s)) \<and>
     (\<forall>e \<in> set (ring_list (ring_of s)). \<forall>r. buffptr e = Some r \<longrightarrow> kheap s' r = kheap s r) \<and>
     (if pending_of s' = zero_entry
      then map buffptr (ring_list (ring_of s'))
             = push_window 10 (map buffptr (ring_list (ring_of s))) (Some a)
      else ring_of s' = ring_of s \<and> buffptr (pending_of s') = Some a) \<and>
     (intact s \<longrightarrow>
        view s' = spec_write (view s) (take (unat n) ubuf) \<and>
        (pending_of s' = zero_entry \<longleftrightarrow> nl \<in> set (pending (view s) @ take (unat n) ubuf)) \<and>
        fp = Some (if pending_of s' = zero_entry then pos + entry_size (pending_of s) + n else pos))"

lemma write_accepted:
  assumes K: "kernel_ok K" and inv: "mem_inv s" and count: "unat count < 2 ^ 63"
    and alloc: "aesd_write_alloc K (kheap s) (pending_of s) count = (Some a, h)"
    and run: "aesd_write_commit K
      (set_pending ((pending_of s)\<lparr>buffptr := Some a\<rparr>) (set_lock True s\<lparr>kheap := h\<rparr>)) ubuf count pos
      = (s', fp, res)" (is "aesd_write_commit K ?t ubuf count pos = _")
  shows "\<exists>n. res = Inr n \<and> n \<le> count \<and> write_effect s ubuf pos a n s' fp"
proof -
  let ?e = "pending_of s" and ?R = "set (ring_list (ring_of s))"
  obtain blk where blk: "h a = Some blk" "length blk = unat (entry_size ?e) + unat count"
    "length blk < 2 ^ 63" "Some a \<notin> buffptr ` ?R"
    "\<And>e r. e \<in> ?R \<Longrightarrow> buffptr e = Some r \<Longrightarrow> h r = kheap s r"
    "intact s \<Longrightarrow> take (unat (entry_size ?e)) blk = entry_bytes (kheap s) ?e"
    using alloc_SomeD [OF K inv count alloc] unfolding intact_def by metis
  have same: "entry_bytes h e = entry_bytes (kheap s) e" "live h e" if "e \<in> ?R" for e
    using entry_frame [OF mem_inv_live [OF inv that] blk(5) [OF that]] by simp_all
  have cmds: "commands (view ?t) = commands (view s)" using same(1) by (simp add: view_def)
  show ?thesis
  proof (rule aesd_write_commit_ok [OF K _ _ _ _ _ _ _ blk(3) _ run])
    fix n
    assume n: "res = Inr n" "n \<le> count" "unat n \<le> length ubuf" "mem_inv s'"
      and eff: "\<And>p. p = take (unat (entry_size (pending_of ?t))) blk @ take (unat n) ubuf \<Longrightarrow>
         (if nl \<in> set p
          then commands (view s') = push_window 10 (commands (view ?t)) p \<and>
               pending (view s') = [] \<and> pending_of s' = zero_entry \<and>
               fp = Some (pos + entry_size (pending_of ?t) + n) \<and>
               map buffptr (ring_list (ring_of s'))
                 = push_window 10 (map buffptr (ring_list (ring_of ?t))) (Some a)
          else commands (view s') = commands (view ?t) \<and> pending (view s') = p \<and>
               buffptr (pending_of s') = Some a \<and> fp = Some pos \<and> ring_of s' = ring_of ?t)"
      and heap: "\<exists>blk'. kheap s' = (kheap ?t)(a \<mapsto> blk')"
    define p where "p = take (unat (entry_size ?e)) blk @ take (unat n) ubuf"
    have zero: "pending_of s' = zero_entry \<longleftrightarrow> nl \<in> set p"
      using eff [of p] by (auto simp: p_def zero_entry_def split: if_splits)
    have "kheap s' r = kheap s r" if "e \<in> ?R" "buffptr e = Some r" for e r
    proof -
      have "r \<noteq> a" using that blk(4) by (metis image_eqI)
      with heap blk(5) [OF that] show ?thesis by auto
    qed
    moreover have "intact s'"
      using eff [of p] by (auto simp: p_def intact_def zero_entry_def split: if_splits)
    moreover have "p = pending (view s) @ take (unat n) ubuf" if "intact s"
      using blk(6) [OF that] by (simp add: p_def view_def)
    ultimately have "write_effect s ubuf pos a n s' fp"
      using eff [of p] n(3,4) blk(4) cmds zero
      by (auto simp: write_effect_def spec_write_def Let_def p_def split: if_splits)
    with n(1,2) show ?thesis by blast
  qed (use inv same blk in \<open>auto simp: mem_inv_def\<close>)
qed

text \<open>
  Every outcome of a write of at least one byte: interrupted, out of memory, or \<open>n\<close> bytes
  accepted. Whatever the kernel answers, the memory invariant holds again.
\<close>

lemma aesd_write_outcome:
  assumes K: "kernel_ok K" and inv: "mem_inv s" and f: "private_data f = Aesd_device"
    and count: "count \<noteq> 0" "unat count < 2 ^ 63"
    and run: "aesd_write K s (Some f) (Some ubuf) count (Some pos) = (s', fp, res)"
  obtains
    (interrupted) "interrupted K" "res = Inl (Errno ERESTARTSYS)" "s' = s" "fp = Some pos"
  | (no_memory) "\<not> interrupted K"
      "fst (aesd_write_alloc K (kheap s) (pending_of s) count) = None"
      "res = Inl (Errno ENOMEM)" "fp = Some pos"
      "s' = set_pending ((pending_of s)\<lparr>buffptr := None\<rparr>) s" "mem_inv s'"
  | (accepted) n a where "\<not> interrupted K"
      "fst (aesd_write_alloc K (kheap s) (pending_of s) count) = Some a"
      "res = Inr n" "n \<le> count" "write_effect s ubuf pos a n s' fp"
proof -
  let ?e = "pending_of s"
  note free = mem_inv_unlocked [OF inv]
  obtain p h where alloc: "aesd_write_alloc K (kheap s) ?e count = (p, h)" by fastforce
  note simps = aesd_write_def f count(1) alloc Let_def
  from K free show thesis
  proof (cases rule: lock_cases)
    case fail
    with run free show thesis by (intro interrupted) (auto simp: simps)
  next
    case got
    show thesis
    proof (cases p)
      case None
      then have "h = kheap s" using alloc_NoneD [OF K] alloc by auto
      with None run got free K have res: "res = Inl (Errno ENOMEM)" "fp = Some pos"
        "s' = set_pending (?e\<lparr>buffptr := None\<rparr>) s"
        by (auto simp: simps unlock_def)
      then show thesis using inv got None alloc by (intro no_memory) (auto simp: mem_inv_def)
    next
      case (Some a)
      from write_accepted [OF K inv count(2) alloc [unfolded Some], of ubuf pos s' fp res] run Some got
      show thesis using accepted alloc by (auto simp: simps)
    qed
  qed
qed

section \<open>Seeking\<close>

definition total_size :: "aesd_circular_buffer \<Rightarrow> u64" where
  "total_size b = sum_list (map entry_size (ring_list b))"

lemma of_nat_sum_unat: "of_nat (sum_list (map (\<lambda>x. unat (f x)) xs)) = sum_list (map f xs)"
  by (induction xs) simp_all

lemma total_size_bytes:
  "mem_inv s \<Longrightarrow> total_size (ring_of s) = of_nat (length (concat (commands (view s))))"
  by (simp only: total_size_def length_concat commands_lengths map_map comp_def of_nat_sum_unat)

lemma seek_next_position:
  assumes "unat p < 10"
  shows "unat (if p = 9 then 0 else p + 1 :: u8) = (unat p + 1) mod 10"
  using assms by (auto simp: word_unat_eq_iff unat_u8_inc mod_Suc)

lemma seek_end_loop_steps:
  "0 < d \<Longrightarrow> d \<le> 10 \<Longrightarrow> unat p < 10 \<Longrightarrow> (unat p + d) mod 10 = unat (in_offs b) \<Longrightarrow>
   seek_end_loop b p t =
     Some (Inr (t + sum_list (map (\<lambda>i. entry_size (entry b ! ((unat p + i) mod 10))) [0..<d])))"
proof (induction d arbitrary: p t)
  case 0
  then show ?case by simp
next
  case (Suc d)
  define q where "q = (if p = 9 then 0 else p + 1 :: u8)"
  have p': "unat q = (unat p + 1) mod 10"
    unfolding q_def by (rule seek_next_position [OF Suc.prems(3)])
  have e: "entry b ! ((unat p + 0) mod 10) = entry b ! unat p" using Suc.prems(3) by simp
  have split: "sum_list (map (\<lambda>i. entry_size (entry b ! ((unat p + i) mod 10))) [0..<Suc d])
     = entry_size (entry b ! unat p)
       + sum_list (map (\<lambda>i. entry_size (entry b ! ((unat q + i) mod 10))) [0..<d])"
    using Suc.prems(3)
    by (simp add: p' mod_simps upt_conv_Cons map_Suc_upt [symmetric] comp_def del: upt_Suc)
  show ?case
  proof (cases "d = 0")
    case True
    with Suc.prems(4) p' have "q = in_offs b" by (simp add: word_unat_eq_iff)
    with True Suc.prems(3) show ?thesis
      by (subst seek_end_loop.simps) (simp add: Let_def flip: q_def)
  next
    case False
    have "unat q \<noteq> unat (in_offs b)"
      using False Suc.prems(2,4) mod_add_inj [of d 10 0 "unat p + 1"] by (simp add: p')
    then have ne: "q \<noteq> in_offs b" by blast
    have nxt: "(unat q + d) mod 10 = unat (in_offs b)"
      using Suc.prems(4) by (simp add: p' mod_simps)
    have lt: "unat q < 10" by (simp add: p')
    have "seek_end_loop b p t = seek_end_loop b q (t + entry_size (entry b ! unat p))"
      using ne Suc.prems(3) by (subst seek_end_loop.simps) (simp add: Let_def flip: q_def)
    also have "\<dots> = Some (Inr (t + entry_size (entry b ! unat p)
        + sum_list (map (\<lambda>i. entry_size (entry b ! ((unat q + i) mod 10))) [0..<d])))"
      using Suc.IH [of q] False Suc.prems(2) lt nxt by simp
    finally show ?thesis unfolding split by (simp add: add.assoc)
  qed
qed

lemma seek_end_loop_total:
  assumes "ring_inv b"
  shows "seek_end_loop b (out_offs b) t = Some (Inr (t + total_size b))"
proof -
  note inv = assms [unfolded ring_inv_def]
  define d where "d = (if full b \<or> in_offs b = 0 then 10 else unat (in_offs b))"
  have "0 < d" "d \<le> 10" "unat (out_offs b) < 10" "(unat (out_offs b) + d) mod 10 = unat (in_offs b)"
    using inv by (auto simp: d_def unat_gt_0 split: if_splits)
  from seek_end_loop_steps [OF this] have
    "seek_end_loop b (out_offs b) t =
       Some (Inr (t + sum_list (map (\<lambda>i. entry_size (entry b ! ring_slot b i)) [0..<d])))"
    by (simp add: ring_slot_def)
  also have "sum_list (map (\<lambda>i. entry_size (entry b ! ring_slot b i)) [0..<d]) = total_size b"
  proof (cases "full b \<or> in_offs b \<noteq> 0")
    case True
    then have "d = ring_count b" by (auto simp: d_def ring_count_def)
    then show ?thesis by (simp add: total_size_def ring_list_def comp_def)
  next
    case False
    with inv have "entry b ! ring_slot b i = zero_entry" for i by (simp add: ring_slot_def)
    with False show ?thesis
      by (simp add: total_size_def ring_list_def ring_count_def zero_entry_def sum_list_triv)
  qed
  finally show ?thesis .
qed


text \<open>The position a seek asks for, before the sign check; \<open>g\<close> is the garbage in \<open>totalLength\<close>.\<close>

definition seek_target :: "u64 \<Rightarrow> kstate \<Rightarrow> file_t \<Rightarrow> u64 \<Rightarrow> origin \<Rightarrow> u64 option" where
  "seek_target g s filp off origin =
     (case origin of
        SEEK_SET \<Rightarrow> Some off
      | SEEK_CUR \<Rightarrow> Some (f_pos filp + off)
      | SEEK_END \<Rightarrow> Some (g + total_size (ring_of s) + off)
      | SEEK_OTHER n \<Rightarrow> None)"

lemma aesd_llseek_outcome:
  assumes K: "kernel_ok K" and inv: "mem_inv s" and f: "private_data filp = Aesd_device"
  shows "aesd_llseek K g s filp off origin =
    Some (if interrupted K then (s, filp, Inl (Errno ERESTARTSYS))
          else case seek_target g s filp off origin of
                 None \<Rightarrow> (s, filp, Inl (Errno EINVAL))
               | Some r \<Rightarrow> if sint r < 0 then (s, filp, Inl (Errno EINVAL))
                           else (s, filp\<lparr>f_pos := r\<rparr>, Inr r))"
proof -
  note free = mem_inv_unlocked [OF inv] and ring = mem_inv_ring [OF inv]
  note unl = unlock_locked [OF K free]
  from K free show ?thesis
  proof (cases rule: lock_cases)
    case fail
    then show ?thesis by (simp add: aesd_llseek_def f free)
  next
    case got
    then show ?thesis
      by (simp add: aesd_llseek_def seek_target_def f unl Let_def seek_end_loop_total [OF ring]
          split: origin.split)
  qed
qed

lemma ioctl_offset_loop_sum:
  "n \<le> 10 \<Longrightarrow>
    ioctl_offset_loop b i n acc = Inr (acc + sum_list (map (\<lambda>k. entry_size (entry b ! k)) [i..<n]))"
proof (induction b i n acc rule: ioctl_offset_loop.induct)
  case (1 b i n acc)
  then show ?case
    by (cases "i < n") (simp_all add: ioctl_offset_loop.simps [of b i n] upt_conv_Cons add.assoc)
qed

text \<open>The position \<open>ioctl\<close> computes: slots in array order, not entries by age.\<close>

definition slot_offset :: "aesd_circular_buffer \<Rightarrow> nat \<Rightarrow> u64" where
  "slot_offset b n = sum_list (map (\<lambda>k. entry_size (entry b ! k)) [0..<n])"

lemma aesd_ioctl_outcome:
  assumes K: "kernel_ok K" and inv: "mem_inv s" and f: "private_data filp = Aesd_device"
    and cmd: "ioc_type K cmd = AESD_IOC_MAGIC" "ioc_nr K cmd \<le> AESDCHAR_IOC_MAXNR"
    and copied: "fst (copy_struct_from_user K (write_cmd arg, write_cmd_offset arg)) = 0"
  shows "aesd_ioctl K s filp cmd arg =
    (if interrupted K then (s, filp, Inl (Errno ERESTARTSYS))
     else if unat (write_cmd arg) < 10 \<and>
             unat (write_cmd_offset arg) < unat (entry_size (entry (ring_of s) ! unat (write_cmd arg)))
     then (s, filp\<lparr>f_pos := slot_offset (ring_of s) (unat (write_cmd arg))
                            + ucast (write_cmd_offset arg)\<rparr>, Inr 0)
     else (s, filp, Inl (Errno EINVAL)))"
proof -
  note free = mem_inv_unlocked [OF inv]
  note unl = unlock_locked [OF K free]
  have "copy_struct_from_user K (write_cmd arg, write_cmd_offset arg)
      = (0, write_cmd arg, write_cmd_offset arg)"
    using K copied unfolding kernel_ok_def copy_to_user_ok_def by (metis prod.collapse)
  note copy = this
  have wide: "ucast (write_cmd_offset arg) \<ge> e \<longleftrightarrow> \<not> unat (write_cmd_offset arg) < unat e"
    for e :: u64
    by (simp add: word_le_nat_alt not_less)
  from K free show ?thesis
  proof (cases rule: lock_cases)
    case fail
    then show ?thesis using cmd by (simp add: aesd_ioctl_def f free copy not_less)
  next
    case got
    then show ?thesis using cmd
      by (auto simp: aesd_ioctl_def f unl copy not_less Let_def wide slot_offset_def
          ioctl_offset_loop_sum)
  qed
qed

end
