(* ===== verification/Driver_Props.thy ===== *)
theory Driver_Props
  imports Driver_Spec
begin

text \<open>
  The life of the module: start, any sequence of file operations under any kernel that keeps its
  contracts, stop. The memory invariant in every reachable state, and the properties of the driver.
\<close>

section \<open>Start and stop\<close>

lemma zero_device_inv:
  assumes "aesd_device s = zero_device\<lparr>dev_cdev := c\<rparr>"
  shows "dev_inv s" "view s = \<lparr>commands = [], pending = []\<rparr>"
proof -
  have "ring_inv (dev_buffer zero_device)" "ring_list (dev_buffer zero_device) = []"
    by (simp_all add: zero_device_def ring_inv_def ring_list_def ring_count_def)
  then show "dev_inv s" "view s = \<lparr>commands = [], pending = []\<rparr>"
    using assms by (simp_all add: dev_inv_def mem_inv_def view_def zero_device_def zero_entry_def)
qed

lemma init_module_device:
  assumes "aesd_init_module K s = (s', 0)"
  obtains c where "aesd_device s' = zero_device\<lparr>dev_cdev := c\<rparr>" "cdev_live c"
    "kheap s' = kheap s"
    "chrdev_regions s' = insert (snd (alloc_chrdev_region K (aesd_minor s) 1)) (chrdev_regions s)"
  using assms
  by (auto simp: aesd_init_module_def aesd_setup_cdev_def zero_device_def
      aesd_circular_buffer_init_def Let_def split: prod.splits if_splits)

lemma init_module_failed:
  assumes "aesd_init_module K s = (s', err)" "err \<noteq> 0"
    and "snd (alloc_chrdev_region K (aesd_minor s) 1) \<notin> chrdev_regions s"
  shows "chrdev_regions s' = chrdev_regions s" "kheap s' = kheap s"
  using assms
  by (auto simp: aesd_init_module_def aesd_setup_cdev_def Let_def split: prod.splits if_splits)

text \<open>Freeing a list of pairwise distinct allocated pointers, with NULL pointers in between.\<close>

lemma fold_kfree:
  assumes K: "kernel_ok K"
  shows "distinct (filter (\<lambda>p. p \<noteq> None) (map buffptr es)) \<Longrightarrow>
    (\<And>r. Some r \<in> buffptr ` set es \<Longrightarrow> h r \<noteq> None) \<Longrightarrow>
    fold (\<lambda>e h. kfree K h (buffptr e)) es h
      = (\<lambda>r. if Some r \<in> buffptr ` set es then None else h r)"
proof (induction es arbitrary: h)
  case Nil
  then show ?case by simp
next
  case (Cons e es)
  have law: "kfree K h None = h" "h a = Some bs \<Longrightarrow> kfree K h (Some a) = h(a := None)" for h a bs
    using K by (auto simp: kernel_ok_def kfree_ok_def)
  show ?case
  proof (cases "buffptr e")
    case None
    have "fold (\<lambda>e h. kfree K h (buffptr e)) es h
        = (\<lambda>r. if Some r \<in> buffptr ` set es then None else h r)"
      by (rule Cons.IH) (use Cons.prems None in auto)
    with None show ?thesis by (simp add: law(1))
  next
    case (Some a)
    with Cons.prems(2) [of a] obtain bs where "h a = Some bs" by auto
    with law have free: "kfree K h (buffptr e) = h(a := None)" by (simp add: Some)
    have notin: "Some a \<notin> buffptr ` set es" using Cons.prems(1) Some by (auto simp: image_iff)
    have "fold (\<lambda>e h. kfree K h (buffptr e)) es (h(a := None))
        = (\<lambda>r. if Some r \<in> buffptr ` set es then None else (h(a := None)) r)"
    proof (rule Cons.IH)
      show "distinct (filter (\<lambda>p. p \<noteq> None) (map buffptr es))"
        using Cons.prems(1) Some by simp
      show "(h(a := None)) r \<noteq> None" if "Some r \<in> buffptr ` set es" for r
        using that notin Cons.prems(2) [of r] by auto
    qed
    then have "fold (\<lambda>e h. kfree K h (buffptr e)) (e # es) h
        = (\<lambda>r. if Some r \<in> buffptr ` set es then None else (h(a := None)) r)"
      by (simp add: free)
    then show ?thesis using Some by auto
  qed
qed

text \<open>The slots of a well-formed ring hold its entries, and zero entries besides.\<close>

lemma full_ring_rotate:
  "ring_inv b \<Longrightarrow> full b \<Longrightarrow> ring_list b = rotate (unat (out_offs b)) (entry b)"
  by (rule nth_equalityI)
    (simp_all add: ring_inv_def ring_count_def nth_rotate ring_slot_def)

lemma open_ring_slots:
  assumes "ring_inv b" "\<not> full b"
  shows "entry b = ring_list b @ replicate (10 - ring_count b) zero_entry"
proof (rule nth_equalityI)
  show "length (entry b) = length (ring_list b @ replicate (10 - ring_count b) zero_entry)"
    using assms by (simp add: ring_inv_def ring_count_def)
  fix i assume "i < length (entry b)"
  with assms show "entry b ! i = (ring_list b @ replicate (10 - ring_count b) zero_entry) ! i"
    by (auto simp: ring_inv_def nth_append ring_count_def ring_slot_def)
qed

lemma ring_slots:
  assumes "ring_inv b" and "distinct (map buffptr (ring_list b))"
  shows "Some r \<in> buffptr ` set (entry b) \<longleftrightarrow> Some r \<in> buffptr ` set (ring_list b)"
    and "distinct (filter (\<lambda>p. p \<noteq> None) (map buffptr (entry b)))"
proof -
  have "(Some r \<in> buffptr ` set (entry b) \<longleftrightarrow> Some r \<in> buffptr ` set (ring_list b)) \<and>
    distinct (filter (\<lambda>p. p \<noteq> None) (map buffptr (entry b)))"
  proof (cases "full b")
    case True
    with assms full_ring_rotate show ?thesis
      by (simp add: rotate_map [symmetric] distinct_filter)
  next
    case False
    show ?thesis using assms(2) unfolding open_ring_slots [OF assms(1) False]
      by (auto simp: zero_entry_def filter_replicate distinct_filter)
  qed
  then show "Some r \<in> buffptr ` set (entry b) \<longleftrightarrow> Some r \<in> buffptr ` set (ring_list b)"
    "distinct (filter (\<lambda>p. p \<noteq> None) (map buffptr (entry b)))"
    by blast+
qed

lemma cleanup_heap:
  assumes K: "kernel_ok K" and inv: "mem_inv s"
  shows "kheap (aesd_cleanup_module K s) =
    (\<lambda>r. if Some r \<in> buffptr ` set (ring_list (ring_of s)) then None else kheap s r)"
proof -
  have dist: "distinct (map buffptr (ring_list (ring_of s)))" using inv by (simp add: mem_inv_def)
  note slots = ring_slots [OF mem_inv_ring [OF inv] dist]
  have alloc: "kheap s r \<noteq> None" if "Some r \<in> buffptr ` set (entry (ring_of s))" for r
    using that mem_inv_live [OF inv] live_allocated unfolding slots(1) by fastforce
  have "fold (\<lambda>e h. kfree K h (buffptr e)) (entry (ring_of s)) (kheap s)
      = (\<lambda>r. if Some r \<in> buffptr ` set (ring_list (ring_of s)) then None else kheap s r)"
    using fold_kfree [OF K slots(2) alloc] by (simp add: slots(1))
  then show ?thesis
    by (simp add: aesd_cleanup_module_def Let_def foreach_fold [OF mem_inv_ring [OF inv]])
qed


section \<open>Reachable states\<close>

text \<open>
  One step is one file operation, with any arguments and any kernel that keeps its contracts;
  the kernel passes counts below half the address space.
\<close>

inductive driver_step :: "kstate \<Rightarrow> kstate \<Rightarrow> bool" where
  step_read: "kernel_ok K \<Longrightarrow> aesd_read K s filp buf count fpos = (s', fp, out, res) \<Longrightarrow> driver_step s s'"
| step_write: "kernel_ok K \<Longrightarrow> unat count < 2 ^ 63 \<Longrightarrow>
     aesd_write K s filp ubuf count fpos = (s', fp, res) \<Longrightarrow> driver_step s s'"
| step_llseek: "kernel_ok K \<Longrightarrow> aesd_llseek K g s f off origin = Some (s', f', res) \<Longrightarrow> driver_step s s'"
| step_ioctl: "kernel_ok K \<Longrightarrow> aesd_ioctl K s f cmd arg = (s', f', res) \<Longrightarrow> driver_step s s'"

inductive driver_reachable :: "kstate \<Rightarrow> bool" where
  loaded: "kernel_ok K \<Longrightarrow> aesd_init_module K s = (s', 0) \<Longrightarrow> driver_reachable s'"
| stepped: "driver_reachable s \<Longrightarrow> driver_step s s' \<Longrightarrow> driver_reachable s'"

text \<open>Reads, seeks and control calls leave the device as it was.\<close>

lemma read_state:
  assumes "kernel_ok K" "mem_inv s" "aesd_read K s filp buf count fpos = (s', fp, out, res)"
  shows "s' = s"
proof -
  consider (full) f pos where "filp = Some f" "fpos = Some pos" "buf \<noteq> None" "private_data f = Aesd_device"
    | (rest) "filp = None \<or> fpos = None \<or> buf = None \<or> (\<exists>f. filp = Some f \<and> private_data f = Null_dev)"
    by (metis devptr.exhaust option.exhaust)
  then show ?thesis
  proof cases
    case full
    with aesd_read_view assms show ?thesis by blast
  next
    case rest
    with assms(3) show ?thesis by (auto simp: aesd_read_def split: option.splits if_splits)
  qed
qed

lemma llseek_state:
  assumes "kernel_ok K" "mem_inv s" "aesd_llseek K g s f off origin = Some (s', f', res)"
  shows "s' = s"
proof (cases "private_data f")
  case Null_dev
  with assms(3) show ?thesis by (simp add: aesd_llseek_def)
next
  case Aesd_device
  with aesd_llseek_outcome assms show ?thesis by (auto split: if_splits option.splits)
qed

lemma ioctl_state:
  assumes K: "kernel_ok K" and inv: "mem_inv s" and run: "aesd_ioctl K s f cmd arg = (s', f', res)"
  shows "s' = s"
proof -
  consider (full) "private_data f = Aesd_device" "ioc_type K cmd = AESD_IOC_MAGIC"
      "ioc_nr K cmd \<le> AESDCHAR_IOC_MAXNR"
      "fst (copy_struct_from_user K (write_cmd arg, write_cmd_offset arg)) = 0"
    | (rest) "private_data f = Null_dev \<or> ioc_type K cmd \<noteq> AESD_IOC_MAGIC \<or>
      ioc_nr K cmd > AESDCHAR_IOC_MAXNR \<or>
      fst (copy_struct_from_user K (write_cmd arg, write_cmd_offset arg)) \<noteq> 0"
    by (metis devptr.exhaust not_le)
  then show ?thesis
  proof cases
    case full
    with aesd_ioctl_outcome [OF K inv] run show ?thesis by (auto split: if_splits)
  next
    case rest
    with run show ?thesis by (auto simp: aesd_ioctl_def Let_def split: prod.splits if_splits)
  qed
qed

lemma write_trivial:
  assumes "aesd_write K s filp ubuf count fpos = (s', fp, res)"
    and "filp = None \<or> ubuf = None \<or> fpos = None \<or> count = 0 \<or>
         (\<exists>f. filp = Some f \<and> private_data f = Null_dev)"
  shows "s' = s"
  using assms by (auto simp: aesd_write_def split: option.splits if_splits)

lemma write_mem_inv:
  assumes K: "kernel_ok K" and inv: "mem_inv s" and count: "unat count < 2 ^ 63"
    and run: "aesd_write K s filp ubuf count fpos = (s', fp, res)"
  shows "mem_inv s'"
proof -
  consider (full) f ub pos where "filp = Some f" "ubuf = Some ub" "fpos = Some pos" "count \<noteq> 0"
      "private_data f = Aesd_device"
    | (rest) "filp = None \<or> ubuf = None \<or> fpos = None \<or> count = 0 \<or>
         (\<exists>f. filp = Some f \<and> private_data f = Null_dev)"
    by (metis devptr.exhaust option.exhaust)
  then show ?thesis
  proof cases
    case full
    show ?thesis
      by (rule aesd_write_outcome [OF K inv full(5,4) count run [unfolded full]])
        (use inv in \<open>auto simp: write_effect_def\<close>)
  next
    case rest
    with write_trivial run inv show ?thesis by blast
  qed
qed

lemma driver_step_mem_inv: "driver_step s s' \<Longrightarrow> mem_inv s \<Longrightarrow> mem_inv s'"
  by (induction rule: driver_step.induct)
    (auto dest: read_state llseek_state ioctl_state intro: write_mem_inv)

lemma driver_reachable_mem_inv: "driver_reachable s \<Longrightarrow> mem_inv s"
proof (induction rule: driver_reachable.induct)
  case (loaded K s s')
  then obtain c where "aesd_device s' = zero_device\<lparr>dev_cdev := c\<rparr>"
    by (auto elim: init_module_device)
  from zero_device_inv(1) [OF this] show ?case by (simp add: dev_inv_def)
next
  case (stepped s s')
  then show ?case by (blast intro: driver_step_mem_inv)
qed

section \<open>Example states\<close>

definition file_example :: file_t where
  "file_example = \<lparr>f_pos = 0, private_data = Aesd_device\<rparr>"

definition state_example :: kstate where
  "state_example =
     \<lparr>kheap = [0 \<mapsto> ''hi'' @ [nl], 1 \<mapsto> ''wor''],
      aesd_device =
        \<lparr>dev_cdev = \<lparr>cdev_owner_set = True, cdev_ops_set = True, cdev_live = True\<rparr>,
         dev_lock = False,
         dev_buffer = \<lparr>entry = \<lparr>buffptr = Some 0, entry_size = 3\<rparr> # replicate 9 zero_entry,
                       in_offs = 1, out_offs = 0, full = False\<rparr>,
         dev_entry = \<lparr>buffptr = Some 1, entry_size = 3\<rparr>\<rparr>,
      aesd_major = 240, aesd_minor = 0, chrdev_regions = {61440}\<rparr>"

lemma ring_list_example: "ring_list (ring_of state_example) = [\<lparr>buffptr = Some 0, entry_size = 3\<rparr>]"
  by (simp add: state_example_def ring_list_def ring_count_def ring_slot_def)

lemma view_example: "view state_example = \<lparr>commands = [''hi'' @ [nl]], pending = ''wor''\<rparr>"
  by (simp add: view_def ring_list_example) (simp add: state_example_def entry_bytes_def block_at_def)

lemma dev_inv_example: "dev_inv state_example"
proof -
  have "ring_inv (ring_of state_example)"
    by (auto simp: state_example_def ring_inv_def nth_Cons split: nat.split)
  then show ?thesis
    by (simp add: dev_inv_def mem_inv_def ring_list_example view_example)
      (simp add: state_example_def live_def in_block_def)
qed


lemma mem_inv_example: "mem_inv state_example"
  using dev_inv_example by (simp add: dev_inv_def)

lemma not_interrupted_reference [simp]: "\<not> interrupted reference_kernel"
  by (simp add: interrupted_def reference_kernel_def)

section \<open>Properties of reading and writing\<close>

lemma dev_inv_intact: "dev_inv s \<Longrightarrow> intact s"
  by (auto simp: dev_inv_def intact_def)

lemma pending_length:
  assumes "dev_inv s"
  shows "of_nat (length (pending (view s))) = entry_size (pending_of s)"
proof (cases "entry_size (pending_of s) = 0")
  case True
  then show ?thesis by (simp add: view_def)
next
  case False
  with assms have "live (kheap s) (pending_of s)"
    using mem_inv_pending(1) by (auto simp: dev_inv_def)
  then show ?thesis by (simp add: view_def length_entry_bytes)
qed

lemma spec_write_newlines:
  "\<forall>c \<in> set (commands v). nl \<in> set c \<Longrightarrow> \<forall>c \<in> set (commands (spec_write v bs)). nl \<in> set c"
  using set_take_last [of 10 "commands v @ [pending v @ bs]"]
  by (auto simp: spec_write_def Let_def push_window_def)

lemma write_effect_dev_inv:
  assumes "dev_inv s" "write_effect s ubuf pos a n s' fp"
  shows "dev_inv s'"
proof -
  have s': "mem_inv s'" "intact s'" "view s' = spec_write (view s) (take (unat n) ubuf)"
    using assms(2) dev_inv_intact [OF assms(1)] by (simp_all add: write_effect_def)
  moreover have "\<forall>c \<in> set (commands (view s')). nl \<in> set c"
    using assms(1) unfolding s'(3) dev_inv_def by (intro spec_write_newlines) blast
  ultimately show ?thesis by (auto simp: dev_inv_def intact_def)
qed

text \<open>
  C1: \<open>aesd_write\<close> implements the abstract device. If taking the mutex is interrupted nothing
  changes; if the allocation fails the error is ENOMEM and no stored command changes; otherwise
  the call accepts \<open>n\<close> bytes, appends them to the pending command and, when that now holds a
  newline, moves it into the window of the last ten commands and advances the file position by
  its length.
\<close>

theorem write_refines_spec:
  assumes "kernel_ok K" "dev_inv s" "private_data f = Aesd_device"
    and "count \<noteq> 0" "unat count < 2 ^ 63"
    and run: "aesd_write K s (Some f) (Some ubuf) count (Some pos) = (s', fp, res)"
  shows "if interrupted K
         then res = Inl (Errno ERESTARTSYS) \<and> s' = s \<and> fp = Some pos
         else if fst (aesd_write_alloc K (kheap s) (pending_of s) count) = None
         then res = Inl (Errno ENOMEM) \<and> fp = Some pos \<and> commands (view s') = commands (view s)
         else (\<exists>n. res = Inr n \<and> n \<le> count \<and> unat n \<le> length ubuf \<and> dev_inv s' \<and>
                 view s' = spec_write (view s) (take (unat n) ubuf) \<and>
                 fp = Some (if nl \<in> set (pending (view s) @ take (unat n) ubuf)
                            then pos + of_nat (length (pending (view s))) + n else pos))"
proof -
  have inv: "mem_inv s" using assms(2) by (simp add: dev_inv_def)
  from assms(1) inv assms(3-5) run show ?thesis
  proof (cases rule: aesd_write_outcome)
    case interrupted
    then show ?thesis by simp
  next
    case no_memory
    then show ?thesis by (simp add: view_def)
  next
    case (accepted n a)
    then show ?thesis
      using write_effect_dev_inv [OF assms(2) accepted(5)] dev_inv_intact [OF assms(2)]
        pending_length [OF assms(2)]
      by (auto simp: write_effect_def split: if_splits)
  qed
qed

lemmas driver_eval = aesd_write_def aesd_write_commit_def aesd_write_alloc_def file_example_def
  state_example_def reference_kernel_def ref_kmalloc_def ref_krealloc_def ref_copy_from_user_def
  ref_copy_to_user_def ref_fresh_def in_block_def block_at_def aesd_circular_buffer_add_entry_def

theorem write_refines_spec_witness:
  "kernel_ok reference_kernel \<and> dev_inv state_example \<and> private_data file_example = Aesd_device \<and>
   (\<exists>s' fp. aesd_write reference_kernel state_example (Some file_example)
              (Some (''ld'' @ [nl])) 3 (Some 0) = (s', fp, Inr 3) \<and>
     dev_inv s' \<and> fp = Some 6 \<and>
     view s' = \<lparr>commands = [''hi'' @ [nl], ''world'' @ [nl]], pending = []\<rparr>)"
proof -
  obtain s' fp res where
    run: "aesd_write reference_kernel state_example (Some file_example)
            (Some (''ld'' @ [nl])) 3 (Some 0) = (s', fp, res)"
    by (metis prod_cases3)
  have "snd (snd (aesd_write reference_kernel state_example (Some file_example)
            (Some (''ld'' @ [nl])) 3 (Some 0))) = Inr 3"
    by (simp add: driver_eval Let_def)
  with run have res: "res = Inr 3" by simp
  have alloc: "fst (aesd_write_alloc reference_kernel (kheap state_example)
      (pending_of state_example) 3) \<noteq> None"
    by (simp add: driver_eval Let_def)
  have f: "private_data file_example = Aesd_device" by (simp add: file_example_def)
  from write_refines_spec [OF reference_kernel_ok dev_inv_example f _ _ run] res alloc
  have "dev_inv s' \<and> view s' = spec_write (view state_example) (''ld'' @ [nl]) \<and> fp = Some 6"
    by (auto simp: view_example)
  with run res f dev_inv_example show ?thesis
    by (auto simp: view_example spec_write_def push_window_def)
qed

text \<open>
  C2: \<open>aesd_read\<close> implements reading of the abstract device and changes nothing in it. The
  bytes delivered are a prefix of the command that holds the file position, from that
  position on and at most \<open>count\<close> of them, all of them when copies to the user's memory are
  complete; the file position advances by their number. Past the end the call returns 0.
\<close>

theorem read_refines_spec:
  assumes "kernel_ok K" "mem_inv s" "private_data f = Aesd_device" "buf \<noteq> None"
    and "aesd_read K s (Some f) buf count (Some pos) = (s', fp, out, res)"
  shows "s' = s \<and>
    (if interrupted K then res = Inl (Errno ERESTARTSYS) \<and> fp = Some pos \<and> out = []
     else (\<exists>n. res = Inr n \<and> fp = Some (pos + n) \<and> length out = unat n \<and> n \<le> count \<and>
          out = take (unat n) (spec_read (commands (view s)) (unat pos) (unat count)) \<and>
          (full_copies K \<longrightarrow> out = spec_read (commands (view s)) (unat pos) (unat count)) \<and>
          (\<exists>rest. drop (unat pos) (concat (commands (view s))) = out @ rest)))"
proof -
  have all: "\<exists>rest. drop (unat pos) (concat (commands (view s)))
      = spec_read (commands (view s)) (unat pos) (unat count) @ rest"
    by (rule spec_read_prefix)
  then have "\<exists>rest. drop (unat pos) (concat (commands (view s)))
      = take n (spec_read (commands (view s)) (unat pos) (unat count)) @ rest" for n
    by (metis append.assoc append_take_drop_id)
  with aesd_read_view [OF assms] spec_read_length [of "commands (view s)" "unat pos" "unat count"]
    all
  show ?thesis by (cases "interrupted K") (auto simp: word_le_nat_alt)
qed

theorem read_refines_spec_witness:
  "kernel_ok reference_kernel \<and> mem_inv state_example \<and> private_data file_example = Aesd_device \<and>
   (\<exists>fp. aesd_read reference_kernel state_example (Some file_example) (Some 9) 10 (Some 1)
           = (state_example, fp, ''i'' @ [nl], Inr 2) \<and> fp = Some 3)"
proof -
  obtain s' fp out res where
    run: "aesd_read reference_kernel state_example (Some file_example) (Some 9) 10 (Some 1)
            = (s', fp, out, res)"
    by (metis prod_cases4)
  have f: "private_data file_example = Aesd_device" by (simp add: file_example_def)
  have "snd (snd (snd (aesd_read reference_kernel state_example (Some file_example) (Some 9) 10
      (Some 1)))) = Inr 2"
    by (simp add: aesd_read_def driver_eval Let_def find_entry_locate ring_list_def ring_count_def
        ring_slot_def)
  with run have res: "res = Inr 2" by simp
  from read_refines_spec [OF reference_kernel_ok mem_inv_example f _ run] res
  have "s' = state_example \<and> fp = Some 3 \<and> out = ''i'' @ [nl]"
    by (auto simp: view_example spec_read_def)
  with run res f mem_inv_example show ?thesis by simp
qed


section \<open>Safety in every reachable state\<close>

definition blank_state :: kstate where
  "blank_state = \<lparr>kheap = Map.empty, aesd_device = zero_device, aesd_major = 0, aesd_minor = 0,
                  chrdev_regions = {}\<rparr>"

definition loaded_state :: kstate where
  "loaded_state = fst (aesd_init_module reference_kernel blank_state)"

lemma loaded_state_init: "aesd_init_module reference_kernel blank_state = (loaded_state, 0)"
  by (simp add: loaded_state_def aesd_init_module_def aesd_setup_cdev_def reference_kernel_def Let_def)

lemma loaded_state_reachable: "driver_reachable loaded_state"
  by (rule driver_reachable.loaded [OF reference_kernel_ok loaded_state_init])

text \<open>
  C10: in every state that module load and any sequence of reads, writes, seeks and control calls
  can reach, under any answers of the kernel that respect its contracts (failed allocations,
  interrupted locks and partial copies included), the ring is well-formed, every stored command
  lies in a live block of its own that is long enough, and the mutex is free.
\<close>

theorem reachable_memory_safe: "driver_reachable s \<Longrightarrow> mem_inv s"
  by (rule driver_reachable_mem_inv)

theorem reachable_memory_safe_witness: "driver_reachable loaded_state \<and> mem_inv loaded_state"
  using loaded_state_reachable reachable_memory_safe [OF loaded_state_reachable] by blast

definition fault :: "'a result \<Rightarrow> bool" where
  "fault res \<longleftrightarrow> (case res of Inl (Errno e) \<Rightarrow> False | Inl err \<Rightarrow> True | Inr v \<Rightarrow> False)"

lemma read_no_fault:
  assumes "kernel_ok K" "mem_inv s" "private_data f = Aesd_device"
  shows "\<not> fault (snd (snd (snd (aesd_read K s (Some f) (Some u) count (Some pos)))))"
proof -
  obtain s' fp out res where
    run: "aesd_read K s (Some f) (Some u) count (Some pos) = (s', fp, out, res)"
    by (metis prod_cases4)
  from aesd_read_view [OF assms _ this] run show ?thesis by (auto simp: fault_def split: if_splits)
qed

lemma write_no_fault:
  assumes "kernel_ok K" "mem_inv s" "private_data f = Aesd_device" "unat count < 2 ^ 63"
  shows "\<not> fault (snd (snd (aesd_write K s (Some f) (Some ubuf) count (Some pos))))"
proof (cases "count = 0")
  case True
  then show ?thesis by (simp add: aesd_write_def fault_def)
next
  case False
  obtain s' fp res where
    run: "aesd_write K s (Some f) (Some ubuf) count (Some pos) = (s', fp, res)"
    by (metis prod_cases3)
  show ?thesis
    by (rule aesd_write_outcome [OF assms(1-3) False assms(4) run]) (auto simp: run fault_def)
qed

lemma ioctl_no_fault:
  assumes "kernel_ok K" "mem_inv s" "private_data f = Aesd_device"
  shows "\<not> fault (snd (snd (aesd_ioctl K s f cmd arg)))"
proof (cases "ioc_type K cmd = AESD_IOC_MAGIC \<and> ioc_nr K cmd \<le> AESDCHAR_IOC_MAXNR \<and>
    fst (copy_struct_from_user K (write_cmd arg, write_cmd_offset arg)) = 0")
  case True
  with aesd_ioctl_outcome [OF assms] show ?thesis by (simp add: fault_def)
next
  case False
  then show ?thesis
    by (auto simp: aesd_ioctl_def fault_def not_le Let_def split: prod.split)
qed

text \<open>
  C4: in a reachable state no file operation follows a NULL pointer, indexes an array out of range
  or touches memory outside a live block, and the loop of \<open>SEEK_END\<close> always ends, whatever value the
  uninitialised \<open>totalLength\<close> had. The operations are called as the file layer of the kernel calls them: on
  an open file of this device, with \<open>filp\<close>, the buffer and \<open>f_pos\<close> not NULL and a count below \<open>2 ^ 63\<close>.
  (For other arguments the code dereferences \<open>filp\<close> and \<open>f_pos\<close> before it compares them with NULL:
  \<open>null_checks_too_late\<close>.) Every access to the array of entries is checked in the model.
\<close>

theorem reachable_no_fault:
  assumes "driver_reachable s" "kernel_ok K" "private_data f = Aesd_device" "unat count < 2 ^ 63"
  shows "\<not> fault (snd (snd (snd (aesd_read K s (Some f) (Some u) n (Some pos))))) \<and>
    \<not> fault (snd (snd (aesd_write K s (Some f) (Some ubuf) count (Some pos)))) \<and>
    \<not> fault (snd (snd (aesd_ioctl K s f cmd arg))) \<and>
    (\<exists>f' res. aesd_llseek K g s f off origin = Some (s, f', res) \<and> \<not> fault res)"
proof -
  note inv = driver_reachable_mem_inv [OF assms(1)]
  have "\<exists>f' res. aesd_llseek K g s f off origin = Some (s, f', res) \<and> \<not> fault res"
    using aesd_llseek_outcome [OF assms(2) inv assms(3)]
    by (auto simp: fault_def split: option.split)
  with read_no_fault [OF assms(2) inv assms(3)] write_no_fault [OF assms(2) inv assms(3,4)]
    ioctl_no_fault [OF assms(2) inv assms(3)]
  show ?thesis by blast
qed

theorem reachable_no_fault_witness:
  "driver_reachable loaded_state \<and>
   \<not> fault (snd (snd (aesd_write reference_kernel loaded_state (Some file_example)
                         (Some (''a'' @ [nl])) 2 (Some 0)))) \<and>
   (\<exists>f' res. aesd_llseek reference_kernel 42 loaded_state file_example 0 SEEK_END
               = Some (loaded_state, f', res) \<and> \<not> fault res)"
  using loaded_state_reachable
    reachable_no_fault [OF loaded_state_reachable reference_kernel_ok, of file_example 2]
  by (simp add: file_example_def)

end
