(* ===== verification/Driver_Seek.thy ===== *)
theory Driver_Seek
  imports Driver_Props
begin

text \<open>
  Properties of the two ways to move a file position: \<open>llseek\<close>, whose \<open>SEEK_END\<close> starts from an
  uninitialised total, and \<open>ioctl\<close>, which counts slots of the array instead of stored commands.
\<close>

section \<open>Seeking\<close>

text \<open>
  C24: a seek on an open file always returns. A successful one leaves the device alone, returns
  the requested position as its result, stores it in the file and that position is never
  negative; a failed one is ERESTARTSYS or EINVAL and leaves the file alone.
\<close>

theorem llseek_total:
  assumes "kernel_ok K" "mem_inv s" "private_data f = Aesd_device"
  shows "\<exists>f' res. aesd_llseek K g s f off origin = Some (s, f', res) \<and>
    (case res of
       Inr r \<Rightarrow> f' = f\<lparr>f_pos := r\<rparr> \<and> 0 \<le> sint r \<and> seek_target g s f off origin = Some r
     | Inl e \<Rightarrow> f' = f \<and> (e = Errno ERESTARTSYS \<or> e = Errno EINVAL))"
  using aesd_llseek_outcome [OF assms, of g off origin]
  by (auto split: option.split if_splits)

theorem llseek_total_witness:
  "kernel_ok reference_kernel \<and> mem_inv state_example \<and> private_data file_example = Aesd_device \<and>
   (\<exists>f' res. aesd_llseek reference_kernel 0 state_example file_example 2 SEEK_SET
               = Some (state_example, f', res) \<and>
     (case res of
       Inr r \<Rightarrow> f' = file_example\<lparr>f_pos := r\<rparr> \<and> 0 \<le> sint r \<and>
                seek_target 0 state_example file_example 2 SEEK_SET = Some r
     | Inl e \<Rightarrow> f' = file_example \<and> (e = Errno ERESTARTSYS \<or> e = Errno EINVAL)))"
  using mem_inv_example llseek_total [OF reference_kernel_ok mem_inv_example, of file_example]
  by (simp add: file_example_def)

text \<open>
  C37: \<open>SEEK_END\<close> reaches the end of the stored commands exactly when the uninitialised local
  variable \<open>totalLength\<close> happens to be 0: with any other value \<open>g\<close> the computed position is off
  by \<open>g\<close>.
\<close>

theorem llseek_end_uninitialised:
  assumes "kernel_ok K" "mem_inv s" "private_data f = Aesd_device" "\<not> interrupted K"
    and "length (concat (commands (view s))) < 2 ^ 63"
  shows "aesd_llseek K g s f off SEEK_END =
      (let r = g + of_nat (length (concat (commands (view s)))) + off
       in if sint r < 0 then Some (s, f, Inl (Errno EINVAL))
          else Some (s, f\<lparr>f_pos := r\<rparr>, Inr r)) \<and>
    (aesd_llseek K g s f 0 SEEK_END =
       Some (s, f\<lparr>f_pos := of_nat (length (concat (commands (view s))))\<rparr>,
             Inr (of_nat (length (concat (commands (view s)))))) \<longleftrightarrow> g = 0)"
proof -
  define L :: u64 where "L = of_nat (length (concat (commands (view s))))"
  have tot: "total_size (ring_of s) = L" using assms(2) by (simp add: L_def total_size_bytes)
  have "unat L < 2 ^ 63" using assms(5) unfolding L_def by (subst unat_u64_of_nat) simp_all
  then have "\<not> sint L < 0" using sint_eq_unat [of L] by simp
  then show ?thesis
    using assms(4) aesd_llseek_outcome [OF assms(1-3)] unfolding L_def [symmetric]
    by (auto simp: seek_target_def tot Let_def split: if_splits)
qed

theorem llseek_end_uninitialised_witness:
  "kernel_ok reference_kernel \<and> mem_inv state_example \<and>
   aesd_llseek reference_kernel 0 state_example file_example 0 SEEK_END =
     Some (state_example, file_example\<lparr>f_pos := 3\<rparr>, Inr 3) \<and>
   aesd_llseek reference_kernel 5 state_example file_example 0 SEEK_END =
     Some (state_example, file_example\<lparr>f_pos := 8\<rparr>, Inr 8)"
proof -
  have f: "private_data file_example = Aesd_device" by (simp add: file_example_def)
  have len: "length (concat (commands (view state_example))) = 3" by (simp add: view_example)
  have "sint (8 :: u64) = 8" by simp
  with llseek_end_uninitialised [OF reference_kernel_ok mem_inv_example f, of 0 0]
    llseek_end_uninitialised [OF reference_kernel_ok mem_inv_example f, of 5 0]
  show ?thesis using mem_inv_example by (simp add: len Let_def)
qed

section \<open>Control calls\<close>

lemma slot_entry:
  assumes "ring_inv b" "out_offs b = 0" "k < 10"
  shows "entry b ! k = (if k < ring_count b then ring_list b ! k else zero_entry)"
  using assms by (auto simp: ring_inv_def ring_count_def ring_slot_def split: if_splits)

lemma slot_offset_aligned:
  assumes "ring_inv b" "out_offs b = 0" "n \<le> ring_count b"
  shows "slot_offset b n = of_nat (sum_list (take n (ring_sizes b)))"
proof -
  have "map (\<lambda>k. entry_size (entry b ! k)) [0..<n] = map entry_size (take n (ring_list b))"
  proof (rule nth_equalityI)
    show "length (map (\<lambda>k. entry_size (entry b ! k)) [0..<n])
        = length (map entry_size (take n (ring_list b)))"
      using assms(3) by simp
    fix i assume "i < length (map (\<lambda>k. entry_size (entry b ! k)) [0..<n])"
    then have "i < ring_count b" "i < n" using assms(3) by simp_all
    with slot_entry [OF assms(1,2), of i] ring_count_le [OF assms(1)]
    show "map (\<lambda>k. entry_size (entry b ! k)) [0..<n] ! i
        = map entry_size (take n (ring_list b)) ! i"
      by simp
  qed
  then show ?thesis by (simp add: slot_offset_def take_map of_nat_sum_unat)
qed

text \<open>The guard of the control call, in terms of the stored commands.\<close>

lemma slot_guard:
  assumes "mem_inv s" "out_offs (ring_of s) = 0"
  shows "i < 10 \<and> j < unat (entry_size (entry (ring_of s) ! i)) \<longleftrightarrow>
    i < length (commands (view s)) \<and> j < length (commands (view s) ! i)"
proof -
  let ?b = "ring_of s" and ?cmds = "commands (view s)"
  note ring = mem_inv_ring [OF assms(1)] and sizes = commands_lengths [OF assms(1)]
  have len: "length ?cmds = ring_count ?b" by (simp add: view_def)
  show ?thesis
  proof (cases "i < ring_count ?b")
    case True
    then have "map length ?cmds ! i = unat (entry_size (entry ?b ! i))"
      using slot_entry [OF ring assms(2), of i] ring_count_le [OF ring] by (simp add: sizes)
    with True show ?thesis using ring_count_le [OF ring] by (simp add: len)
  next
    case False
    then show ?thesis using slot_entry [OF ring assms(2), of i] by (auto simp: len zero_entry_def)
  qed
qed

lemma seekto_number:
  assumes "kernel_ok K"
  shows "ioc_type K (AESDCHAR_IOCSEEKTO K) = AESD_IOC_MAGIC"
    and "ioc_nr K (AESDCHAR_IOCSEEKTO K) \<le> AESDCHAR_IOC_MAXNR"
  using assms by (simp_all add: kernel_ok_def ioc_ok_def AESDCHAR_IOCSEEKTO_def AESD_IOC_MAGIC_def
      AESDCHAR_IOC_MAXNR_def)

lemma ioctl_aligned:
  assumes K: "kernel_ok K" "\<not> interrupted K" and inv: "mem_inv s" and f: "private_data f = Aesd_device"
    and copied: "fst (copy_struct_from_user K (write_cmd arg, write_cmd_offset arg)) = 0"
    and out: "out_offs (ring_of s) = 0"
    and size: "length (concat (commands (view s))) < 2 ^ 64"
    and i: "i = unat (write_cmd arg)" "i < length (commands (view s))"
    and j: "j = unat (write_cmd_offset arg)" "j < length (commands (view s) ! i)"
  shows "\<exists>f'. aesd_ioctl K s f (AESDCHAR_IOCSEEKTO K) arg = (s, f', Inr 0) \<and>
    unat (f_pos f') = length (concat (take i (commands (view s)))) + j \<and> private_data f' = Aesd_device"
proof -
  define cmds pos where "cmds = commands (view s)" and "pos = length (concat (take i cmds)) + j"
  have sizes: "map length cmds = ring_sizes (ring_of s)"
    unfolding cmds_def by (rule commands_lengths [OF inv])
  have "locate (map length cmds) pos = Some (i, j)"
    using i j locate_SomeI [of i "map length cmds" j] by (simp add: cmds_def pos_def length_concat_take)
  then have "pos < length (concat cmds)"
    using locate_None_iff [of "map length cmds" pos] by (simp add: length_concat)
  then have "unat (of_nat pos :: u64) = pos" using size by (simp add: cmds_def)
  moreover have "slot_offset (ring_of s) i + ucast (write_cmd_offset arg) = of_nat pos"
    using slot_offset_aligned [OF mem_inv_ring [OF inv] out, of i] i(2)
    by (simp add: view_def pos_def length_concat_take sizes j(1))
  ultimately show ?thesis
    using aesd_ioctl_outcome [OF K(1) inv f seekto_number [OF K(1)] copied] K(2) f i j
      slot_guard [OF inv out, of i j]
    by (simp add: pos_def cmds_def)
qed

text \<open>
  C25: while the oldest command is in slot 0 (in particular until the ring has wrapped), the
  control call \<open>AESDCHAR_IOCSEEKTO\<close> is exact: it accepts a command index and an offset precisely
  when that command exists and the offset lies inside it, and then the file position is the one
  at which a read returns the rest of that command; otherwise it is EINVAL and nothing moves.
\<close>

theorem ioctl_seek_exact:
  assumes K: "kernel_ok K" and inv: "mem_inv s" and f: "private_data f = Aesd_device"
    and "\<not> interrupted K"
    and "fst (copy_struct_from_user K (write_cmd arg, write_cmd_offset arg)) = 0"
    and out: "out_offs (ring_of s) = 0"
    and size: "length (concat (commands (view s))) < 2 ^ 64"
  shows "let cmds = commands (view s); i = unat (write_cmd arg); j = unat (write_cmd_offset arg) in
    if i < length cmds \<and> j < length (cmds ! i)
    then (\<exists>f'. aesd_ioctl K s f (AESDCHAR_IOCSEEKTO K) arg = (s, f', Inr 0) \<and>
            unat (f_pos f') = length (concat (take i cmds)) + j \<and>
            private_data f' = Aesd_device \<and>
            spec_read cmds (unat (f_pos f')) n = take n (drop j (cmds ! i)))
    else aesd_ioctl K s f (AESDCHAR_IOCSEEKTO K) arg = (s, f, Inl (Errno EINVAL))"
proof (cases "unat (write_cmd arg) < length (commands (view s)) \<and>
    unat (write_cmd_offset arg) < length (commands (view s) ! unat (write_cmd arg))")
  case True
  let ?i = "unat (write_cmd arg)" and ?j = "unat (write_cmd_offset arg)" and ?cmds = "commands (view s)"
  have "locate (map length ?cmds) (length (concat (take ?i ?cmds)) + ?j) = Some (?i, ?j)"
    using True locate_SomeI [of ?i "map length ?cmds" ?j] by (simp add: length_concat_take)
  with True ioctl_aligned [OF K assms(4) inv f assms(5) out size refl _ refl] show ?thesis
    by (auto simp: Let_def spec_read_def)
next
  case False
  with aesd_ioctl_outcome [OF K inv f seekto_number [OF K] assms(5)] assms(4)
    slot_guard [OF inv out, of "unat (write_cmd arg)" "unat (write_cmd_offset arg)"]
  show ?thesis by (auto simp: Let_def)
qed

theorem ioctl_seek_exact_witness:
  "kernel_ok reference_kernel \<and> mem_inv state_example \<and>
   (\<exists>f'. aesd_ioctl reference_kernel state_example file_example
            (AESDCHAR_IOCSEEKTO reference_kernel) \<lparr>write_cmd = 0, write_cmd_offset = 1\<rparr>
          = (state_example, f', Inr 0) \<and>
         unat (f_pos f') = 1 \<and> spec_read [''hi'' @ [nl]] 1 10 = ''i'' @ [nl])"
proof -
  have f: "private_data file_example = Aesd_device" by (simp add: file_example_def)
  have o: "out_offs (ring_of state_example) = 0" by (simp add: state_example_def)
  have c: "fst (copy_struct_from_user reference_kernel (0, 1)) = 0"
    by (simp add: reference_kernel_def)
  show ?thesis
    using mem_inv_example c
      ioctl_seek_exact [OF reference_kernel_ok mem_inv_example f not_interrupted_reference _ o,
        of "\<lparr>write_cmd = 0, write_cmd_offset = 1\<rparr>" 10]
    by (auto simp: view_example Let_def)
qed

text \<open>
  A full ring whose oldest command is in slot 1: slot 0 was overwritten by a longer, newer
  command.
\<close>

definition rotated_state :: kstate where
  "rotated_state =
     state_example\<lparr>
       kheap := (\<lambda>a. if a = 0 then Some (''new'' @ [nl])
                     else if a = 2 then Some (''b'' @ [nl])
                     else if a < 10 then Some (''a'' @ [nl]) else None),
       aesd_device := (aesd_device state_example)\<lparr>
         dev_buffer := \<lparr>entry = \<lparr>buffptr = Some 0, entry_size = 4\<rparr>
                                 # map (\<lambda>a. \<lparr>buffptr = Some a, entry_size = 2\<rparr>)
                                       [1, 2, 3, 4, 5, 6, 7, 8, 9],
                        in_offs = 1, out_offs = 1, full = True\<rparr>,
         dev_entry := zero_entry\<rparr>\<rparr>"

lemma ring_list_rotated:
  "ring_list (ring_of rotated_state) =
     map (\<lambda>a. \<lparr>buffptr = Some a, entry_size = 2\<rparr>) [1, 2, 3, 4, 5, 6, 7, 8, 9]
     @ [\<lparr>buffptr = Some 0, entry_size = 4\<rparr>]"
  by (simp add: rotated_state_def ring_list_def ring_count_def ring_slot_def upt_rec)

lemma commands_rotated:
  "commands (view rotated_state) =
     [''a'' @ [nl], ''b'' @ [nl], ''a'' @ [nl], ''a'' @ [nl], ''a'' @ [nl], ''a'' @ [nl],
      ''a'' @ [nl], ''a'' @ [nl], ''a'' @ [nl], ''new'' @ [nl]]"
  by (simp add: view_def ring_list_rotated)
    (simp add: rotated_state_def entry_bytes_def block_at_def)

lemma dev_inv_rotated: "dev_inv rotated_state"
proof -
  have "ring_inv (ring_of rotated_state)" by (simp add: rotated_state_def ring_inv_def)
  moreover have "\<forall>e \<in> set (ring_list (ring_of rotated_state)). live (kheap rotated_state) e"
    unfolding ring_list_rotated by (simp add: rotated_state_def live_def in_block_def)
  moreover have "distinct (map buffptr (ring_list (ring_of rotated_state)))"
    unfolding ring_list_rotated by simp
  ultimately show ?thesis
    by (simp add: dev_inv_def mem_inv_def commands_rotated)
      (simp add: rotated_state_def state_example_def zero_entry_def)
qed

text \<open>The array of a full ring is the list of its commands, rotated by the slot of the oldest one.\<close>

lemma full_ring_array:
  assumes inv: "mem_inv s" and full: "full (ring_of s)"
  shows "map length (rotate (10 - unat (out_offs (ring_of s))) (commands (view s))) =
    map (\<lambda>e. unat (entry_size e)) (entry (ring_of s))"
proof -
  let ?b = "ring_of s" and ?r = "unat (out_offs (ring_of s))"
  have b: "length (entry ?b) = 10" "?r < 10" using mem_inv_ring [OF inv] by (simp_all add: ring_inv_def)
  have "rotate (10 - ?r) (ring_list ?b) = rotate (10 - ?r + ?r) (entry ?b)"
    unfolding full_ring_rotate [OF mem_inv_ring [OF inv] full] rotate_rotate by simp
  also have "\<dots> = entry ?b" using b by simp
  finally have "map (\<lambda>e. unat (entry_size e)) (rotate (10 - ?r) (ring_list ?b)) =
      map (\<lambda>e. unat (entry_size e)) (entry ?b)" by simp
  then show ?thesis by (simp add: commands_lengths [OF inv] rotate_map [symmetric])
qed

lemma length_concat_rotate: "length (concat (rotate n xss)) = length (concat xss)"
  by (metis add.commute append_take_drop_id concat_append length_append rotate_drop_take)

lemma slot_offset_array:
  assumes "length (entry b) = 10" "i \<le> 10"
  shows "slot_offset b i = of_nat (sum_list (take i (map (\<lambda>e. unat (entry_size e)) (entry b))))"
proof -
  have "map (\<lambda>k. entry_size (entry b ! k)) [0..<i] = map entry_size (take i (entry b))"
    using assms by (intro nth_equalityI) simp_all
  then show ?thesis by (simp add: slot_offset_def take_map of_nat_sum_unat)
qed

text \<open>
  C38: once the ring has wrapped, \<open>AESDCHAR_IOCSEEKTO\<close> counts the commands in the order of the array
  and not, as it is documented and as reads see them, in the order of their age. With the oldest
  command in slot \<open>r\<close>, the array holds the stored commands rotated by \<open>10 - r\<close>: the call
  accepts an index and an offset exactly when the offset lies inside the command with this index in
  the rotated list, and the position it sets is the one of that byte in the concatenation of the
  rotated list. It is right exactly when the commands in the slots before the index are together
  as long as the oldest ones.
\<close>

theorem ioctl_seek_wrapped:
  assumes K: "kernel_ok K" and inv: "mem_inv s" and f: "private_data f = Aesd_device"
    and "\<not> interrupted K"
    and "fst (copy_struct_from_user K (write_cmd arg, write_cmd_offset arg)) = 0"
    and full: "full (ring_of s)" and r: "r = unat (out_offs (ring_of s))"
    and size: "length (concat (commands (view s))) < 2 ^ 64"
  shows "let cmds = commands (view s); slots = rotate (10 - r) cmds;
      i = unat (write_cmd arg); j = unat (write_cmd_offset arg) in
    if i < 10 \<and> j < length (slots ! i)
    then (\<exists>f'. aesd_ioctl K s f (AESDCHAR_IOCSEEKTO K) arg = (s, f', Inr 0) \<and>
            unat (f_pos f') = length (concat (take i slots)) + j \<and>
            (unat (f_pos f') = length (concat (take i cmds)) + j \<longleftrightarrow>
             length (concat (take i slots)) = length (concat (take i cmds))))
    else aesd_ioctl K s f (AESDCHAR_IOCSEEKTO K) arg = (s, f, Inl (Errno EINVAL))"
proof -
  define cmds slots i j where "cmds = commands (view s)" and "slots = rotate (10 - r) cmds"
    and "i = unat (write_cmd arg)" and "j = unat (write_cmd_offset arg)"
  let ?b = "ring_of s"
  have b: "length (entry ?b) = 10" using mem_inv_ring [OF inv] by (simp add: ring_inv_def)
  have sizes: "map length slots = map (\<lambda>e. unat (entry_size e)) (entry ?b)"
    unfolding slots_def cmds_def r by (rule full_ring_array [OF inv full])
  then have len: "length slots = 10" using b by (metis length_map)
  have guard: "unat (entry_size (entry ?b ! i)) = length (slots ! i)" if "i < 10"
    using arg_cong [OF sizes, of "\<lambda>xs. xs ! i"] that b len by simp
  note out = aesd_ioctl_outcome [OF K inv f seekto_number [OF K] assms(5), folded i_def j_def]
  have same: "length (concat slots) = length (concat cmds)"
    unfolding slots_def by (rule length_concat_rotate)
  show ?thesis unfolding cmds_def [symmetric] slots_def [symmetric] i_def [symmetric] j_def [symmetric] Let_def
  proof (cases "i < 10 \<and> j < length (slots ! i)")
    case True
    define pos where "pos = length (concat (take i slots)) + j"
    have "locate (map length slots) pos = Some (i, j)"
      using True len locate_SomeI [of i "map length slots" j] by (simp add: pos_def length_concat_take)
    then have "pos < length (concat slots)"
      using locate_None_iff [of "map length slots" pos] by (simp add: length_concat)
    then have "unat (of_nat pos :: u64) = pos" using size same by (simp add: cmds_def)
    moreover have "slot_offset ?b i + ucast (write_cmd_offset arg) = of_nat pos"
      using slot_offset_array [OF b, of i] True
      by (simp add: pos_def length_concat_take sizes j_def)
    ultimately show "if i < 10 \<and> j < length (slots ! i)
      then (\<exists>f'. aesd_ioctl K s f (AESDCHAR_IOCSEEKTO K) arg = (s, f', Inr 0) \<and>
            unat (f_pos f') = length (concat (take i slots)) + j \<and>
            (unat (f_pos f') = length (concat (take i cmds)) + j \<longleftrightarrow>
             length (concat (take i slots)) = length (concat (take i cmds))))
      else aesd_ioctl K s f (AESDCHAR_IOCSEEKTO K) arg = (s, f, Inl (Errno EINVAL))"
      using out assms(4) True guard by (simp add: pos_def)
  next
    case False
    then show "if i < 10 \<and> j < length (slots ! i)
      then (\<exists>f'. aesd_ioctl K s f (AESDCHAR_IOCSEEKTO K) arg = (s, f', Inr 0) \<and>
            unat (f_pos f') = length (concat (take i slots)) + j \<and>
            (unat (f_pos f') = length (concat (take i cmds)) + j \<longleftrightarrow>
             length (concat (take i slots)) = length (concat (take i cmds))))
      else aesd_ioctl K s f (AESDCHAR_IOCSEEKTO K) arg = (s, f, Inl (Errno EINVAL))"
      using out assms(4) guard by auto
  qed
qed

text \<open>
  In the example the first byte of command 1 (\<open>b\<close>) is asked for; the call succeeds with a position two
  bytes too far, at which a read returns command 2 (\<open>a\<close>).
\<close>

theorem ioctl_seek_wrapped_witness:
  "dev_inv rotated_state \<and> commands (view rotated_state) ! 1 = ''b'' @ [nl] \<and>
   (\<exists>f'. aesd_ioctl reference_kernel rotated_state file_example
            (AESDCHAR_IOCSEEKTO reference_kernel) \<lparr>write_cmd = 1, write_cmd_offset = 0\<rparr>
          = (rotated_state, f', Inr 0) \<and>
         unat (f_pos f') \<noteq> length (concat (take 1 (commands (view rotated_state)))) \<and>
         spec_read (commands (view rotated_state)) (unat (f_pos f')) 2 = ''a'' @ [nl])"
proof -
  let ?arg = "\<lparr>write_cmd = 1, write_cmd_offset = 0\<rparr>"
  have inv: "mem_inv rotated_state" using dev_inv_rotated by (simp add: dev_inv_def)
  have f: "private_data file_example = Aesd_device" by (simp add: file_example_def)
  have c: "fst (copy_struct_from_user reference_kernel (write_cmd ?arg, write_cmd_offset ?arg)) = 0"
    by (simp add: reference_kernel_def)
  have ring: "full (ring_of rotated_state)" "1 = unat (out_offs (ring_of rotated_state))"
    by (simp_all add: rotated_state_def)
  have "rotate 9 (commands (view rotated_state)) =
      [''new'' @ [nl], ''a'' @ [nl], ''b'' @ [nl], ''a'' @ [nl], ''a'' @ [nl], ''a'' @ [nl], ''a'' @ [nl],
       ''a'' @ [nl], ''a'' @ [nl], ''a'' @ [nl]]"
    by (simp add: commands_rotated eval_nat_numeral)
  moreover have "length (concat (commands (view rotated_state))) < 2 ^ 64" by (simp add: commands_rotated)
  ultimately obtain f' where "aesd_ioctl reference_kernel rotated_state file_example
      (AESDCHAR_IOCSEEKTO reference_kernel) ?arg = (rotated_state, f', Inr 0)" "unat (f_pos f') = 4"
    using ioctl_seek_wrapped [OF reference_kernel_ok inv f not_interrupted_reference c ring]
    by (auto simp: Let_def)
  then show ?thesis using dev_inv_rotated by (simp add: commands_rotated spec_read_def)
qed

text \<open>
  a control call with a foreign command number, or whose argument cannot be read from user
  memory, changes neither the device nor the file: ENOTTY and EFAULT. Command numbers of this
  driver's type are accepted up to \<open>AESDCHAR_IOC_MAXNR\<close>, number 0 included.
\<close>

lemma ioctl_rejects:
  assumes "ioc_type K cmd \<noteq> AESD_IOC_MAGIC \<or> ioc_nr K cmd > AESDCHAR_IOC_MAXNR \<or>
           fst (copy_struct_from_user K (write_cmd arg, write_cmd_offset arg)) \<noteq> 0"
  shows "aesd_ioctl K s f cmd arg =
    (s, f, Inl (Errno (if ioc_type K cmd = AESD_IOC_MAGIC \<and> ioc_nr K cmd \<le> AESDCHAR_IOC_MAXNR
                       then EFAULT else ENOTTY)))"
  using assms by (auto simp: aesd_ioctl_def Let_def not_less split: prod.split)

lemma ioctl_rejects_witness:
  "aesd_ioctl reference_kernel state_example file_example 0x1702 \<lparr>write_cmd = 0, write_cmd_offset = 0\<rparr>
     = (state_example, file_example, Inl (Errno ENOTTY))"
proof -
  have "ioc_type reference_kernel 0x1702 \<noteq> AESD_IOC_MAGIC"
    by (simp add: reference_kernel_def AESD_IOC_MAGIC_def)
  with ioctl_rejects [of reference_kernel "0x1702" "\<lparr>write_cmd = 0, write_cmd_offset = 0\<rparr>"]
  show ?thesis by simp
qed

end
