(* ===== verification/Driver_Module.thy ===== *)
theory Driver_Module
  imports Driver_Seek
begin

text \<open>
  Properties of the memory the driver manages over its life: what module load sets up, which
  blocks a write gives up without freeing them, what a failed reallocation leaves behind, and what
  module exit frees.
\<close>

section \<open>Module load and exit\<close>

text \<open>
  module load either succeeds, and then the device is empty, idle and well-formed and its
  device number region is registered, or it fails, and then no region stays registered and no
  memory was taken.
\<close>

lemma init_module_outcome:
  assumes "aesd_init_module K s = (s', err)"
    and "snd (alloc_chrdev_region K (aesd_minor s) 1) \<notin> chrdev_regions s"
  shows "kheap s' = kheap s \<and>
    (if err = 0
     then dev_inv s' \<and> view s' = \<lparr>commands = [], pending = []\<rparr> \<and>
          cdev_live (dev_cdev (aesd_device s')) \<and>
          chrdev_regions s' = insert (snd (alloc_chrdev_region K (aesd_minor s) 1)) (chrdev_regions s)
     else chrdev_regions s' = chrdev_regions s)"
proof (cases "err = 0")
  case True
  with assms(1) obtain c where
    c: "aesd_device s' = zero_device\<lparr>dev_cdev := c\<rparr>" "cdev_live c" "kheap s' = kheap s"
      "chrdev_regions s' = insert (snd (alloc_chrdev_region K (aesd_minor s) 1)) (chrdev_regions s)"
    by (auto elim: init_module_device)
  with zero_device_inv [OF c(1)] True show ?thesis by simp
next
  case False
  with init_module_failed [OF assms(1) _ assms(2)] show ?thesis by simp
qed

lemma init_module_outcome_witness:
  "\<exists>s'. aesd_init_module reference_kernel blank_state = (s', 0) \<and> dev_inv s' \<and>
        chrdev_regions s' = {61440} \<and>
   (\<exists>s'' K. K = reference_kernel\<lparr>cdev_add := \<lambda>devno count. -12\<rparr> \<and>
        aesd_init_module K blank_state = (s'', -12) \<and> chrdev_regions s'' = {})"
proof -
  let ?K = "reference_kernel\<lparr>cdev_add := \<lambda>devno count. -12\<rparr>"
  have new: "snd (alloc_chrdev_region reference_kernel (aesd_minor blank_state) 1) \<notin> chrdev_regions blank_state"
    "snd (alloc_chrdev_region ?K (aesd_minor blank_state) 1) \<notin> chrdev_regions blank_state"
    by (simp_all add: blank_state_def)
  have err: "snd (aesd_init_module ?K blank_state) = -12"
    by (simp add: aesd_init_module_def aesd_setup_cdev_def reference_kernel_def Let_def)
  obtain s'' where s'': "aesd_init_module ?K blank_state = (s'', -12)"
    using err by (cases "aesd_init_module ?K blank_state") simp
  have "snd (alloc_chrdev_region reference_kernel (aesd_minor blank_state) 1) = 61440"
    "chrdev_regions blank_state = {}"
    by (simp_all add: reference_kernel_def blank_state_def)
  with init_module_outcome [OF loaded_state_init new(1)] init_module_outcome [OF s'' new(2)]
    loaded_state_init s''
  show ?thesis by auto
qed

text \<open>
  module exit frees the block of every stored command, each exactly once, and no other block:
  the block of a pending command and blocks the driver lost track of stay allocated.
\<close>

lemma cleanup_frees_stored_commands:
  assumes "kernel_ok K" "mem_inv s"
  shows "kheap (aesd_cleanup_module K s) r =
      (if Some r \<in> buffptr ` set (ring_list (ring_of s)) then None else kheap s r) \<and>
    \<not> cdev_live (dev_cdev (aesd_device (aesd_cleanup_module K s))) \<and>
    chrdev_regions (aesd_cleanup_module K s)
      = chrdev_regions s - {mkdev K (aesd_major s) (aesd_minor s)}"
proof -
  have "\<not> cdev_live (dev_cdev (aesd_device (aesd_cleanup_module K s)))"
    "chrdev_regions (aesd_cleanup_module K s)
      = chrdev_regions s - {mkdev K (aesd_major s) (aesd_minor s)}"
    by (simp_all add: aesd_cleanup_module_def Let_def)
  then show ?thesis by (simp add: cleanup_heap [OF assms])
qed

lemma cleanup_frees_stored_commands_witness:
  "kernel_ok reference_kernel \<and> mem_inv state_example \<and>
   kheap (aesd_cleanup_module reference_kernel state_example) 0 = None \<and>
   kheap (aesd_cleanup_module reference_kernel state_example) 1 = Some ''wor'' \<and>
   chrdev_regions (aesd_cleanup_module reference_kernel state_example) = {}"
proof -
  have "kheap state_example 1 = Some ''wor''"
    "chrdev_regions state_example
       - {mkdev reference_kernel (aesd_major state_example) (aesd_minor state_example)} = {}"
    by (simp_all add: state_example_def reference_kernel_def)
  with cleanup_frees_stored_commands [OF reference_kernel_ok mem_inv_example, of 0]
    cleanup_frees_stored_commands [OF reference_kernel_ok mem_inv_example, of 1]
    mem_inv_example
  show ?thesis by (simp add: ring_list_example)
qed

section \<open>Blocks that are lost\<close>

text \<open>
  every write that completes a command while ten are stored loses a block. The block of
  the command that falls out of the window stays allocated, and neither the ring nor the
  pending command refers to it any more: the code passes the returned pointer to \<open>kfree\<close> only
  when it is NULL.
\<close>

lemma evicted_block_leaks:
  assumes "kernel_ok K" and inv: "dev_inv s" and "private_data f = Aesd_device"
    and "count \<noteq> 0" "unat count < 2 ^ 63"
    and run: "aesd_write K s (Some f) (Some ubuf) count (Some pos) = (s', fp, Inr n)"
    and complete: "nl \<in> set (pending (view s) @ take (unat n) ubuf)"
    and ten: "length (commands (view s)) = 10"
  shows "\<exists>r. buffptr (hd (ring_list (ring_of s))) = Some r \<and>
    kheap s' r = kheap s r \<and> kheap s r \<noteq> None \<and>
    Some r \<notin> buffptr ` set (ring_list (ring_of s')) \<and> buffptr (pending_of s') \<noteq> Some r"
proof -
  have minv: "mem_inv s" using inv by (simp add: dev_inv_def)
  obtain a where eff: "write_effect s ubuf pos a n s' fp"
    by (rule aesd_write_outcome [OF assms(1) minv assms(3-5) run]) auto
  have zero: "pending_of s' = zero_entry"
    using eff complete dev_inv_intact [OF inv] by (simp add: write_effect_def)
  obtain e es where list: "ring_list (ring_of s) = e # es" "length es = 9"
    using ten by (cases "ring_list (ring_of s)") (auto simp: view_def)
  with mem_inv_live [OF minv, of e] obtain r where r: "buffptr e = Some r" "kheap s r \<noteq> None"
    by (auto elim: liveE)
  have "map buffptr (ring_list (ring_of s')) = map buffptr es @ [Some a]"
    using eff zero list by (simp add: write_effect_def push_window_full)
  then have "buffptr ` set (ring_list (ring_of s')) = insert (Some a) (buffptr ` set es)"
    by (metis Un_insert_right boolean_algebra.disj_zero_right image_set list.simps(15)
        set_append set_empty)
  moreover have "Some r \<noteq> Some a" "Some r \<notin> buffptr ` set es" "kheap s' r = kheap s r"
    using eff minv list r(1) by (auto simp: write_effect_def mem_inv_def image_iff)
  ultimately show ?thesis using r list zero by (auto simp: zero_entry_def)
qed


lemma evicted_block_leaks_witness:
  "dev_inv rotated_state \<and>
   (\<exists>s' fp. aesd_write reference_kernel rotated_state (Some file_example) (Some [nl]) 1 (Some 0)
              = (s', fp, Inr 1) \<and>
      kheap s' 1 = Some (''a'' @ [nl]) \<and>
      Some 1 \<notin> buffptr ` set (ring_list (ring_of s')) \<and> buffptr (pending_of s') \<noteq> Some 1)"
proof -
  obtain s' fp res where
    run: "aesd_write reference_kernel rotated_state (Some file_example) (Some [nl]) 1 (Some 0)
            = (s', fp, res)"
    by (metis prod_cases3)
  have "snd (snd (aesd_write reference_kernel rotated_state (Some file_example) (Some [nl]) 1
      (Some 0))) = Inr 1"
    by (simp add: rotated_state_def zero_entry_def driver_eval Let_def upt_rec)
  with run have res: "res = Inr 1" by simp
  have f: "private_data file_example = Aesd_device" by (simp add: file_example_def)
  have ten: "length (commands (view rotated_state)) = 10" by (simp add: commands_rotated)
  have "buffptr (hd (ring_list (ring_of rotated_state))) = Some 1" by (simp add: ring_list_rotated)
  moreover have "kheap rotated_state 1 = Some (''a'' @ [nl])" by (simp add: rotated_state_def)
  ultimately show ?thesis
    using dev_inv_rotated run res
      evicted_block_leaks [OF reference_kernel_ok dev_inv_rotated f _ _ run [unfolded res] _ ten]
    by auto
qed

text \<open>
  when a pending command cannot be extended because \<open>krealloc\<close> fails, the write reports
  ENOMEM, forgets the pointer but keeps the size: the pending bytes are lost, their block
  stays allocated without an owner, and the next write will extend a command of which the first
  bytes no longer exist.
\<close>

lemma failed_extension_tears_pending:
  assumes "kernel_ok K" and inv: "dev_inv s" and "private_data f = Aesd_device"
    and "count \<noteq> 0" "unat count < 2 ^ 63" "\<not> interrupted K"
    and "pending (view s) \<noteq> []"
    and fail: "fst (aesd_write_alloc K (kheap s) (pending_of s) count) = None"
    and run: "aesd_write K s (Some f) (Some ubuf) count (Some pos) = (s', fp, res)"
  shows "res = Inl (Errno ENOMEM) \<and> \<not> intact s' \<and>
    entry_size (pending_of s') = entry_size (pending_of s) \<and>
    (\<exists>r. buffptr (pending_of s) = Some r \<and> kheap s' r = kheap s r \<and> kheap s r \<noteq> None \<and>
         Some r \<notin> buffptr ` set (ring_list (ring_of s')) \<and> buffptr (pending_of s') \<noteq> Some r)"
proof -
  have minv: "mem_inv s" using inv by (simp add: dev_inv_def)
  have size: "entry_size (pending_of s) \<noteq> 0" using assms(7) by (auto simp: view_def)
  then have ptr: "buffptr (pending_of s) \<noteq> None" using inv by (simp add: dev_inv_def)
  obtain r where r: "buffptr (pending_of s) = Some r" "kheap s r \<noteq> None"
    "Some r \<notin> buffptr ` set (ring_list (ring_of s))"
    using mem_inv_pending [OF minv size ptr] by (auto elim!: liveE)
  from assms(1) minv assms(3-5) run show ?thesis
  proof (cases rule: aesd_write_outcome)
    case interrupted
    with assms(6) show ?thesis by simp
  next
    case no_memory
    with r size show ?thesis by (auto simp: intact_def)
  next
    case (accepted n a)
    with fail show ?thesis by simp
  qed
qed

text \<open>A kernel whose reallocations fail; it keeps every contract.\<close>

definition no_realloc_kernel :: kernel where
  "no_realloc_kernel = reference_kernel\<lparr>krealloc := \<lambda>h p n. (None, h)\<rparr>"

lemma no_realloc_kernel_ok: "kernel_ok no_realloc_kernel"
proof -
  have "mutex_ok no_realloc_kernel = mutex_ok reference_kernel"
    "kmalloc_ok no_realloc_kernel = kmalloc_ok reference_kernel"
    "kfree_ok no_realloc_kernel = kfree_ok reference_kernel"
    "copy_from_user_ok no_realloc_kernel = copy_from_user_ok reference_kernel"
    "copy_to_user_ok no_realloc_kernel = copy_to_user_ok reference_kernel"
    "ioc_ok no_realloc_kernel = ioc_ok reference_kernel"
    by (simp_all add: no_realloc_kernel_def mutex_ok_def kmalloc_ok_def kfree_ok_def
        copy_from_user_ok_def copy_to_user_ok_def ioc_ok_def)
  moreover have "krealloc_ok no_realloc_kernel"
    by (simp add: no_realloc_kernel_def krealloc_ok_def)
  ultimately show ?thesis using reference_kernel_ok by (simp add: kernel_ok_def)
qed

lemma failed_extension_tears_pending_witness:
  "kernel_ok no_realloc_kernel \<and> dev_inv state_example \<and>
   (\<exists>s' fp. aesd_write no_realloc_kernel state_example (Some file_example) (Some ''ld'') 2 (Some 0)
              = (s', fp, Inl (Errno ENOMEM)) \<and> \<not> intact s' \<and> kheap s' 1 = Some ''wor'')"
proof -
  obtain s' fp res where
    run: "aesd_write no_realloc_kernel state_example (Some file_example) (Some ''ld'') 2 (Some 0)
            = (s', fp, res)"
    by (metis prod_cases3)
  have f: "private_data file_example = Aesd_device" by (simp add: file_example_def)
  have "fst (aesd_write_alloc no_realloc_kernel (kheap state_example) (pending_of state_example) 2)
      = None" "\<not> interrupted no_realloc_kernel"
    by (simp_all add: no_realloc_kernel_def driver_eval interrupted_def)
  moreover have "buffptr (pending_of state_example) = Some 1" "kheap state_example 1 = Some ''wor''"
    by (simp_all add: state_example_def)
  ultimately show ?thesis
    using failed_extension_tears_pending [OF no_realloc_kernel_ok dev_inv_example f _ _ _ _ _ run]
      run no_realloc_kernel_ok dev_inv_example
    by (auto simp: view_example)
qed

text \<open>
  after such a failure uninitialised kernel memory reaches the readers. Three bytes are
  pending, an extension fails, the next write succeeds, and the stored command starts with three
  bytes that nobody wrote (the \<open>?\<close> with which the reference allocator fills fresh blocks).
\<close>

lemma torn_command_exposes_memory:
  "dev_inv state_example \<and> kernel_ok no_realloc_kernel \<and> kernel_ok reference_kernel \<and>
   (\<exists>s1 fp1 s2 fp2.
      aesd_write no_realloc_kernel state_example (Some file_example) (Some ''ld'') 2 (Some 0)
        = (s1, fp1, Inl (Errno ENOMEM)) \<and>
      aesd_write reference_kernel s1 (Some file_example) (Some [nl]) 1 (Some 0)
        = (s2, fp2, Inr 1) \<and>
      commands (view s2) = [''hi'' @ [nl], ''???'' @ [nl]])"
proof -
  define s1 where "s1 = set_pending \<lparr>buffptr = None, entry_size = 3\<rparr> state_example"
  have one: "aesd_write no_realloc_kernel state_example (Some file_example) (Some ''ld'') 2
      (Some 0) = (s1, Some 0, Inl (Errno ENOMEM))"
    by (simp add: no_realloc_kernel_def s1_def driver_eval Let_def unlock_def)
  obtain s2 fp2 res where
    two: "aesd_write reference_kernel s1 (Some file_example) (Some [nl]) 1 (Some 0) = (s2, fp2, res)"
    by (metis prod_cases3)
  have found: "memchr [CHR ''?'', CHR ''?'', CHR ''?'', nl] nl 4 = Some 3"
    by (simp add: numeral_eq_Suc)
  have three: "replicate 3 CHR ''?'' = ''???''" by (simp add: numeral_eq_Suc)
  have "res = Inr 1 \<and> ring_of s2 = \<lparr>entry = \<lparr>buffptr = Some 0, entry_size = 3\<rparr>
            # (replicate 9 zero_entry)[0 := \<lparr>buffptr = Some 2, entry_size = 4\<rparr>],
            in_offs = 2, out_offs = 0, full = False\<rparr> \<and>
        kheap s2 0 = Some (''hi'' @ [nl]) \<and> kheap s2 2 = Some (''???'' @ [nl])"
    using two
    by (auto simp: s1_def driver_eval Let_def unlock_def upt_rec found three)
      (simp_all add: numeral_2_eq_2)
  then have "res = Inr 1" "commands (view s2) = [''hi'' @ [nl], ''???'' @ [nl]]"
    by (simp_all add: view_def ring_list_def ring_count_def ring_slot_def entry_bytes_def
        block_at_def upt_rec)
  with one two show ?thesis
    using dev_inv_example no_realloc_kernel_ok reference_kernel_ok by blast
qed

section \<open>NULL arguments\<close>

text \<open>
  the NULL checks of \<open>read\<close> and \<open>write\<close> come too late. \<open>read\<close> with a NULL \<open>filp\<close> or \<open>f_pos\<close>
  and \<open>write\<close> with a NULL \<open>f_pos\<close> dereference the pointer (in the debug print and in the
  initialisation of \<open>dev\<close>) before the check that would return EFAULT; only a NULL \<open>buf\<close> and, in
  \<open>write\<close>, a NULL \<open>filp\<close> are caught.
\<close>

lemma null_checks_too_late:
  "aesd_read K s filp buf count None = (s, None, [], Inl NullDeref) \<and>
   aesd_read K s None buf count fpos = (s, fpos, [], Inl NullDeref) \<and>
   aesd_read K s (Some f) None count (Some pos) = (s, Some pos, [], Inl (Errno EFAULT)) \<and>
   aesd_write K s filp ubuf count None = (s, None, Inl NullDeref) \<and>
   aesd_write K s None ubuf count (Some pos)
     = (s, Some pos, if count = 0 then Inr 0 else Inl (Errno EFAULT)) \<and>
   aesd_write K s filp None count (Some pos)
     = (s, Some pos, if count = 0 then Inr 0 else Inl (Errno EFAULT))"
  by (simp add: aesd_read_def aesd_write_def split: option.split)

end
