(* ===== verification/Links.thy ===== *)
theory Links
  imports Prelude
begin

text \<open>
  What the four families of linked structures of \<open>server/queue.h\<close> share: dereferencing and
  assigning a link field of an element, the traversal loops of the \<open>FOREACH\<close> macros, the
  predecessor search of the \<open>REMOVE\<close> macros of the singly linked families, chains of
  links as lists of element addresses, and the interface of a linked structure.

  A link field is one map from element addresses to the field's value (an address outside its
  domain is not an allocated element). Dereferencing NULL is the error \<open>NullDeref\<close>, dereferencing
  an address that is not allocated is \<open>BadAccess\<close>.
\<close>

section \<open>Link fields\<close>

type_synonym nexts = "addr \<rightharpoonup> ptr"

definition deref :: "(addr \<rightharpoonup> 'v) \<Rightarrow> ptr \<Rightarrow> 'v result" where
  "deref m p = (case p of None \<Rightarrow> Inl NullDeref
                | Some a \<Rightarrow> (case m a of None \<Rightarrow> Inl BadAccess | Some v \<Rightarrow> Inr v))"

definition assign :: "(addr \<rightharpoonup> 'v) \<Rightarrow> ptr \<Rightarrow> 'v \<Rightarrow> (addr \<rightharpoonup> 'v) result" where
  "assign m p v = (case p of None \<Rightarrow> Inl NullDeref
                   | Some a \<Rightarrow> (case m a of None \<Rightarrow> Inl BadAccess | Some _ \<Rightarrow> Inr (m(a \<mapsto> v))))"

text \<open>
  The address of a link, as the doubly linked and tail families keep it: of the \<open>first\<close> field of a
  head, or of the \<open>next\<close> field of an element.
\<close>

datatype linkaddr = First_of addr | Next_of addr

lemma deref_simps [simp]:
  "deref m None = Inl NullDeref" "m a = None \<Longrightarrow> deref m (Some a) = Inl BadAccess"
  "m a = Some v \<Longrightarrow> deref m (Some a) = Inr v"
  by (simp_all add: deref_def)

lemma assign_simps [simp]:
  "assign m None v = Inl NullDeref" "m a = None \<Longrightarrow> assign m (Some a) v = Inl BadAccess"
  "m a = Some w \<Longrightarrow> assign m (Some a) v = Inr (m(a \<mapsto> v))"
  by (simp_all add: assign_def)

section \<open>Loops\<close>

text \<open>
  The loop of a \<open>FOREACH\<close> macro from the element \<open>var\<close> on: \<open>step\<close> reads the link to the next element
  after the body ran. The body is a state transformer that may fail or run forever.
\<close>

partial_function (option) for_each ::
  "('s \<Rightarrow> ptr \<Rightarrow> ptr result) \<Rightarrow> (addr \<Rightarrow> 's \<Rightarrow> 's run) \<Rightarrow> ptr \<Rightarrow> 's \<Rightarrow> 's run" where
  "for_each step body var s =
     (case var of
        None \<Rightarrow> Some (Inr s)
      | Some a \<Rightarrow>
          (case body a s of
             None \<Rightarrow> None
           | Some (Inl e) \<Rightarrow> Some (Inl e)
           | Some (Inr s') \<Rightarrow>
               (case step s' var of
                  Inl e \<Rightarrow> Some (Inl e)
                | Inr v \<Rightarrow> for_each step body v s')))"

text \<open>The loop of a \<open>FOREACH_SAFE\<close> macro: the link is read into \<open>tvar\<close> before the body runs.\<close>

partial_function (option) for_each_safe ::
  "('s \<Rightarrow> ptr \<Rightarrow> ptr result) \<Rightarrow> (addr \<Rightarrow> 's \<Rightarrow> 's run) \<Rightarrow> ptr \<Rightarrow> 's \<Rightarrow> 's run" where
  "for_each_safe step body var s =
     (case var of
        None \<Rightarrow> Some (Inr s)
      | Some a \<Rightarrow>
          (case step s var of
             Inl e \<Rightarrow> Some (Inl e)
           | Inr tvar \<Rightarrow>
               (case body a s of
                  None \<Rightarrow> None
                | Some (Inl e) \<Rightarrow> Some (Inl e)
                | Some (Inr s') \<Rightarrow> for_each_safe step body tvar s')))"

text \<open>The search for the element whose link is \<open>elm\<close>: \<open>while (NEXT(curelm) != elm)\<close>.\<close>

partial_function (option) find_prev ::
  "(ptr \<Rightarrow> ptr result) \<Rightarrow> ptr \<Rightarrow> ptr \<Rightarrow> ptr run" where
  "find_prev step elm curelm =
     (case step curelm of
        Inl e \<Rightarrow> Some (Inl e)
      | Inr v \<Rightarrow> if v = elm then Some (Inr curelm) else find_prev step elm v)"

section \<open>Chains\<close>

text \<open>
  \<open>seg n p as q\<close>: following the links \<open>n\<close> from \<open>p\<close> passes the elements \<open>as\<close> and ends in \<open>q\<close>.
  A \<open>chain\<close> ends in NULL.
\<close>

primrec seg :: "nexts \<Rightarrow> ptr \<Rightarrow> addr list \<Rightarrow> ptr \<Rightarrow> bool" where
  "seg n p [] q = (p = q)"
| "seg n p (a # as) q =
     (p = Some a \<and> (case n a of None \<Rightarrow> False | Some r \<Rightarrow> seg n r as q))"

abbreviation chain :: "nexts \<Rightarrow> ptr \<Rightarrow> addr list \<Rightarrow> bool" where
  "chain n p as \<equiv> seg n p as None"

definition first :: "addr list \<Rightarrow> ptr" where
  "first as = (case as of [] \<Rightarrow> None | a # _ \<Rightarrow> Some a)"

lemma first_simps [simp]: "first [] = None" "first (a # as) = Some a"
  by (simp_all add: first_def)

lemma first_eq_None [simp]: "first as = None \<longleftrightarrow> as = []"
  by (cases as) simp_all

lemma seg_Cons: "seg n p (a # as) q \<longleftrightarrow> (\<exists>r. p = Some a \<and> n a = Some r \<and> seg n r as q)"
  by (auto split: option.splits)

lemma seg_append: "seg n p (as @ bs) q \<longleftrightarrow> (\<exists>r. seg n p as r \<and> seg n r bs q)"
  by (induction as arbitrary: p) (auto split: option.splits)

lemma chain_first: "chain n p as \<Longrightarrow> p = first as"
  by (cases as) auto

lemma seg_update [simp]: "a \<notin> set as \<Longrightarrow> seg (n(a := v)) p as q = seg n p as q"
  by (induction as arbitrary: p) (auto split: option.splits)

lemma seg_cong:
  "(\<And>a. a \<in> set as \<Longrightarrow> n a = n' a) \<Longrightarrow> seg n p as q = seg n' p as q"
  by (induction as arbitrary: p) (auto split: option.splits)

lemma seg_allocated: "seg n p as q \<Longrightarrow> set as \<subseteq> dom n"
  by (induction as arbitrary: p) (auto split: option.splits)

lemma chain_unique: "chain n p as \<Longrightarrow> chain n p bs \<Longrightarrow> as = bs"
proof (induction as arbitrary: p bs)
  case Nil
  then show ?case by (cases bs) auto
next
  case (Cons a as)
  then show ?case by (cases bs) (auto split: option.splits)
qed

lemma chain_tail_notin:
  assumes "n a = Some r" "chain n r as"
  shows "a \<notin> set as"
proof
  assume "a \<in> set as"
  then obtain us vs where "as = us @ a # vs" by (meson split_list)
  with assms have "chain n r vs" by (auto simp: seg_append)
  with assms \<open>as = us @ a # vs\<close> show False using chain_unique by fastforce
qed

lemma chain_distinct: "chain n p as \<Longrightarrow> distinct as"
  by (induction as arbitrary: p) (auto dest: chain_tail_notin split: option.splits)

text \<open>Taking an element out of a chain by redirecting the link of its predecessor.\<close>

lemma chain_unlink:
  assumes "chain n p (as @ b # a # cs)"
  shows "n a = Some (first cs) \<and> n b = Some (Some a) \<and>
    chain (n(b \<mapsto> first cs)) p (as @ b # cs)"
proof -
  from assms obtain r where r: "seg n p as (Some b)" "n b = Some (Some a)" "n a = Some r" "chain n r cs"
    by (auto simp: seg_append split: option.splits)
  from chain_distinct [OF assms] have "b \<notin> set as" "b \<notin> set cs" by auto
  with r chain_first [OF r(4)] show ?thesis by (auto simp: seg_append)
qed

text \<open>Linking an element in behind another.\<close>

lemma chain_link:
  assumes "chain n p (as @ b # cs)" "a \<notin> set (as @ b # cs)"
  shows "n b = Some (first cs) \<and>
    chain (n(a \<mapsto> first cs, b \<mapsto> Some a)) p (as @ b # a # cs)"
proof -
  from assms obtain r where r: "seg n p as (Some b)" "n b = Some r" "chain n r cs"
    by (auto simp: seg_append split: option.splits)
  from chain_distinct [OF assms(1)] have "b \<notin> set as" "b \<notin> set cs" by auto
  with assms r chain_first [OF r(3)] show ?thesis by (auto simp: seg_append)
qed

section \<open>Links by address\<close>

text \<open>
  Reading and storing through the address of a link, on the \<open>first\<close> fields \<open>f\<close> of the heads and the
  \<open>next\<close> fields \<open>n\<close> of the elements.
\<close>

definition get_link :: "(addr \<Rightarrow> ptr) \<Rightarrow> nexts \<Rightarrow> linkaddr \<Rightarrow> ptr result" where
  "get_link f n l = (case l of First_of h \<Rightarrow> Inr (f h) | Next_of a \<Rightarrow> deref n (Some a))"

definition put_link ::
  "(addr \<Rightarrow> ptr) \<Rightarrow> nexts \<Rightarrow> linkaddr \<Rightarrow> ptr \<Rightarrow> ((addr \<Rightarrow> ptr) \<times> nexts) result" where
  "put_link f n l p =
     (case l of
        First_of h \<Rightarrow> Inr (f(h := p), n)
      | Next_of a \<Rightarrow> rbind (assign n (Some a) p) (\<lambda>n'. Inr (f, n')))"

text \<open>The element whose \<open>next\<close> field is at an address (\<open>__containerof\<close>).\<close>

definition containerof :: "linkaddr \<Rightarrow> ptr result" where
  "containerof l = (case l of First_of h \<Rightarrow> Inl Undefined | Next_of a \<Rightarrow> Inr (Some a))"

text \<open>The link behind the elements \<open>as\<close>, when the first of them is pointed to by the link \<open>l\<close>.\<close>

definition link_end :: "linkaddr \<Rightarrow> addr list \<Rightarrow> linkaddr" where
  "link_end l as = (if as = [] then l else Next_of (last as))"

text \<open>Back links: every element holds the address of the link that points to it.\<close>

fun backs :: "(addr \<rightharpoonup> linkaddr) \<Rightarrow> linkaddr \<Rightarrow> addr list \<Rightarrow> bool" where
  "backs pv l [] = True"
| "backs pv l (a # as) = (pv a = Some l \<and> backs pv (Next_of a) as)"

lemma link_end_simps [simp]:
  "link_end l [] = l" "link_end l (a # as) = link_end (Next_of a) as"
  "link_end l (as @ bs) = link_end (link_end l as) bs"
  by (simp_all add: link_end_def)

lemma link_end_eq_Next: "link_end (First_of h) as = Next_of b \<Longrightarrow> b \<in> set as"
  by (auto simp: link_end_def split: if_splits)

lemma backs_append [simp]: "backs pv l (as @ bs) \<longleftrightarrow> backs pv l as \<and> backs pv (link_end l as) bs"
  by (induction as arbitrary: l) auto

lemma backs_update [simp]: "a \<notin> set as \<Longrightarrow> backs (pv(a := v)) l as = backs pv l as"
  by (induction as arbitrary: l) auto

lemma backs_cong: "(\<And>a. a \<in> set as \<Longrightarrow> pv a = pv' a) \<Longrightarrow> backs pv l as = backs pv' l as"
  by (induction as arbitrary: l) auto

lemma backs_allocated: "backs pv l as \<Longrightarrow> set as \<subseteq> dom pv"
  by (induction as arbitrary: l) auto

text \<open>Redirecting the link behind a prefix of a chain to another chain.\<close>

lemma put_link_chain:
  assumes "chain n (f h) (us @ vs)" "chain n p ws" "set us \<inter> set ws = {}"
  shows "\<exists>f' n'. put_link f n (link_end (First_of h) us) p = Inr (f', n') \<and>
    chain n' (f' h) (us @ ws) \<and> (\<forall>g. g \<noteq> h \<longrightarrow> f' g = f g) \<and>
    (\<forall>b. b \<notin> set us \<longrightarrow> n' b = n b) \<and> dom n' = dom n"
proof (cases us rule: rev_exhaust)
  case Nil
  then show ?thesis using assms(2) by (simp add: put_link_def)
next
  case (snoc xs b)
  from assms(1) snoc obtain r where r: "seg n (f h) xs (Some b)" "n b = Some r"
    by (auto simp: seg_append split: option.splits)
  have "b \<notin> set xs" "b \<notin> set ws" using chain_distinct [OF assms(1)] assms(3) snoc by auto
  with r assms(2) have "chain (n(b \<mapsto> p)) (f h) (us @ ws)" by (simp add: snoc seg_append)
  then show ?thesis using r(2) snoc by (auto simp: put_link_def)
qed

lemma get_link_chain:
  assumes "chain n (f h) (us @ vs)"
  shows "get_link f n (link_end (First_of h) us) = Inr (first vs)"
proof (cases us rule: rev_exhaust)
  case Nil
  then show ?thesis using chain_first [of n "f h" vs] assms by (simp add: get_link_def)
next
  case (snoc xs b)
  then show ?thesis using assms chain_first
    by (fastforce simp: get_link_def seg_append split: option.splits)
qed

text \<open>The idiom \<open>if (p != NULL) p->prev = l\<close>, and what it does to the back links of a chain.\<close>

definition set_prev_unless_null ::
  "(addr \<rightharpoonup> linkaddr) \<Rightarrow> ptr \<Rightarrow> linkaddr \<Rightarrow> (addr \<rightharpoonup> linkaddr) result" where
  "set_prev_unless_null pv p l = (if p \<noteq> None then assign pv p l else Inr pv)"

lemma set_prev_backs:
  assumes "backs pv k vs" "distinct vs"
  shows "\<exists>pv'. set_prev_unless_null pv (first vs) l = Inr pv' \<and> backs pv' l vs \<and> dom pv' = dom pv \<and>
    (\<forall>b. b \<notin> set vs \<longrightarrow> pv' b = pv b)"
  using assms by (cases vs) (auto simp: set_prev_unless_null_def)

section \<open>The loops on chains\<close>

text \<open>The predecessor search returns when the element is in the chain, behind its first.\<close>

lemma find_prev_chain:
  assumes "chain n p (as @ b # a # cs)"
  shows "find_prev (deref n) (Some a) (first (as @ [b])) = Some (Inr (Some b))"
proof -
  have "a \<notin> set (as @ [b])" using chain_distinct [OF assms] by auto
  then show ?thesis using assms
  proof (induction as arbitrary: p)
    case Nil
    then show ?case by (auto simp: find_prev.simps split: option.splits)
  next
    case (Cons c as)
    then obtain r where r: "n c = Some r" "chain n r (as @ b # a # cs)"
      by (auto split: option.splits)
    then have "r = first (as @ [b])" using chain_first [OF r(2)] by (cases as) auto
    with Cons r show ?case by (cases as) (auto simp: find_prev.simps)
  qed
qed

text \<open>
  Invariant rules for the traversals. \<open>I xs ys s\<close> holds when the elements \<open>xs\<close> have been visited and
  \<open>ys\<close> are still to come; a traversal that returns has visited everything. In the first rule it
  returns when \<open>N\<close> says that no body runs forever; in the second \<open>N\<close> are the ways in which a body,
  and with it the traversal, can fail or run forever.
\<close>

lemma for_each_rule:
  assumes step: "\<And>xs a ys s. I xs (a # ys) s \<Longrightarrow> (body a s = None \<and> \<not> N) \<or>
      (\<exists>s'. body a s = Some (Inr s') \<and> nx s' (Some a) = Inr (first ys) \<and> I (xs @ [a]) ys s')"
  shows "I xs ys s \<Longrightarrow> (for_each nx body (first ys) s = None \<and> \<not> N) \<or>
    (\<exists>s'. for_each nx body (first ys) s = Some (Inr s') \<and> I (xs @ ys) [] s')"
proof (induction ys arbitrary: xs s)
  case Nil
  then show ?case by (simp add: for_each.simps)
next
  case (Cons a ys)
  from step [OF Cons.prems] show ?case
  proof (elim disjE exE conjE)
    fix s'
    assume s': "body a s = Some (Inr s')" "nx s' (Some a) = Inr (first ys)" "I (xs @ [a]) ys s'"
    from Cons.IH [OF s'(3)] s' show ?case by (simp add: for_each.simps)
  qed (simp add: for_each.simps)
qed

lemma for_each_safe_rule:
  assumes step: "\<And>xs a ys s. I xs (a # ys) s \<Longrightarrow> nx s (Some a) = Inr (first ys) \<and>
      (N (body a s) \<or> (\<exists>s'. body a s = Some (Inr s') \<and> I (xs @ [a]) ys s'))"
    and stop: "\<And>s. \<not> N (Some (Inr s))"
  shows "I xs ys s \<Longrightarrow> N (for_each_safe nx body (first ys) s) \<or>
    (\<exists>s'. for_each_safe nx body (first ys) s = Some (Inr s') \<and> I (xs @ ys) [] s')"
proof (induction ys arbitrary: xs s)
  case Nil
  then show ?case by (simp add: for_each_safe.simps)
next
  case (Cons a ys)
  have nx: "nx s (Some a) = Inr (first ys)" using step [OF Cons.prems] by blast
  from step [OF Cons.prems, THEN conjunct2] show ?case
  proof (elim disjE exE conjE)
    fix s'
    assume s': "body a s = Some (Inr s')" "I (xs @ [a]) ys s'"
    from Cons.IH [OF s'(2)] s' nx show ?case by (simp add: for_each_safe.simps)
  next
    assume fails: "N (body a s)"
    then have "\<nexists>s'. body a s = Some (Inr s')" using stop by auto
    then have "for_each_safe nx body (first (a # ys)) s = body a s"
      by (auto simp: for_each_safe.simps nx split: option.splits sum.splits)
    with fails show ?case by simp
  qed
qed

text \<open>A traversal whose body leaves the links alone is a fold over the elements.\<close>

lemma for_each_fold:
  assumes body: "\<And>a s. body a s = Some (Inr (f a s))" "\<And>a s. mem (f a s) = mem s"
    and nx: "\<And>us a vs s. as = us @ a # vs \<Longrightarrow> mem s = m \<Longrightarrow> nx s (Some a) = Inr (first vs)"
    and s: "mem s = m"
  shows "for_each nx body (first as) s = Some (Inr (fold f as s))"
proof -
  have "mem t = m \<Longrightarrow> as = us @ vs \<Longrightarrow> for_each nx body (first vs) t = Some (Inr (fold f vs t))"
    for us vs t
  proof (induction vs arbitrary: us t)
    case Nil
    then show ?case by (simp add: for_each.simps)
  next
    case (Cons a vs)
    with body nx [of us a vs "f a t"] Cons.IH [of "f a t" "us @ [a]"] show ?case
      by (simp add: for_each.simps)
  qed
  from this [of s "[]" as] s show ?thesis by simp
qed

section \<open>The interface of a family of lists\<close>

text \<open>
  Scripts of operations on the lists of several heads: what they do to the lists, when
  each step is allowed (an inserted element is allocated and in no list, a removed
  one is in the list it is removed from), and how an implementation runs them.
\<close>

datatype list_op = Reset addr | Insert addr addr | Remove addr addr

fun apply_op :: "list_op \<Rightarrow> (addr \<Rightarrow> addr list) \<Rightarrow> addr \<Rightarrow> addr list" where
  "apply_op (Reset h) L = L(h := [])"
| "apply_op (Insert h a) L = L(h := a # L h)"
| "apply_op (Remove h a) L = L(h := remove1 a (L h))"

fun allowed :: "addr set \<Rightarrow> addr list \<Rightarrow> list_op \<Rightarrow> (addr \<Rightarrow> addr list) \<Rightarrow> bool" where
  "allowed E H (Reset h) L \<longleftrightarrow> h \<in> set H"
| "allowed E H (Insert h a) L \<longleftrightarrow> h \<in> set H \<and> a \<in> E \<and> list_all (\<lambda>g. a \<notin> set (L g)) H"
| "allowed E H (Remove h a) L \<longleftrightarrow> h \<in> set H \<and> a \<in> set (L h)"

fun allowed_all :: "addr set \<Rightarrow> addr list \<Rightarrow> list_op list \<Rightarrow> (addr \<Rightarrow> addr list) \<Rightarrow> bool" where
  "allowed_all E H [] L \<longleftrightarrow> True"
| "allowed_all E H (c # cs) L \<longleftrightarrow> allowed E H c L \<and> allowed_all E H cs (apply_op c L)"

fun exec_op :: "('m \<Rightarrow> addr \<Rightarrow> 'm) \<Rightarrow> ('m \<Rightarrow> addr \<Rightarrow> addr \<Rightarrow> 'm run)
    \<Rightarrow> ('m \<Rightarrow> addr \<Rightarrow> addr \<Rightarrow> 'm run) \<Rightarrow> list_op \<Rightarrow> 'm \<Rightarrow> 'm run" where
  "exec_op init ins rem (Reset h) m = Some (Inr (init m h))"
| "exec_op init ins rem (Insert h a) m = ins m h a"
| "exec_op init ins rem (Remove h a) m = rem m h a"

fun exec_ops :: "('m \<Rightarrow> addr \<Rightarrow> 'm) \<Rightarrow> ('m \<Rightarrow> addr \<Rightarrow> addr \<Rightarrow> 'm run)
    \<Rightarrow> ('m \<Rightarrow> addr \<Rightarrow> addr \<Rightarrow> 'm run) \<Rightarrow> list_op list \<Rightarrow> 'm \<Rightarrow> 'm run" where
  "exec_ops init ins rem [] m = Some (Inr m)"
| "exec_ops init ins rem (c # cs) m = obind (exec_op init ins rem c m) (exec_ops init ins rem cs)"

text \<open>The heads \<open>H\<close> hold the pairwise disjoint lists \<open>L\<close>.\<close>

definition family ::
  "('m \<Rightarrow> addr \<Rightarrow> addr list \<Rightarrow> bool) \<Rightarrow> addr list \<Rightarrow> 'm \<Rightarrow> (addr \<Rightarrow> addr list) \<Rightarrow> bool" where
  "family rep H m L \<longleftrightarrow>
     (\<forall>h\<in>set H. rep m h (L h)) \<and>
     (\<forall>g\<in>set H. \<forall>h\<in>set H. g \<noteq> h \<longrightarrow> set (L g) \<inter> set (L h) = {})"

text \<open>
  The interface: \<open>rep m h as\<close> says that in memory \<open>m\<close> the head \<open>h\<close> holds the list \<open>as\<close>. An
  operation keeps every list of another head that shares no element with the one it works on.
\<close>

locale linked_lists =
  fixes rep :: "'m \<Rightarrow> addr \<Rightarrow> addr list \<Rightarrow> bool"
    and elements :: "'m \<Rightarrow> addr set"
    and init :: "'m \<Rightarrow> addr \<Rightarrow> 'm"
    and insert_head :: "'m \<Rightarrow> addr \<Rightarrow> addr \<Rightarrow> 'm run"
    and remove :: "'m \<Rightarrow> addr \<Rightarrow> addr \<Rightarrow> 'm run"
  assumes rep_wf: "rep m h as \<Longrightarrow> distinct as \<and> set as \<subseteq> elements m"
    and init_law: "rep (init m h) h [] \<and> elements (init m h) = elements m \<and>
        (\<forall>g bs. g \<noteq> h \<longrightarrow> rep m g bs \<longrightarrow> rep (init m h) g bs)"
    and insert_law: "rep m h as \<Longrightarrow> a \<in> elements m \<Longrightarrow> a \<notin> set as \<Longrightarrow>
        \<exists>m'. insert_head m h a = Some (Inr m') \<and> rep m' h (a # as) \<and> elements m' = elements m \<and>
          (\<forall>g bs. g \<noteq> h \<longrightarrow> rep m g bs \<longrightarrow> set bs \<inter> set (a # as) = {} \<longrightarrow> rep m' g bs)"
    and remove_law: "rep m h as \<Longrightarrow> a \<in> set as \<Longrightarrow>
        \<exists>m'. remove m h a = Some (Inr m') \<and> rep m' h (remove1 a as) \<and> elements m' = elements m \<and>
          (\<forall>g bs. g \<noteq> h \<longrightarrow> rep m g bs \<longrightarrow> set bs \<inter> set as = {} \<longrightarrow> rep m' g bs)"
begin

lemma exec_op_family:
  assumes "family rep H m L" "allowed (elements m) H c L"
  shows "\<exists>m'. exec_op init insert_head remove c m = Some (Inr m') \<and>
    family rep H m' (apply_op c L) \<and> elements m' = elements m"
proof (cases c)
  case (Reset h)
  with assms init_law [of m h] show ?thesis by (auto simp: family_def)
next
  case (Insert h a)
  with assms have h: "h \<in> set H" "rep m h (L h)" "a \<in> elements m" "\<forall>g\<in>set H. a \<notin> set (L g)"
    by (auto simp: family_def list_all_iff)
  with insert_law [OF h(2,3)] obtain m' where
    m': "insert_head m h a = Some (Inr m')" "rep m' h (a # L h)" "elements m' = elements m"
      "\<forall>g bs. g \<noteq> h \<longrightarrow> rep m g bs \<longrightarrow> set bs \<inter> set (a # L h) = {} \<longrightarrow> rep m' g bs"
    by blast
  moreover have "rep m' g (L g)" if "g \<in> set H" "g \<noteq> h" for g
    using that assms(1) h m'(4) by (auto simp: family_def)
  ultimately show ?thesis using Insert assms(1) h by (auto simp: family_def)
next
  case (Remove h a)
  with assms have h: "h \<in> set H" "rep m h (L h)" "a \<in> set (L h)" by (auto simp: family_def)
  from remove_law [OF h(2,3)] obtain m' where
    m': "remove m h a = Some (Inr m')" "rep m' h (remove1 a (L h))" "elements m' = elements m"
      "\<forall>g bs. g \<noteq> h \<longrightarrow> rep m g bs \<longrightarrow> set bs \<inter> set (L h) = {} \<longrightarrow> rep m' g bs"
    by blast
  moreover have "rep m' g (L g)" if "g \<in> set H" "g \<noteq> h" for g
    using that assms(1) h m'(4) by (auto simp: family_def)
  moreover have "set (remove1 a (L h)) \<subseteq> set (L h)" by (rule set_remove1_subset)
  ultimately show ?thesis using Remove assms(1) h by (fastforce simp: family_def)
qed

text \<open>Every allowed script runs to its end without a fault and does to the lists what it should.\<close>

lemma exec_ops_family:
  "family rep H m L \<Longrightarrow> allowed_all (elements m) H cs L \<Longrightarrow>
    \<exists>m'. exec_ops init insert_head remove cs m = Some (Inr m') \<and>
      family rep H m' (fold apply_op cs L) \<and> elements m' = elements m"
proof (induction cs arbitrary: m L)
  case Nil
  then show ?case by simp
next
  case (Cons c cs)
  then obtain m1 where "exec_op init insert_head remove c m = Some (Inr m1)"
    "family rep H m1 (apply_op c L)" "elements m1 = elements m"
    using exec_op_family by fastforce
  with Cons.IH [of m1 "apply_op c L"] Cons.prems show ?case by auto
qed

end

section \<open>The interface of tail queues\<close>

text \<open>
  The client of a tail queue: appending the elements of a list one by one, and taking up to \<open>k\<close>
  elements out at the front, which stops at an empty queue.
\<close>

fun enqueue_all ::
  "('m \<Rightarrow> addr \<Rightarrow> addr \<Rightarrow> 'm run) \<Rightarrow> addr \<Rightarrow> addr list \<Rightarrow> 'm \<Rightarrow> 'm run" where
  "enqueue_all ins h [] m = Some (Inr m)"
| "enqueue_all ins h (a # as) m = obind (ins m h a) (enqueue_all ins h as)"

fun dequeue_some ::
  "('m \<Rightarrow> addr \<Rightarrow> ptr) \<Rightarrow> ('m \<Rightarrow> addr \<Rightarrow> addr \<Rightarrow> 'm run) \<Rightarrow> addr \<Rightarrow> nat \<Rightarrow> 'm
    \<Rightarrow> (addr list \<times> 'm) run" where
  "dequeue_some fst_of rem h 0 m = Some (Inr ([], m))"
| "dequeue_some fst_of rem h (Suc k) m =
     (case fst_of m h of
        None \<Rightarrow> Some (Inr ([], m))
      | Some a \<Rightarrow>
          obind (rem m h a) (\<lambda>m1.
          obind (dequeue_some fst_of rem h k m1) (\<lambda>(as, m2). Some (Inr (a # as, m2)))))"

locale tail_queues = linked_lists +
  fixes front :: "'a \<Rightarrow> addr \<Rightarrow> ptr"
    and insert_tail :: "'a \<Rightarrow> addr \<Rightarrow> addr \<Rightarrow> 'a run"
    and concat_into :: "'a \<Rightarrow> addr \<Rightarrow> addr \<Rightarrow> 'a run"
  assumes front_law: "rep m h as \<Longrightarrow> front m h = first as"
    and tail_law: "rep m h as \<Longrightarrow> a \<in> elements m \<Longrightarrow> a \<notin> set as \<Longrightarrow>
        \<exists>m'. insert_tail m h a = Some (Inr m') \<and> rep m' h (as @ [a]) \<and> elements m' = elements m \<and>
          (\<forall>g bs. g \<noteq> h \<longrightarrow> rep m g bs \<longrightarrow> set bs \<inter> set (a # as) = {} \<longrightarrow> rep m' g bs)"
    and concat_law: "rep m g as \<Longrightarrow> rep m h bs \<Longrightarrow> g \<noteq> h \<Longrightarrow> set as \<inter> set bs = {} \<Longrightarrow>
        \<exists>m'. concat_into m g h = Some (Inr m') \<and> rep m' g (as @ bs) \<and> rep m' h [] \<and>
          elements m' = elements m"
begin

lemma enqueue_all_rep:
  "rep m h as \<Longrightarrow> distinct (as @ xs) \<Longrightarrow> set xs \<subseteq> elements m \<Longrightarrow>
    \<exists>m'. enqueue_all insert_tail h xs m = Some (Inr m') \<and> rep m' h (as @ xs) \<and> elements m' = elements m"
proof (induction xs arbitrary: m as)
  case Nil
  then show ?case by simp
next
  case (Cons x xs)
  then obtain m1 where m1: "insert_tail m h x = Some (Inr m1)" "rep m1 h (as @ [x])"
    "elements m1 = elements m"
    using tail_law [of m h as x] by auto
  with Cons.IH [OF m1(2)] Cons.prems show ?case by auto
qed

lemma dequeue_some_rep:
  "rep m h as \<Longrightarrow> \<exists>m'. dequeue_some front remove h k m = Some (Inr (take k as, m')) \<and>
    rep m' h (drop k as) \<and> elements m' = elements m"
proof (induction k arbitrary: m as)
  case 0
  then show ?case by simp
next
  case (Suc k)
  show ?case
  proof (cases as)
    case Nil
    then show ?thesis using Suc.prems front_law [of m h as] by simp
  next
    case (Cons a bs)
    then obtain m1 where "remove m h a = Some (Inr m1)" "rep m1 h bs" "elements m1 = elements m"
      using remove_law [OF Suc.prems, of a] by auto
    then show ?thesis using Suc.IH [of m1 bs] front_law [OF Suc.prems] Cons by fastforce
  qed
qed

text \<open>First in, first out.\<close>

lemma fifo:
  assumes "rep m h as" "distinct (as @ xs)" "set xs \<subseteq> elements m"
  shows "\<exists>m1 m2. enqueue_all insert_tail h xs m = Some (Inr m1) \<and>
    dequeue_some front remove h k m1 = Some (Inr (take k (as @ xs), m2)) \<and> rep m2 h (drop k (as @ xs))"
  using enqueue_all_rep [OF assms] dequeue_some_rep by fastforce

end

end
