(* ===== verification/Slist.thy ===== *)
theory Slist
  imports Links
begin

text \<open>
  The singly linked lists of \<open>server/queue.h\<close> (the \<open>SLIST\<close> macros), on which the server keeps its
  connections. A memory holds the \<open>slh_first\<close> field of every head and the \<open>sle_next\<close> field
  of every allocated element; a macro is a function on memories. The hooks
  \<open>QMD_SAVELINK\<close> and \<open>TRASHIT\<close> of the debugging builds are empty here; \<open>Queue_Builds\<close> has them.
\<close>

section \<open>Data and macros\<close>

record slist_mem =
  slh_first :: "addr \<Rightarrow> ptr"
  sle_next :: nexts

definition SLIST_FIRST :: "slist_mem \<Rightarrow> addr \<Rightarrow> ptr" where
  "SLIST_FIRST m head = slh_first m head"

definition SLIST_EMPTY :: "slist_mem \<Rightarrow> addr \<Rightarrow> bool" where
  "SLIST_EMPTY m head = (slh_first m head = None)"

definition SLIST_NEXT :: "slist_mem \<Rightarrow> ptr \<Rightarrow> ptr result" where
  "SLIST_NEXT m elm = deref (sle_next m) elm"

text \<open>Assignments to the two fields.\<close>

abbreviation set_SLIST_FIRST :: "slist_mem \<Rightarrow> addr \<Rightarrow> ptr \<Rightarrow> slist_mem" where
  "set_SLIST_FIRST m head p \<equiv> m\<lparr>slh_first := (slh_first m)(head := p)\<rparr>"

definition set_SLIST_NEXT :: "slist_mem \<Rightarrow> ptr \<Rightarrow> ptr \<Rightarrow> slist_mem result" where
  "set_SLIST_NEXT m elm p = rbind (assign (sle_next m) elm p) (\<lambda>n. Inr (m\<lparr>sle_next := n\<rparr>))"

definition SLIST_INIT :: "slist_mem \<Rightarrow> addr \<Rightarrow> slist_mem" where
  "SLIST_INIT m head = set_SLIST_FIRST m head None"

definition SLIST_INSERT_AFTER :: "slist_mem \<Rightarrow> ptr \<Rightarrow> ptr \<Rightarrow> slist_mem result" where
  "SLIST_INSERT_AFTER m slistelm elm =
     rbind (SLIST_NEXT m slistelm) (\<lambda>p.
     rbind (set_SLIST_NEXT m elm p) (\<lambda>m1.
     set_SLIST_NEXT m1 slistelm elm))"

definition SLIST_INSERT_HEAD :: "slist_mem \<Rightarrow> addr \<Rightarrow> ptr \<Rightarrow> slist_mem result" where
  "SLIST_INSERT_HEAD m head elm =
     rbind (set_SLIST_NEXT m elm (SLIST_FIRST m head)) (\<lambda>m1.
     Inr (set_SLIST_FIRST m1 head elm))"

definition SLIST_REMOVE_AFTER :: "slist_mem \<Rightarrow> ptr \<Rightarrow> slist_mem result" where
  "SLIST_REMOVE_AFTER m elm =
     rbind (SLIST_NEXT m elm) (\<lambda>p.
     rbind (SLIST_NEXT m p) (\<lambda>q.
     set_SLIST_NEXT m elm q))"

definition SLIST_REMOVE_HEAD :: "slist_mem \<Rightarrow> addr \<Rightarrow> slist_mem result" where
  "SLIST_REMOVE_HEAD m head =
     rbind (SLIST_NEXT m (SLIST_FIRST m head)) (\<lambda>p.
     Inr (set_SLIST_FIRST m head p))"

definition SLIST_REMOVE :: "slist_mem \<Rightarrow> addr \<Rightarrow> ptr \<Rightarrow> slist_mem run" where
  "SLIST_REMOVE m head elm =
     (if SLIST_FIRST m head = elm then Some (SLIST_REMOVE_HEAD m head)
      else obind (find_prev (SLIST_NEXT m) elm (SLIST_FIRST m head))
             (\<lambda>curelm. Some (SLIST_REMOVE_AFTER m curelm)))"

definition SLIST_SWAP :: "slist_mem \<Rightarrow> addr \<Rightarrow> addr \<Rightarrow> slist_mem" where
  "SLIST_SWAP m head1 head2 =
     (let swap_first = SLIST_FIRST m head1;
          m1 = set_SLIST_FIRST m head1 (SLIST_FIRST m head2)
      in set_SLIST_FIRST m1 head2 swap_first)"

text \<open>
  The traversals. The state \<open>'s\<close> of the loop body contains the memory, which \<open>mem\<close> reads.
  \<open>FOREACH_FROM\<close> starts at \<open>var\<close> unless that is NULL.
\<close>

definition SLIST_FOREACH ::
  "('s \<Rightarrow> slist_mem) \<Rightarrow> addr \<Rightarrow> (addr \<Rightarrow> 's \<Rightarrow> 's run) \<Rightarrow> 's \<Rightarrow> 's run" where
  "SLIST_FOREACH mem head body s =
     for_each (\<lambda>s. SLIST_NEXT (mem s)) body (SLIST_FIRST (mem s) head) s"

definition SLIST_FOREACH_FROM ::
  "('s \<Rightarrow> slist_mem) \<Rightarrow> ptr \<Rightarrow> addr \<Rightarrow> (addr \<Rightarrow> 's \<Rightarrow> 's run) \<Rightarrow> 's \<Rightarrow> 's run" where
  "SLIST_FOREACH_FROM mem var head body s =
     for_each (\<lambda>s. SLIST_NEXT (mem s)) body
       (if var \<noteq> None then var else SLIST_FIRST (mem s) head) s"

definition SLIST_FOREACH_SAFE ::
  "('s \<Rightarrow> slist_mem) \<Rightarrow> addr \<Rightarrow> (addr \<Rightarrow> 's \<Rightarrow> 's run) \<Rightarrow> 's \<Rightarrow> 's run" where
  "SLIST_FOREACH_SAFE mem head body s =
     for_each_safe (\<lambda>s. SLIST_NEXT (mem s)) body (SLIST_FIRST (mem s) head) s"

definition SLIST_FOREACH_FROM_SAFE ::
  "('s \<Rightarrow> slist_mem) \<Rightarrow> ptr \<Rightarrow> addr \<Rightarrow> (addr \<Rightarrow> 's \<Rightarrow> 's run) \<Rightarrow> 's \<Rightarrow> 's run" where
  "SLIST_FOREACH_FROM_SAFE mem var head body s =
     for_each_safe (\<lambda>s. SLIST_NEXT (mem s)) body
       (if var \<noteq> None then var else SLIST_FIRST (mem s) head) s"

text \<open>
  \<open>FOREACH_PREVPTR\<close> hands the body the address of the link it came by: \<open>var = *varp\<close> is read
  before the body and \<open>varp = &NEXT(var)\<close> is taken after it.
\<close>

definition slist_link :: "slist_mem \<Rightarrow> linkaddr \<Rightarrow> ptr result" where
  "slist_link m varp =
     (case varp of First_of head \<Rightarrow> Inr (slh_first m head) | Next_of a \<Rightarrow> deref (sle_next m) (Some a))"

partial_function (option) prevptr_loop ::
  "('s \<Rightarrow> slist_mem) \<Rightarrow> (addr \<Rightarrow> linkaddr \<Rightarrow> 's \<Rightarrow> 's run) \<Rightarrow> linkaddr \<Rightarrow> 's \<Rightarrow> 's run" where
  "prevptr_loop mem body varp s =
     (case slist_link (mem s) varp of
        Inl e \<Rightarrow> Some (Inl e)
      | Inr None \<Rightarrow> Some (Inr s)
      | Inr (Some var) \<Rightarrow>
          (case body var varp s of
             None \<Rightarrow> None
           | Some (Inl e) \<Rightarrow> Some (Inl e)
           | Some (Inr s') \<Rightarrow> prevptr_loop mem body (Next_of var) s'))"

definition SLIST_FOREACH_PREVPTR ::
  "('s \<Rightarrow> slist_mem) \<Rightarrow> addr \<Rightarrow> (addr \<Rightarrow> linkaddr \<Rightarrow> 's \<Rightarrow> 's run) \<Rightarrow> 's \<Rightarrow> 's run" where
  "SLIST_FOREACH_PREVPTR mem head body s = prevptr_loop mem body (First_of head) s"

section \<open>Lists in memory\<close>

definition slist_rep :: "slist_mem \<Rightarrow> addr \<Rightarrow> addr list \<Rightarrow> bool" where
  "slist_rep m head as \<longleftrightarrow> chain (sle_next m) (slh_first m head) as"

lemmas slist_defs = SLIST_FIRST_def SLIST_EMPTY_def SLIST_NEXT_def set_SLIST_NEXT_def SLIST_INIT_def
  SLIST_INSERT_AFTER_def SLIST_INSERT_HEAD_def SLIST_REMOVE_AFTER_def SLIST_REMOVE_HEAD_def

lemma slist_first: "slist_rep m h as \<Longrightarrow> SLIST_FIRST m h = first as"
  by (simp add: slist_rep_def SLIST_FIRST_def chain_first)

lemma slist_rep_wf: "slist_rep m h as \<Longrightarrow> distinct as \<and> set as \<subseteq> dom (sle_next m)"
  by (auto simp: slist_rep_def dest: chain_distinct seg_allocated)

lemma slist_next: "slist_rep m h (as @ a # bs) \<Longrightarrow> SLIST_NEXT m (Some a) = Inr (first bs)"
  by (auto simp: slist_rep_def SLIST_NEXT_def seg_append dest: chain_first
      split: option.splits)

lemma slist_init: "slist_rep (SLIST_INIT m h) h []"
  by (simp add: slist_rep_def SLIST_INIT_def)

lemma slist_insert_head:
  assumes "slist_rep m h as" "a \<in> dom (sle_next m)" "a \<notin> set as"
  shows "\<exists>m'. SLIST_INSERT_HEAD m h (Some a) = Inr m' \<and> slist_rep m' h (a # as) \<and>
    m' = \<lparr>slh_first = (slh_first m)(h := Some a), sle_next = (sle_next m)(a \<mapsto> slh_first m h)\<rparr>"
  using assms by (auto simp: slist_rep_def slist_defs)

lemma slist_remove_head:
  assumes "slist_rep m h (a # as)"
  shows "\<exists>m'. SLIST_REMOVE_HEAD m h = Inr m' \<and> slist_rep m' h as \<and>
    m' = set_SLIST_FIRST m h (first as)"
proof -
  from assms obtain r where r: "slh_first m h = Some a" "sle_next m a = Some r" "chain (sle_next m) r as"
    by (auto simp: slist_rep_def split: option.splits)
  with chain_first [OF r(3)] show ?thesis by (auto simp: slist_rep_def slist_defs)
qed

lemma slist_remove_after:
  assumes "slist_rep m h (as @ b # a # cs)"
  shows "\<exists>m'. SLIST_REMOVE_AFTER m (Some b) = Inr m' \<and> slist_rep m' h (as @ b # cs) \<and>
    m' = m\<lparr>sle_next := (sle_next m)(b \<mapsto> first cs)\<rparr>"
  using chain_unlink [OF assms [unfolded slist_rep_def]] by (auto simp: slist_rep_def slist_defs)

lemma slist_insert_after:
  assumes "slist_rep m h (as @ b # cs)" "a \<in> dom (sle_next m)" "a \<notin> set (as @ b # cs)"
  shows "\<exists>m'. SLIST_INSERT_AFTER m (Some b) (Some a) = Inr m' \<and> slist_rep m' h (as @ b # a # cs) \<and>
    m' = m\<lparr>sle_next := (sle_next m)(a \<mapsto> first cs, b \<mapsto> Some a)\<rparr>"
  using chain_link [OF assms(1) [unfolded slist_rep_def] assms(3)] assms(2,3)
  by (auto simp: slist_rep_def slist_defs)

text \<open>Removal of any element of the list: it returns, and only one link changes.\<close>

lemma slist_remove:
  assumes "slist_rep m h as" "a \<in> set as"
  shows "\<exists>m'. SLIST_REMOVE m h (Some a) = Some (Inr m') \<and> slist_rep m' h (remove1 a as) \<and>
    (\<forall>g. g \<noteq> h \<longrightarrow> slh_first m' g = slh_first m g) \<and> dom (sle_next m') = dom (sle_next m) \<and>
    (\<forall>b. b \<notin> set (remove1 a as) \<longrightarrow> sle_next m' b = sle_next m b)"
proof (cases "SLIST_FIRST m h = Some a")
  case True
  with assms slist_first [OF assms(1)] obtain bs where "as = a # bs" by (cases as) auto
  with assms slist_remove_head [of m h a bs] True show ?thesis by (auto simp: SLIST_REMOVE_def)
next
  case False
  obtain us cs where us: "as = us @ a # cs" "a \<notin> set us" using assms(2) by (meson split_list_first)
  with False slist_first [OF assms(1)] have "us \<noteq> []" by (cases us) auto
  then obtain vs b where "us = vs @ [b]" by (metis rev_exhaust)
  with us have as: "as = vs @ b # a # cs" "remove1 a as = vs @ b # cs" by (auto simp: remove1_append)
  have "SLIST_FIRST m h = first (vs @ [b])"
    using slist_first [OF assms(1)] as by (cases vs) auto
  moreover have "find_prev (SLIST_NEXT m) (Some a) (first (vs @ [b])) = Some (Inr (Some b))"
    using find_prev_chain [of "sle_next m" _ vs b a cs] assms(1) as
    by (simp add: slist_rep_def SLIST_NEXT_def [abs_def])
  moreover have "sle_next m b \<noteq> None"
    using slist_rep_wf [OF assms(1)] as by auto
  ultimately show ?thesis
    using slist_remove_after [of m h vs b a cs] assms(1) as False
    by (auto simp: SLIST_REMOVE_def)
qed

lemma slist_swap:
  assumes "slist_rep m g as" "slist_rep m h bs" "g \<noteq> h"
  shows "slist_rep (SLIST_SWAP m g h) g bs \<and> slist_rep (SLIST_SWAP m g h) h as"
  using assms by (simp add: slist_rep_def SLIST_SWAP_def SLIST_FIRST_def Let_def)

text \<open>The macros provide the interface of a family of lists.\<close>

interpretation slist: linked_lists slist_rep "\<lambda>m. dom (sle_next m)" SLIST_INIT
  "\<lambda>m h a. Some (SLIST_INSERT_HEAD m h (Some a))" "\<lambda>m h a. SLIST_REMOVE m h (Some a)"
proof unfold_locales
  fix m :: slist_mem and h as a
  show "slist_rep m h as \<Longrightarrow> distinct as \<and> set as \<subseteq> dom (sle_next m)" by (rule slist_rep_wf)
  show "slist_rep (SLIST_INIT m h) h [] \<and> dom (sle_next (SLIST_INIT m h)) = dom (sle_next m) \<and>
      (\<forall>g bs. g \<noteq> h \<longrightarrow> slist_rep m g bs \<longrightarrow> slist_rep (SLIST_INIT m h) g bs)"
    by (simp add: slist_rep_def SLIST_INIT_def)
  show "\<exists>m'. Some (SLIST_INSERT_HEAD m h (Some a)) = Some (Inr m') \<and> slist_rep m' h (a # as) \<and>
      dom (sle_next m') = dom (sle_next m) \<and>
      (\<forall>g bs. g \<noteq> h \<longrightarrow> slist_rep m g bs \<longrightarrow> set bs \<inter> set (a # as) = {} \<longrightarrow> slist_rep m' g bs)"
    if "slist_rep m h as" "a \<in> dom (sle_next m)" "a \<notin> set as"
    using slist_insert_head [OF that] that by (auto simp: slist_rep_def)
  show "\<exists>m'. SLIST_REMOVE m h (Some a) = Some (Inr m') \<and> slist_rep m' h (remove1 a as) \<and>
      dom (sle_next m') = dom (sle_next m) \<and>
      (\<forall>g bs. g \<noteq> h \<longrightarrow> slist_rep m g bs \<longrightarrow> set bs \<inter> set as = {} \<longrightarrow> slist_rep m' g bs)"
    if r: "slist_rep m h as" "a \<in> set as"
  proof -
    obtain m' where m': "SLIST_REMOVE m h (Some a) = Some (Inr m')" "slist_rep m' h (remove1 a as)"
      "\<forall>g. g \<noteq> h \<longrightarrow> slh_first m' g = slh_first m g" "dom (sle_next m') = dom (sle_next m)"
      "\<forall>b. b \<notin> set (remove1 a as) \<longrightarrow> sle_next m' b = sle_next m b"
      using slist_remove [OF r] by blast
    have "slist_rep m' g bs" if g: "g \<noteq> h" "slist_rep m g bs" "set bs \<inter> set as = {}" for g bs
    proof -
      have "sle_next m b = sle_next m' b" if "b \<in> set bs" for b
        using that g(3) m'(5) set_remove1_subset [of a as] by (metis disjoint_iff subsetD)
      with g m'(3) seg_cong [of bs "sle_next m" "sle_next m'"] show ?thesis
        by (auto simp: slist_rep_def)
    qed
    with m' show ?thesis by blast
  qed
qed

end
