(* ===== verification/Server_OS.thy ===== *)
theory Server_OS
  imports Char_Driver
begin

text \<open>
  What the socket server (\<open>server/aesdsocket.c\<close>) uses of the C library and of the operating system.
  String functions and \<open>atoi\<close> are defined here. System calls and the allocator are the
  record \<open>os\<close>, a parameter of the server's definitions: each is a function on a
  world \<open>'w\<close> that holds everything outside the process (sockets, devices, other threads).
\<close>

section \<open>Strings in memory\<close>

definition NUL :: char where
  "NUL = CHR 0x00"

text \<open>The C string at the start of a block; without a terminator the scan leaves the block.\<close>

definition cstring :: "bytes \<Rightarrow> bytes result" where
  "cstring blk = (if NUL \<in> set blk then Inr (takeWhile (\<lambda>c. c \<noteq> NUL) blk) else Inl BadAccess)"

text \<open>\<open>strchr\<close> on a C string, as the index of the character found.\<close>

definition strchr :: "bytes \<Rightarrow> char \<Rightarrow> nat option" where
  "strchr str c = memchr str c (length str)"

definition isspace :: "char \<Rightarrow> bool" where
  "isspace c = (c \<in> {CHR '' '', CHR 0x09, CHR 0x0A, CHR 0x0B, CHR 0x0C, CHR 0x0D})"

definition isdigit :: "char \<Rightarrow> bool" where
  "isdigit c = (48 \<le> (of_char c :: nat) \<and> (of_char c :: nat) \<le> 57)"

definition digit_value :: "char \<Rightarrow> int" where
  "digit_value c = of_char c - 48"

text \<open>
  \<open>atoi\<close>: leading white space, an optional sign, decimal digits. The behaviour is undefined when the
  value is not an \<open>int\<close>.
\<close>

definition digits_value :: "bytes \<Rightarrow> int" where
  "digits_value ds = fold (\<lambda>c v. 10 * v + digit_value c) ds 0"

definition INT_MAX :: int where
  "INT_MAX = 2 ^ 31 - 1"

definition atoi :: "bytes \<Rightarrow> int result" where
  "atoi str =
     (let t = dropWhile isspace str;
          (sign, ds) = (case t of
             [] \<Rightarrow> (1, [])
           | c # t' \<Rightarrow> if c = CHR ''-'' then (-1, t') else if c = CHR ''+'' then (1, t') else (1, t));
          v = sign * digits_value (takeWhile isdigit ds)
      in if v < - INT_MAX - 1 \<or> INT_MAX < v then Inl Undefined else Inr v)"

section \<open>Memory\<close>

text \<open>A pointer into a block, with its offset from the start of the block.\<close>

type_synonym bufptr = "(addr \<times> nat) option"

text \<open>The block from the pointer on.\<close>

definition block_from :: "heap \<Rightarrow> bufptr \<Rightarrow> bytes result" where
  "block_from h p =
     (case p of
        None \<Rightarrow> Inl NullDeref
      | Some (a, k) \<Rightarrow> (case h a of None \<Rightarrow> Inl BadAccess
                             | Some blk \<Rightarrow> if k \<le> length blk then Inr (drop k blk) else Inl BadAccess))"

definition string_at :: "heap \<Rightarrow> bufptr \<Rightarrow> bytes result" where
  "string_at h p = rbind (block_from h p) cstring"

text \<open>Storing bytes at an offset from the pointer.\<close>

definition put_bytes :: "heap \<Rightarrow> bufptr \<Rightarrow> int \<Rightarrow> bytes \<Rightarrow> heap result" where
  "put_bytes h p off bs =
     (case p of
        None \<Rightarrow> Inl NullDeref
      | Some (a, k) \<Rightarrow>
          (case h a of
             None \<Rightarrow> Inl BadAccess
           | Some blk \<Rightarrow>
               if 0 \<le> int k + off \<and> int k + off + int (length bs) \<le> int (length blk)
               then let i = nat (int k + off)
                    in Inr (h(a \<mapsto> take i blk @ bs @ drop (i + length bs) blk))
               else Inl BadAccess))"

text \<open>\<open>free\<close> of NULL does nothing; of anything but the start of an allocated block it is an error.\<close>

definition free :: "heap \<Rightarrow> bufptr \<Rightarrow> heap result" where
  "free h p =
     (case p of
        None \<Rightarrow> Inr h
      | Some (a, k) \<Rightarrow> if k = 0 \<and> h a \<noteq> None then Inr (h(a := None)) else Inl BadFree)"

section \<open>System calls\<close>

text \<open>
  \<^item> \<open>os_calloc w h n\<close>, \<open>os_realloc w h p n\<close>: the new world, the returned pointer, the new heap;
  \<^item> \<open>os_recv w s n\<close>: the bytes received, \<open>None\<close> for the result -1;
  \<^item> \<open>os_send w s bs\<close>, \<open>os_write w f bs\<close>: the returned count, or -1;
  \<^item> \<open>os_read w f n\<close>: the bytes read, \<open>None\<close> for the result -1;
  \<^item> \<open>os_open\<close>, \<open>os_lseek\<close>, \<open>os_ioctl\<close>: the returned value; \<open>os_ioctl\<close> is the call with the command
    \<open>AESDCHAR_IOCSEEKTO\<close>;
  \<^item> \<open>poll_exit w\<close>: whether the main thread has stored true in the thread's \<open>exit\<close> flag by then.
\<close>

record 'w os =
  os_calloc :: "'w \<Rightarrow> heap \<Rightarrow> nat \<Rightarrow> 'w \<times> ptr \<times> heap"
  os_realloc :: "'w \<Rightarrow> heap \<Rightarrow> addr \<Rightarrow> nat \<Rightarrow> 'w \<times> ptr \<times> heap"
  os_recv :: "'w \<Rightarrow> int \<Rightarrow> nat \<Rightarrow> 'w \<times> bytes option"
  os_send :: "'w \<Rightarrow> int \<Rightarrow> bytes \<Rightarrow> 'w \<times> int"
  os_open :: "'w \<Rightarrow> 'w \<times> int"
  os_close :: "'w \<Rightarrow> int \<Rightarrow> 'w"
  os_write :: "'w \<Rightarrow> int \<Rightarrow> bytes \<Rightarrow> 'w \<times> int"
  os_read :: "'w \<Rightarrow> int \<Rightarrow> nat \<Rightarrow> 'w \<times> bytes option"
  os_lseek :: "'w \<Rightarrow> int \<Rightarrow> int \<Rightarrow> origin \<Rightarrow> 'w \<times> int"
  os_ioctl :: "'w \<Rightarrow> int \<Rightarrow> aesd_seekto \<Rightarrow> 'w \<times> int"
  poll_exit :: "'w \<Rightarrow> bool"

text \<open>
  The documented contracts of the allocator: NULL leaves the heap alone; \<open>calloc\<close> returns a fresh
  block of zero bytes; \<open>realloc\<close> keeps the contents and leaves what it adds unspecified.
\<close>

definition alloc_ok :: "'w os \<Rightarrow> bool" where
  "alloc_ok os \<longleftrightarrow>
     (\<forall>w h n w' p h'. os_calloc os w h n = (w', p, h') \<longrightarrow>
        (case p of None \<Rightarrow> h' = h
         | Some a \<Rightarrow> h a = None \<and> h' = h(a \<mapsto> replicate n NUL))) \<and>
     (\<forall>w h b old n w' p h'. h b = Some old \<longrightarrow> os_realloc os w h b n = (w', p, h') \<longrightarrow>
        (case p of None \<Rightarrow> h' = h
         | Some a \<Rightarrow> (a = b \<or> h a = None) \<and>
             (\<exists>bs. length bs = n \<and> take (length old) bs = take n old \<and>
                   h' = (h(b := None))(a \<mapsto> bs))))"

definition recv_ok :: "'w os \<Rightarrow> bool" where
  "recv_ok os \<longleftrightarrow> (\<forall>w s n w' bs. os_recv os w s n = (w', Some bs) \<longrightarrow> length bs \<le> n)"

section \<open>Facts\<close>

lemma strchr_None_iff: "strchr str c = None \<longleftrightarrow> c \<notin> set str"
  by (simp add: strchr_def memchr_None_iff)

lemma alloc_callocD:
  "alloc_ok os \<Longrightarrow> os_calloc os w h n = (w', Some a, h') \<Longrightarrow>
     h a = None \<and> h' = h(a \<mapsto> replicate n NUL)"
  by (fastforce simp: alloc_ok_def)

lemma alloc_callocN: "alloc_ok os \<Longrightarrow> os_calloc os w h n = (w', None, h') \<Longrightarrow> h' = h"
  by (fastforce simp: alloc_ok_def)

lemma alloc_reallocN:
  "alloc_ok os \<Longrightarrow> h b = Some old \<Longrightarrow> os_realloc os w h b n = (w', None, h') \<Longrightarrow> h' = h"
  by (fastforce simp: alloc_ok_def)

lemma alloc_reallocD:
  assumes "alloc_ok os" "h b = Some old" "os_realloc os w h b n = (w', Some a, h')"
  obtains bs where "a = b \<or> h a = None" "length bs = n" "take (length old) bs = take n old"
    "h' = (h(b := None))(a \<mapsto> bs)"
proof -
  have "case Some a of None \<Rightarrow> h' = h
         | Some a \<Rightarrow> (a = b \<or> h a = None) \<and>
             (\<exists>bs. length bs = n \<and> take (length old) bs = take n old \<and>
                   h' = (h(b := None))(a \<mapsto> bs))"
    using assms unfolding alloc_ok_def by blast
  then show thesis using that by auto
qed

lemma cstring_append:
  "NUL \<notin> set str \<Longrightarrow> cstring (str @ NUL # rest) = Inr str"
  by (induction str) (auto simp: cstring_def split: if_splits)

lemma atoi_examples:
  "atoi ''10,3'' = Inr 10" "atoi '' -7'' = Inr (-7)" "atoi ''x'' = Inr 0"
  by (simp_all add: atoi_def isspace_def isdigit_def digits_value_def digit_value_def INT_MAX_def)

end
