(* ===== verification/Server_Process.thy ===== *)
theory Server_Process
  imports Server_OS
begin

text \<open>
  The connection thread of the socket server: \<open>process\<close> and \<open>freeBuffers\<close> of
  \<open>server/aesdsocket.c\<close>, for the build with the character device. A thread works on the
  process-wide heap, mutex and file descriptor, on its thread data with the mutex that
  \<open>mutexExit\<close> points to, and on its own local variables; all are in the record \<open>thread\<close>. The two endless loops and the echo loop are partial functions: a thread that
  never returns has the value \<open>None\<close>. Taking a mutex that is held does not return, since
  nothing else runs inside a call of \<open>process\<close>; log messages are not modelled.
\<close>

section \<open>Data\<close>

definition kBufferStartLength :: int where
  "kBufferStartLength = 128"

definition kIOCtrlStr :: bytes where
  "kIOCtrlStr = ''AESDCHAR_IOCSEEKTO:''"

record socketThreadData =
  mutexExit :: ptr
  cfd :: int
  complete :: bool
  exit :: bool

record 'w thread =
  world :: 'w
  mem :: heap
  global_mutex :: bool
  global_fd :: int
  threadData :: socketThreadData
  exit_mutex :: bool
  recvBuffer :: bufptr
  sendBuffer :: ptr
  bufferSize :: int
  bufferIndex :: int
  ioctlCmdRecv :: bool

text \<open>How a part of the loop body is left: to the next part or round, or by returning.\<close>

datatype 't outcome = Continue 't | Again 't | Returned 't

section \<open>Returning\<close>

definition freeBuffers :: "heap \<Rightarrow> bufptr \<Rightarrow> ptr \<Rightarrow> heap result" where
  "freeBuffers h recvBuf sendBuf =
     rbind (if recvBuf \<noteq> None then free h recvBuf else Inr h) (\<lambda>h1.
     (case sendBuf of None \<Rightarrow> Inr h1 | Some a \<Rightarrow> free h1 (Some (a, 0))))"

text \<open>\<open>freeBuffers(recvBuffer, sendBuffer); threadData->complete = true; return threadData;\<close>\<close>

definition return_complete :: "'w thread \<Rightarrow> 'w thread outcome result" where
  "return_complete s =
     rbind (freeBuffers (mem s) (recvBuffer s) (sendBuffer s)) (\<lambda>h.
     Inr (Returned (s\<lparr>mem := h, threadData := (threadData s)\<lparr>complete := True\<rparr>\<rparr>)))"

section \<open>Receiving a message\<close>

definition start_message :: "'w os \<Rightarrow> 'w thread \<Rightarrow> 'w thread outcome result" where
  "start_message os s =
     (let (w, p, h) = os_calloc os (world s) (mem s) (nat kBufferStartLength);
          s1 = s\<lparr>world := w, mem := h, recvBuffer := map_option (\<lambda>a. (a, 0)) p\<rparr>
      in if p = None then return_complete s1
         else Inr (Continue (s1\<lparr>bufferSize := kBufferStartLength, bufferIndex := 0\<rparr>)))"

text \<open>The end of a round of the receive loop: terminate the buffer, look for a newline.\<close>

definition check_newline :: "'w thread \<Rightarrow> 'w thread outcome result" where
  "check_newline s =
     rbind (put_bytes (mem s) (recvBuffer s) (bufferSize s - 1) [NUL]) (\<lambda>h.
     rbind (string_at h (recvBuffer s)) (\<lambda>str.
     Inr (if strchr str nl \<noteq> None then Continue (s\<lparr>mem := h\<rparr>) else Again (s\<lparr>mem := h\<rparr>))))"

text \<open>The buffer was filled: enlarge it.\<close>

definition grow_buffer :: "'w os \<Rightarrow> 'w thread \<Rightarrow> 'w thread outcome result" where
  "grow_buffer os s =
     (if bufferSize s + kBufferStartLength > INT_MAX then Inl Undefined
      else
        let s1 = s\<lparr>bufferSize := bufferSize s + kBufferStartLength\<rparr>;
            s2 = s1\<lparr>bufferIndex := bufferSize s1 - kBufferStartLength - 1\<rparr>
        in (case recvBuffer s2 of
              None \<Rightarrow> Inl NullDeref
            | Some (a, k) \<Rightarrow>
                if k \<noteq> 0 then Inl BadFree
                else
                  let (w, tempBuffer, h) = os_realloc os (world s2) (mem s2) a (nat (bufferSize s2));
                      s3 = s2\<lparr>world := w, mem := h\<rparr>
                  in (case tempBuffer of
                        None \<Rightarrow> return_complete s3
                      | Some b \<Rightarrow> check_newline (s3\<lparr>recvBuffer := Some (b, 0)\<rparr>))))"

text \<open>
  One round of the receive loop: the test of the exit flag, then \<open>recv\<close> and the handling of the bytes.
\<close>

definition exit_check :: "'w os \<Rightarrow> 'w thread \<Rightarrow> 'w thread outcome result" where
  "exit_check os s =
     (if poll_exit os (world s) then
        rbind (freeBuffers (mem s) (recvBuffer s) (sendBuffer s)) (\<lambda>h.
        Inr (Returned (s\<lparr>mem := h, threadData := (threadData s)\<lparr>complete := True\<rparr>,
                         exit_mutex := False\<rparr>)))
      else Inr (Continue s))"

definition receive :: "'w os \<Rightarrow> 'w thread \<Rightarrow> 'w thread outcome result" where
  "receive os s =
     (let room = bufferSize s - bufferIndex s - 1;
          (w, r) = os_recv os (world s) (cfd (threadData s)) (nat room);
          s1 = s\<lparr>world := w\<rparr>
      in (case r of
            None \<Rightarrow> return_complete s1
          | Some bs \<Rightarrow>
              rbind (put_bytes (mem s1) (recvBuffer s1) (bufferIndex s1) bs) (\<lambda>h.
              let s2 = s1\<lparr>mem := h\<rparr>;
                  bytesRecv = int (length bs)
              in if bytesRecv = room then grow_buffer os s2
                 else check_newline (s2\<lparr>bufferIndex := bufferIndex s2 + bytesRecv\<rparr>))))"

definition recv_round :: "'w os \<Rightarrow> 'w thread \<Rightarrow> 'w thread outcome result" where
  "recv_round os s =
     rbind (exit_check os s) (\<lambda>r. case r of Continue s1 \<Rightarrow> receive os s1 | _ \<Rightarrow> Inr r)"

partial_function (option) recv_loop :: "'w os \<Rightarrow> 'w thread \<Rightarrow> 'w thread outcome run" where
  "recv_loop os s =
     (case recv_round os s of
        Inl e \<Rightarrow> Some (Inl e)
      | Inr (Again s') \<Rightarrow> recv_loop os s'
      | Inr (Continue s') \<Rightarrow> Some (Inr (Continue s'))
      | Inr (Returned s') \<Rightarrow> Some (Inr (Returned s')))"

section \<open>Handling a message\<close>

text \<open>
  The arguments of the seek command behind its name: two numbers with a comma between them. Without
  a comma \<open>strchr\<close> returns NULL, which is incremented and read.
\<close>

definition parse_seekto :: "bytes \<Rightarrow> aesd_seekto result" where
  "parse_seekto ioctlCmdStr =
     rbind (atoi ioctlCmdStr) (\<lambda>cmd.
     (case strchr ioctlCmdStr CHR '','' of
        None \<Rightarrow> Inl NullDeref
      | Some i \<Rightarrow>
          rbind (atoi (drop (i + 1) ioctlCmdStr)) (\<lambda>off.
          Inr \<lparr>write_cmd = word_of_int cmd, write_cmd_offset = word_of_int off\<rparr>)))"

text \<open>
  The seek command. \<open>recvBuffer\<close> itself is moved past the command name. A failed \<open>ioctl\<close> ends the
  thread.
\<close>

definition seek_command :: "'w os \<Rightarrow> 'w thread \<Rightarrow> bytes \<Rightarrow> 'w thread outcome result" where
  "seek_command os s str =
     (let s1 = s\<lparr>ioctlCmdRecv := True,
                 recvBuffer := map_option (\<lambda>(a, k). (a, k + length kIOCtrlStr)) (recvBuffer s)\<rparr>
      in rbind (parse_seekto (drop (length kIOCtrlStr) str)) (\<lambda>seekto.
         let (w, rc) = os_ioctl os (world s1) (global_fd s1) seekto;
             s2 = s1\<lparr>world := w\<rparr>
         in if rc \<noteq> 0
            then return_complete (s2\<lparr>world := os_close os (world s2) (global_fd s2),
                                     global_mutex := False\<rparr>)
            else Inr (Continue s2)))"

definition write_command :: "'w os \<Rightarrow> 'w thread \<Rightarrow> bytes \<Rightarrow> 'w thread outcome result" where
  "write_command os s str =
     (let (w, bytesSent) = os_write os (world s) (global_fd s) str;
          s1 = s\<lparr>world := w\<rparr>
      in if bytesSent = -1 then return_complete s1 else Inr (Continue s1))"

text \<open>A value of type \<open>off_t\<close> or \<open>int\<close>, assigned to an \<open>int\<close> or converted to \<open>size_t\<close>.\<close>

definition to_int :: "int \<Rightarrow> int" where
  "to_int v = sint (word_of_int v :: u32)"

definition to_size_t :: "int \<Rightarrow> nat" where
  "to_size_t v = unat (word_of_int v :: u64)"

text \<open>
  Positioning the device: the start of the reply, the size of the device, the send buffer.
  The result carries \<open>bytesProcessed\<close> when the thread goes on.
\<close>

definition position_reply :: "'w os \<Rightarrow> 'w thread \<Rightarrow> ('w thread outcome \<times> int) result" where
  "position_reply os s =
     (let (s1, offset) =
            (if ioctlCmdRecv s
             then (let (w, p) = os_lseek os (world s) (global_fd s) 0 SEEK_CUR in (s\<lparr>world := w\<rparr>, p))
             else (s, 0));
          (w2, end_pos) = os_lseek os (world s1) (global_fd s1) 0 SEEK_END;
          bytesProcessed = to_int end_pos;
          s2 = s1\<lparr>world := w2\<rparr>
      in if bytesProcessed = -1
         then rbind (return_complete (s2\<lparr>world := os_close os (world s2) (global_fd s2),
                                         global_mutex := False\<rparr>))
                (\<lambda>r. Inr (r, bytesProcessed))
         else
           let (w3, _) = os_lseek os (world s2) (global_fd s2) offset SEEK_SET;
               (w4, p, h) = os_calloc os w3 (mem s2) (to_size_t bytesProcessed);
               s3 = s2\<lparr>world := w4, mem := h, sendBuffer := p\<rparr>
           in if p = None then rbind (return_complete s3) (\<lambda>r. Inr (r, bytesProcessed))
              else Inr (Continue s3, bytesProcessed))"

text \<open>One round of the echo loop: \<open>Continue\<close> is its end.\<close>

definition echo_round :: "'w os \<Rightarrow> int \<Rightarrow> 'w thread \<Rightarrow> 'w thread outcome result" where
  "echo_round os bytesProcessed s =
     (let (w, r) = os_read os (world s) (global_fd s) (to_size_t bytesProcessed);
          s1 = s\<lparr>world := w\<rparr>
      in (case r of
            None \<Rightarrow> return_complete s1
          | Some bs \<Rightarrow>
              rbind (put_bytes (mem s1) (map_option (\<lambda>a. (a, 0)) (sendBuffer s1)) 0 bs) (\<lambda>h.
              let s2 = s1\<lparr>mem := h\<rparr>
              in if bs = [] then Inr (Continue s2)
                 else
                   rbind (block_from (mem s2) (map_option (\<lambda>a. (a, 0)) (sendBuffer s2))) (\<lambda>blk.
                   let (w', bytesSent) =
                         os_send os (world s2) (cfd (threadData s2)) (take (length bs) blk);
                       s3 = s2\<lparr>world := w'\<rparr>
                   in if bytesSent = -1 then return_complete s3 else Inr (Again s3)))))"

partial_function (option) echo_loop ::
  "'w os \<Rightarrow> int \<Rightarrow> 'w thread \<Rightarrow> 'w thread outcome run" where
  "echo_loop os bytesProcessed s =
     (case echo_round os bytesProcessed s of
        Inl e \<Rightarrow> Some (Inl e)
      | Inr (Again s') \<Rightarrow> echo_loop os bytesProcessed s'
      | Inr (Continue s') \<Rightarrow> Some (Inr (Continue s'))
      | Inr (Returned s') \<Rightarrow> Some (Inr (Returned s')))"

text \<open>The reply: from the positioning of the device to \<open>pthread_mutex_unlock\<close>.\<close>

definition reply :: "'w os \<Rightarrow> 'w thread \<Rightarrow> 'w thread outcome run" where
  "reply os s =
     obind (Some (position_reply os s)) (\<lambda>(r1, bytesProcessed).
     (case r1 of
        Continue s1 \<Rightarrow>
          obind (echo_loop os bytesProcessed s1) (\<lambda>r2.
          (case r2 of
             Continue s2 \<Rightarrow>
               Some (Inr (Continue (s2\<lparr>world := os_close os (world s2) (global_fd s2),
                                       global_mutex := False\<rparr>)))
           | _ \<Rightarrow> Some (Inr r2)))
      | _ \<Rightarrow> Some (Inr r1)))"

text \<open>The exchange with the device, from \<open>pthread_mutex_lock\<close> on.\<close>

definition exchange :: "'w os \<Rightarrow> 'w thread \<Rightarrow> 'w thread outcome run" where
  "exchange os s =
     (if global_mutex s then None
      else
        let (w, f) = os_open os (world s);
            s1 = s\<lparr>global_mutex := True, world := w, global_fd := f\<rparr>
        in obind (Some (string_at (mem s1) (recvBuffer s1))) (\<lambda>str.
           obind (Some (if take (length kIOCtrlStr) str = kIOCtrlStr
                        then seek_command os s1 str else write_command os s1 str)) (\<lambda>r.
           (case r of Continue s2 \<Rightarrow> reply os s2 | _ \<Rightarrow> Some (Inr r)))))"

section \<open>The thread\<close>

text \<open>The body of the outer loop and the loop.\<close>

definition process_round :: "'w os \<Rightarrow> 'w thread \<Rightarrow> 'w thread outcome run" where
  "process_round os s =
     obind (Some (start_message os s)) (\<lambda>r.
     (case r of
        Continue s1 \<Rightarrow>
          obind (recv_loop os s1) (\<lambda>r2.
          (case r2 of Continue s2 \<Rightarrow> exchange os s2 | _ \<Rightarrow> Some (Inr r2)))
      | _ \<Rightarrow> Some (Inr r)))"

partial_function (option) process_loop :: "'w os \<Rightarrow> 'w thread \<Rightarrow> 'w thread run" where
  "process_loop os s =
     (case process_round os s of
        None \<Rightarrow> None
      | Some (Inl e) \<Rightarrow> Some (Inl e)
      | Some (Inr (Continue s')) \<Rightarrow> process_loop os s'
      | Some (Inr (Again s')) \<Rightarrow> process_loop os s'
      | Some (Inr (Returned s')) \<Rightarrow> Some (Inr s'))"

text \<open>The thread function: the local variables start at NULL, 0 and false.\<close>

definition process ::
  "'w os \<Rightarrow> 'w \<Rightarrow> heap \<Rightarrow> bool \<Rightarrow> int \<Rightarrow> socketThreadData \<Rightarrow> bool \<Rightarrow> 'w thread run" where
  "process os w h mtx f td mtxExit =
     process_loop os
       \<lparr>world = w, mem = h, global_mutex = mtx, global_fd = f, threadData = td,
        exit_mutex = mtxExit, recvBuffer = None, sendBuffer = None, bufferSize = 0, bufferIndex = 0,
        ioctlCmdRecv = False\<rparr>"

end
