(* ===== verification/Server_Main.thy ===== *)
theory Server_Main
  imports Slist Server_Process
begin

text \<open>
  The main thread of the socket server: \<open>main\<close>, \<open>cleanup\<close> and \<open>signalHandler\<close> of
  \<open>server/aesdsocket.c\<close>, for the build with the character device. The connections are the
  nodes of an \<open>SLIST\<close>; a node, its thread data, its thread handle and its mutex are separately
  allocated blocks, one map per type. Log messages are not modelled.

  System calls are the record \<open>main_os\<close>, a parameter of the definitions. What other threads and the
  signal handler store is seen through it: \<open>graceful w\<close> is the value of \<open>gracefullyExit\<close> that is
  read in world \<open>w\<close>, and \<open>seen_complete w t\<close> is the value that the pass over the list which starts
  in \<open>w\<close> reads, once, from the \<open>complete\<close> flag of thread data \<open>t\<close>.
\<close>

section \<open>Data\<close>

definition kPort :: u16 where
  "kPort = 9000"

record slistData =
  node_thread :: ptr
  node_threadData :: ptr
  clientAddr :: u32

datatype accept_result = Accepted int u32 | Would_block | Accept_error

record 'w main_os =
  mo_socket :: "'w \<Rightarrow> 'w \<times> int"
  mo_setsockopt :: "'w \<Rightarrow> int \<Rightarrow> 'w \<times> int"
  mo_nonblock :: "'w \<Rightarrow> int \<Rightarrow> 'w"
  mo_bind :: "'w \<Rightarrow> int \<Rightarrow> u16 \<Rightarrow> 'w \<times> int"
  mo_daemon :: "'w \<Rightarrow> 'w \<times> int"
  mo_sigint :: "'w \<Rightarrow> 'w \<times> bool"
  mo_sigterm :: "'w \<Rightarrow> 'w \<times> bool"
  mo_listen :: "'w \<Rightarrow> int \<Rightarrow> 'w \<times> int"
  mo_accept :: "'w \<Rightarrow> int \<Rightarrow> 'w \<times> accept_result"
  mo_ntop :: "'w \<Rightarrow> u32 \<Rightarrow> bool"
  mo_malloc :: "'w \<Rightarrow> addr set \<Rightarrow> 'w \<times> ptr"
  mo_create :: "'w \<Rightarrow> addr \<Rightarrow> addr \<Rightarrow> 'w \<times> bool"
  mo_join :: "'w \<Rightarrow> addr \<Rightarrow> 'w option"
  mo_close :: "'w \<Rightarrow> int \<Rightarrow> 'w"
  graceful :: "'w \<Rightarrow> bool"
  seen_complete :: "'w \<Rightarrow> addr \<Rightarrow> bool"
  seen_fd :: "'w \<Rightarrow> int"

text \<open>
  The state of the main thread. \<open>threads\<close> and \<open>mutexes\<close> hold the blocks of type \<open>pthread_t\<close> and
  \<open>pthread_mutex_t\<close>: whether \<open>pthread_create\<close> has stored a thread in the handle (when it fails, its
  contents are undefined), and whether the mutex is held. The link field of the nodes is in \<open>conns\<close>, whose head variable has address 0.
\<close>

record 'w main_state =
  m_world :: 'w
  sfd :: int
  conns :: slist_mem
  nodes :: "addr \<rightharpoonup> slistData"
  tdatas :: "addr \<rightharpoonup> socketThreadData"
  threads :: "addr \<rightharpoonup> bool"
  mutexes :: "addr \<rightharpoonup> bool"

text \<open>The end of a part of \<open>main\<close>: it goes on, or the process exits with a status.\<close>

datatype 's main_end = Stopped 's | Exited int 's

section \<open>Signals and cleanup\<close>

text \<open>The handler stores true in the flag it is given.\<close>

definition signalHandler :: "int \<Rightarrow> bool \<Rightarrow> bool" where
  "signalHandler signo gracefullyExit = True"

definition cleanup :: "'w main_os \<Rightarrow> 'w main_state \<Rightarrow> 'w main_state" where
  "cleanup os s =
     (let w1 = (if sfd s \<noteq> -1 then mo_close os (m_world s) (sfd s) else m_world s);
          w2 = (if seen_fd os w1 \<noteq> -1 then mo_close os w1 (seen_fd os w1) else w1)
      in s\<lparr>m_world := w2\<rparr>)"

definition exit_failure :: "'w main_os \<Rightarrow> 'w main_state \<Rightarrow> 'w main_state main_end" where
  "exit_failure os s = Exited 1 (cleanup os s)"

section \<open>Start\<close>

text \<open>The list head and the socket; \<open>args\<close> is \<open>argv\<close> from index 1 on.\<close>

definition main_setup ::
  "'w main_os \<Rightarrow> bytes list \<Rightarrow> 'w main_state \<Rightarrow> 'w main_state main_end" where
  "main_setup os args s =
     (let s0 = s\<lparr>conns := SLIST_INIT (conns s) 0\<rparr>;
          (w1, f) = mo_socket os (m_world s0);
          s1 = s0\<lparr>m_world := w1, sfd := f\<rparr>
      in if f = -1 then exit_failure os s1
         else
      let (w2, rc2) = mo_setsockopt os w1 f;
          s2 = s1\<lparr>m_world := w2\<rparr>
      in if rc2 = -1 then exit_failure os s2
         else
      let w3 = mo_nonblock os w2 f;
          (w4, rc4) = mo_bind os w3 f kPort;
          s4 = s2\<lparr>m_world := w4\<rparr>
      in if rc4 < 0 then exit_failure os s4
         else
      let w5 = (if length args = 1 \<and> hd args = ''-d'' then fst (mo_daemon os w4) else w4);
          (w6, ok6) = mo_sigint os w5;
          s6 = s4\<lparr>m_world := w6\<rparr>
      in if \<not> ok6 then exit_failure os s6
         else
      let (w7, ok7) = mo_sigterm os w6;
          s7 = s6\<lparr>m_world := w7\<rparr>
      in if \<not> ok7 then exit_failure os s7
         else
      let (w8, rc8) = mo_listen os w7 f;
          s8 = s7\<lparr>m_world := w8\<rparr>
      in if rc8 \<noteq> 0 then exit_failure os s8 else Stopped s8)"

section \<open>A new connection\<close>

text \<open>The addresses of all blocks in use, for the allocator.\<close>

definition used :: "'w main_state \<Rightarrow> addr set" where
  "used s = dom (nodes s) \<union> dom (tdatas s) \<union> dom (threads s) \<union> dom (mutexes s)"

definition new_threadData :: "'w main_os \<Rightarrow> int \<Rightarrow> 'w main_state \<Rightarrow> (addr \<times> 'w main_state) result" where
  "new_threadData os c s =
     (let (w1, p) = mo_malloc os (m_world s) (used s) in
      case p of
        None \<Rightarrow> Inl NullDeref
      | Some t \<Rightarrow>
          let td = \<lparr>mutexExit = None, cfd = c, complete = False, exit = False\<rparr>;
              s1 = s\<lparr>m_world := w1, tdatas := (tdatas s)(t \<mapsto> td)\<rparr>;
              (w2, q) = mo_malloc os w1 (used s1)
          in (case q of
                None \<Rightarrow> Inl NullDeref
              | Some x \<Rightarrow>
                  Inr (t, s1\<lparr>m_world := w2, mutexes := (mutexes s1)(x \<mapsto> False),
                             tdatas := (tdatas s1)(t \<mapsto> td\<lparr>mutexExit := Some x\<rparr>)\<rparr>)))"

definition new_node :: "'w main_os \<Rightarrow> addr \<Rightarrow> u32 \<Rightarrow> 'w main_state \<Rightarrow> 'w main_state result" where
  "new_node os t ca s =
     (let (w1, p) = mo_malloc os (m_world s) (used s) in
      case p of
        None \<Rightarrow> Inl NullDeref
      | Some a \<Rightarrow>
          let s1 = s\<lparr>m_world := w1,
                     nodes := (nodes s)(a \<mapsto> \<lparr>node_thread = None, node_threadData = None, clientAddr = 0\<rparr>),
                     conns := (conns s)\<lparr>sle_next := (sle_next (conns s))(a \<mapsto> None)\<rparr>\<rparr>;
              (w2, q) = mo_malloc os w1 (used s1)
          in (case q of
                None \<Rightarrow> Inl NullDeref
              | Some h \<Rightarrow>
                  let s2 = s1\<lparr>m_world := w2, threads := (threads s1)(h \<mapsto> False),
                              nodes := (nodes s1)(a \<mapsto> \<lparr>node_thread = Some h, node_threadData = Some t,
                                                      clientAddr = ca\<rparr>)\<rparr>
                  in rbind (SLIST_INSERT_HEAD (conns s2) 0 (Some a)) (\<lambda>m.
                     let (w3, created) = mo_create os w2 h t
                     in Inr (s2\<lparr>conns := m, m_world := w3, threads := (threads s2)(h \<mapsto> created)\<rparr>))))"

section \<open>Reaping\<close>

text \<open>
  Join the thread of a node, close its connection, take the node out of the list and free its four
  blocks. \<open>pthread_join\<close> may never return; joining a handle in which no thread was stored is undefined.
\<close>

definition free_block :: "(addr \<rightharpoonup> 'v) \<Rightarrow> ptr \<Rightarrow> (addr \<rightharpoonup> 'v) result" where
  "free_block m p =
     (case p of None \<Rightarrow> Inr m | Some a \<Rightarrow> if m a = None then Inl BadFree else Inr (m(a := None)))"

definition remove_node :: "'w main_os \<Rightarrow> addr \<Rightarrow> 'w main_state \<Rightarrow> 'w main_state run" where
  "remove_node os a s =
     obind (Some (deref (nodes s) (Some a))) (\<lambda>node.
     obind (Some (deref (threads s) (node_thread node))) (\<lambda>created.
     if \<not> created then Some (Inl Undefined) else
     (case mo_join os (m_world s) (the (node_thread node)) of
        None \<Rightarrow> None
      | Some w \<Rightarrow>
          obind (Some (deref (tdatas s) (node_threadData node))) (\<lambda>td.
          let s1 = s\<lparr>m_world := mo_close os w (cfd td)\<rparr> in
          obind (SLIST_REMOVE (conns s1) 0 (Some a)) (\<lambda>m.
          Some (
            rbind (free_block (mutexes s1) (mutexExit td)) (\<lambda>mx.
            rbind (free_block (tdatas s1) (node_threadData node)) (\<lambda>ts.
            rbind (free_block (threads s1) (node_thread node)) (\<lambda>th.
            rbind (free_block (nodes s1) (Some a)) (\<lambda>ns.
            Inr (s1\<lparr>conns := m\<lparr>sle_next := (sle_next m)(a := None)\<rparr>, mutexes := mx,
                    tdatas := ts, threads := th, nodes := ns\<rparr>)))))))))))"

text \<open>The pass over the list after a new connection.\<close>

definition reap_node ::
  "'w main_os \<Rightarrow> (addr \<Rightarrow> bool) \<Rightarrow> addr \<Rightarrow> 'w main_state \<Rightarrow> 'w main_state run" where
  "reap_node os flag a s =
     obind (Some (deref (nodes s) (Some a))) (\<lambda>node.
     obind (Some (deref (tdatas s) (node_threadData node))) (\<lambda>_.
     if flag (the (node_threadData node)) then remove_node os a s else Some (Inr s)))"

definition reap :: "'w main_os \<Rightarrow> 'w main_state \<Rightarrow> 'w main_state run" where
  "reap os s = SLIST_FOREACH_SAFE conns 0 (reap_node os (seen_complete os (m_world s))) s"

section \<open>The accept loop\<close>

definition accept_round :: "'w main_os \<Rightarrow> 'w main_state \<Rightarrow> 'w main_state main_end run" where
  "accept_round os s =
     (let (w, r) = mo_accept os (m_world s) (sfd s);
          s1 = s\<lparr>m_world := w\<rparr>
      in (case r of
            Would_block \<Rightarrow> Some (Inr (Stopped s1))
          | Accept_error \<Rightarrow> Some (Inr (exit_failure os s1))
          | Accepted c ca \<Rightarrow>
              if \<not> mo_ntop os w ca then Some (Inr (exit_failure os s1))
              else
                obind (Some (new_threadData os c s1)) (\<lambda>(t, s2).
                obind (Some (new_node os t ca s2)) (\<lambda>s3.
                obind (reap os s3) (\<lambda>s4. Some (Inr (Stopped s4)))))))"

partial_function (option) accept_loop ::
  "'w main_os \<Rightarrow> 'w main_state \<Rightarrow> 'w main_state main_end run" where
  "accept_loop os s =
     (if graceful os (m_world s) then Some (Inr (Stopped s))
      else (case accept_round os s of
              None \<Rightarrow> None
            | Some (Inl e) \<Rightarrow> Some (Inl e)
            | Some (Inr (Exited n s')) \<Rightarrow> Some (Inr (Exited n s'))
            | Some (Inr (Stopped s')) \<Rightarrow> accept_loop os s'))"

section \<open>Shutdown\<close>

text \<open>Ask every thread to exit, under its mutex; taking a mutex that is held does not return.\<close>

definition request_exit :: "addr \<Rightarrow> 'w main_state \<Rightarrow> 'w main_state run" where
  "request_exit a s =
     obind (Some (deref (nodes s) (Some a))) (\<lambda>node.
     obind (Some (deref (tdatas s) (node_threadData node))) (\<lambda>td.
     obind (Some (deref (mutexes s) (mutexExit td))) (\<lambda>held.
     if held then None
     else Some (Inr (s\<lparr>tdatas := (tdatas s)(the (node_threadData node) \<mapsto> td\<lparr>exit := True\<rparr>)\<rparr>)))))"

definition shutdown :: "'w main_os \<Rightarrow> 'w main_state \<Rightarrow> 'w main_state main_end run" where
  "shutdown os s =
     obind (SLIST_FOREACH conns 0 request_exit s) (\<lambda>s1.
     obind (SLIST_FOREACH_SAFE conns 0 (remove_node os) s1) (\<lambda>s2.
     Some (Inr (Exited 0 (cleanup os s2)))))"

definition main_server ::
  "'w main_os \<Rightarrow> bytes list \<Rightarrow> 'w main_state \<Rightarrow> 'w main_state main_end run" where
  "main_server os args s =
     (case main_setup os args s of
        Exited n s1 \<Rightarrow> Some (Inr (Exited n s1))
      | Stopped s1 \<Rightarrow>
          obind (accept_loop os s1) (\<lambda>r.
          (case r of Exited n s2 \<Rightarrow> Some (Inr (Exited n s2)) | Stopped s2 \<Rightarrow> shutdown os s2)))"

end
