(* ===== verification/Server_Conns.thy ===== *)
theory Server_Conns
  imports Server_Main
begin

text \<open>
  The connections of the main thread: the invariant that ties the list, the nodes, the thread
  data, the thread handles and the mutexes together, that every part of \<open>main\<close> keeps it, what the
  reaping pass collects and what the shutdown leaves.
\<close>

section \<open>The invariant\<close>

text \<open>A connection: the addresses of its four blocks, its socket, and whether its thread could be created.\<close>

record conn =
  c_node :: addr
  c_td :: addr
  c_mx :: addr
  c_th :: addr
  c_cfd :: int
  c_made :: bool

definition conn_ok :: "'w main_state \<Rightarrow> conn \<Rightarrow> bool" where
  "conn_ok s c \<longleftrightarrow>
     (\<exists>node td. nodes s (c_node c) = Some node \<and> node_thread node = Some (c_th c) \<and>
        node_threadData node = Some (c_td c) \<and> tdatas s (c_td c) = Some td \<and>
        mutexExit td = Some (c_mx c) \<and> cfd td = c_cfd c \<and>
        threads s (c_th c) = Some (c_made c) \<and> mutexes s (c_mx c) = Some False)"

text \<open>
  The list holds exactly the connections \<open>cs\<close>, no two share a block, and there are no other blocks.
\<close>

definition main_inv :: "'w main_state \<Rightarrow> conn list \<Rightarrow> bool" where
  "main_inv s cs \<longleftrightarrow>
     slist_rep (conns s) 0 (map c_node cs) \<and> dom (sle_next (conns s)) = c_node ` set cs \<and>
     dom (nodes s) = c_node ` set cs \<and> dom (tdatas s) = c_td ` set cs \<and>
     dom (threads s) = c_th ` set cs \<and> dom (mutexes s) = c_mx ` set cs \<and>
     distinct (map c_td cs) \<and> distinct (map c_th cs) \<and> distinct (map c_mx cs) \<and>
     (\<forall>c\<in>set cs. conn_ok s c)"

text \<open>The world after the threads of the connections \<open>cs\<close> were joined and their sockets closed.\<close>

fun closed_world :: "'w main_os \<Rightarrow> conn list \<Rightarrow> 'w \<Rightarrow> 'w" where
  "closed_world os [] w = w"
| "closed_world os (c # cs) w =
     closed_world os cs (mo_close os (the (mo_join os w (c_th c))) (c_cfd c))"

text \<open>
  The contracts: a connection has a thread and joining it returns, fresh blocks are not in use,
  allocations succeed, threads can be created.
\<close>

definition joins :: "'w main_os \<Rightarrow> conn list \<Rightarrow> bool" where
  "joins os cs \<longleftrightarrow> (\<forall>c\<in>set cs. c_made c \<and> (\<forall>w. mo_join os w (c_th c) \<noteq> None))"

definition malloc_ok :: "'w main_os \<Rightarrow> bool" where
  "malloc_ok os \<longleftrightarrow> (\<forall>w U w' a. mo_malloc os w U = (w', Some a) \<longrightarrow> a \<notin> U)"

definition malloc_succeeds :: "'w main_os \<Rightarrow> bool" where
  "malloc_succeeds os \<longleftrightarrow> (\<forall>w U. finite U \<longrightarrow> snd (mo_malloc os w U) \<noteq> None)"

definition create_succeeds :: "'w main_os \<Rightarrow> bool" where
  "create_succeeds os \<longleftrightarrow> (\<forall>w h t. snd (mo_create os w h t))"

text \<open>The two faults of the main thread, and the resource that was refused.\<close>

definition out_of_resources :: "'w main_os \<Rightarrow> error \<Rightarrow> bool" where
  "out_of_resources os e \<longleftrightarrow>
     e = NullDeref \<and> \<not> malloc_succeeds os \<or> e = Undefined \<and> \<not> create_succeeds os"

text \<open>Where every thread can be created every connection has one.\<close>

definition made :: "'w main_os \<Rightarrow> conn list \<Rightarrow> bool" where
  "made os cs \<longleftrightarrow> create_succeeds os \<longrightarrow> (\<forall>c\<in>set cs. c_made c)"

text \<open>How the joins of some connections can end other than by joining them all.\<close>

definition unjoined :: "'w main_os \<Rightarrow> conn list \<Rightarrow> 'a run \<Rightarrow> bool" where
  "unjoined os cs r \<longleftrightarrow>
     r = None \<and> (\<exists>c\<in>set cs. \<exists>w. mo_join os w (c_th c) = None) \<or>
     r = Some (Inl Undefined) \<and> (\<exists>c\<in>set cs. \<not> c_made c)"

lemma joins_unjoined: "joins os cs \<Longrightarrow> \<not> unjoined os cs r"
  by (auto simp: joins_def unjoined_def)

lemma unjoined_fault: "unjoined os cs r \<Longrightarrow> made os cs \<Longrightarrow> r = None \<or> r = Some (Inl Undefined) \<and> \<not> create_succeeds os"
  by (auto simp: unjoined_def made_def)

lemma unjoined_mono: "unjoined os cs r \<Longrightarrow> set cs \<subseteq> set ds \<Longrightarrow> unjoined os ds r"
  unfolding unjoined_def by blast

lemma unjoined_Inr [simp]: "\<not> unjoined os cs (Some (Inr s))"
  by (simp add: unjoined_def)

lemma made_simps [simp]:
  "made os []" "made os (us @ vs) \<longleftrightarrow> made os us \<and> made os vs"
  "made os (c # cs) \<longleftrightarrow> (create_succeeds os \<longrightarrow> c_made c) \<and> made os cs"
  by (auto simp: made_def)

lemma made_filter [simp]: "made os cs \<Longrightarrow> made os (filter P cs)"
  by (simp add: made_def)

lemma closed_world_append: "closed_world os (cs @ ds) w = closed_world os ds (closed_world os cs w)"
  by (induction cs arbitrary: w) simp_all

lemma main_inv_nodes: "main_inv s cs \<Longrightarrow> distinct (map c_node cs)"
  using slist_rep_wf [of "conns s" 0 "map c_node cs"] by (simp add: main_inv_def)

lemma map_remove1_mid:
  "distinct (map f (us @ c # vs)) \<Longrightarrow> remove1 (f c) (map f (us @ c # vs)) = map f (us @ vs)"
  by (induction us) auto

lemma dom_minus_mid:
  "distinct (map f (us @ c # vs)) \<Longrightarrow> f ` set (us @ c # vs) - {f c} = f ` set (us @ vs)"
  by auto (metis imageI)+

lemma distinct_mid:
  "distinct (map f (us @ c # vs)) \<Longrightarrow> d \<in> set (us @ vs) \<Longrightarrow> f d \<noteq> f c"
  by (auto simp: image_iff)

section \<open>Removing a connection\<close>

lemma slist_free:
  assumes "slist_rep m h as" "a \<notin> set as"
  shows "slist_rep (m\<lparr>sle_next := (sle_next m)(a := None)\<rparr>) h as"
  using assms by (simp add: slist_rep_def)

lemma conn_ok_frame:
  assumes "conn_ok s d" "nodes s' (c_node d) = nodes s (c_node d)"
    "tdatas s' (c_td d) = tdatas s (c_td d)" "threads s' (c_th d) = threads s (c_th d)"
    "mutexes s' (c_mx d) = mutexes s (c_mx d)"
  shows "conn_ok s' d"
  using assms by (auto simp: conn_ok_def)

text \<open>It returns when there is a thread and the join does, and has then removed exactly this connection.\<close>

lemma remove_node_ok:
  assumes inv: "main_inv s (us @ c # vs)"
  shows "unjoined os [c] (remove_node os (c_node c) s) \<or>
    (\<exists>s'. remove_node os (c_node c) s = Some (Inr s') \<and> main_inv s' (us @ vs) \<and>
       m_world s' = closed_world os [c] (m_world s) \<and> sfd s' = sfd s \<and>
       (\<forall>d\<in>set (us @ vs). tdatas s' (c_td d) = tdatas s (c_td d)))"
proof (cases "c_made c \<and> mo_join os (m_world s) (c_th c) \<noteq> None")
  case False
  have "conn_ok s c" using inv by (simp add: main_inv_def)
  then show ?thesis using False
    by (cases "c_made c") (auto simp: conn_ok_def remove_node_def unjoined_def)
next
  case True
  then obtain w where w: "mo_join os (m_world s) (c_th c) = Some w" and made: "c_made c" by blast
  let ?cs = "us @ c # vs"
  have rep: "slist_rep (conns s) 0 (map c_node ?cs)" and ok: "conn_ok s c"
    and dn: "distinct (map c_node ?cs)"
    using inv main_inv_nodes [OF inv] by (simp_all add: main_inv_def)
  have dist: "distinct (map c_td ?cs)" "distinct (map c_th ?cs)" "distinct (map c_mx ?cs)"
    using inv by (simp_all add: main_inv_def)
  from ok obtain node td where n: "nodes s (c_node c) = Some node" "node_thread node = Some (c_th c)"
    "node_threadData node = Some (c_td c)" "tdatas s (c_td c) = Some td"
    "mutexExit td = Some (c_mx c)" "cfd td = c_cfd c"
    "threads s (c_th c) = Some True" "mutexes s (c_mx c) = Some False"
    using made by (auto simp: conn_ok_def)
  have "c_node c \<in> set (map c_node ?cs)" by simp
  from slist_remove [OF rep this] obtain m where
    m: "SLIST_REMOVE (conns s) 0 (Some (c_node c)) = Some (Inr m)"
      "slist_rep m 0 (map c_node (us @ vs))" "dom (sle_next m) = dom (sle_next (conns s))"
    unfolding map_remove1_mid [OF dn] by blast
  let ?s = "s\<lparr>m_world := mo_close os w (c_cfd c),
    conns := m\<lparr>sle_next := (sle_next m)(c_node c := None)\<rparr>,
    mutexes := (mutexes s)(c_mx c := None), tdatas := (tdatas s)(c_td c := None),
    threads := (threads s)(c_th c := None), nodes := (nodes s)(c_node c := None)\<rparr>"
  have run: "remove_node os (c_node c) s = Some (Inr ?s)"
    using n w m(1) by (simp add: remove_node_def free_block_def Let_def)
  have "slist_rep (conns ?s) 0 (map c_node (us @ vs))"
    using slist_free [OF m(2), of "c_node c"] dn by simp
  moreover have "conn_ok ?s d" if "d \<in> set (us @ vs)" for d
  proof (rule conn_ok_frame)
    show "conn_ok s d" using that inv by (auto simp: main_inv_def)
  qed (simp_all add: distinct_mid [OF dn that] distinct_mid [OF dist(1) that]
    distinct_mid [OF dist(2) that] distinct_mid [OF dist(3) that])
  moreover have "dom (sle_next (conns ?s)) = c_node ` set (us @ vs)"
    using inv m(3) dom_minus_mid [OF dn] by (simp add: main_inv_def)
  moreover have "dom (nodes ?s) = c_node ` set (us @ vs)"
    using inv dom_minus_mid [OF dn] by (simp add: main_inv_def)
  moreover have "dom (tdatas ?s) = c_td ` set (us @ vs)"
    using inv dom_minus_mid [OF dist(1)] by (simp add: main_inv_def)
  moreover have "dom (threads ?s) = c_th ` set (us @ vs)"
    using inv dom_minus_mid [OF dist(2)] by (simp add: main_inv_def)
  moreover have "dom (mutexes ?s) = c_mx ` set (us @ vs)"
    using inv dom_minus_mid [OF dist(3)] by (simp add: main_inv_def)
  ultimately have "main_inv ?s (us @ vs)"
    using dist unfolding main_inv_def by simp
  moreover have "\<forall>d\<in>set (us @ vs). tdatas ?s (c_td d) = tdatas s (c_td d)"
    using distinct_mid [OF dist(1)] by simp
  ultimately show ?thesis using run w by (intro disjI2 exI [of _ ?s]) simp
qed

section \<open>The passes over the list\<close>

text \<open>A pass whose body removes the connections that satisfy \<open>P\<close> and leaves the others.\<close>

lemma removing_pass:
  assumes inv: "main_inv s cs"
    and body: "\<And>s us c vs. main_inv s (us @ c # vs) \<Longrightarrow>
      body (c_node c) s = (if P c then remove_node os (c_node c) s else Some (Inr s))"
  shows "unjoined os (filter P cs) (SLIST_FOREACH_SAFE conns 0 body s) \<or>
    (\<exists>s'. SLIST_FOREACH_SAFE conns 0 body s = Some (Inr s') \<and> main_inv s' (filter (\<lambda>c. \<not> P c) cs) \<and>
       m_world s' = closed_world os (filter P cs) (m_world s) \<and> sfd s' = sfd s)"
proof -
  let ?N = "unjoined os (filter P cs)"
  define I where "I = (\<lambda>xs ys t. \<exists>us vs. xs = map c_node us \<and> ys = map c_node vs \<and> cs = us @ vs \<and>
    main_inv t (filter (\<lambda>c. \<not> P c) us @ vs) \<and> sfd t = sfd s \<and>
    m_world t = closed_world os (filter P us) (m_world s))"
  have step: "SLIST_NEXT (conns t) (Some a) = Inr (first ys) \<and>
      (?N (body a t) \<or> (\<exists>t'. body a t = Some (Inr t') \<and> I (xs @ [a]) ys t'))"
    if "I xs (a # ys) t" for xs a ys t
  proof -
    from that obtain us c vs where c: "xs = map c_node us" "a = c_node c" "ys = map c_node vs"
      "cs = (us @ [c]) @ vs" and t: "main_inv t (filter (\<lambda>c. \<not> P c) us @ c # vs)" "sfd t = sfd s"
      "m_world t = closed_world os (filter P us) (m_world s)"
      by (auto simp: I_def map_eq_Cons_conv Cons_eq_map_conv)
    have "SLIST_NEXT (conns t) (Some a) = Inr (first ys)"
      using slist_next [of "conns t" 0 "map c_node (filter (\<lambda>c. \<not> P c) us)" a ys] t(1) c
      by (simp add: main_inv_def)
    moreover have "?N (body a t) \<or> (\<exists>t'. body a t = Some (Inr t') \<and> I (xs @ [a]) ys t')"
    proof (cases "P c")
      case True
      from remove_node_ok [OF t(1), of os] show ?thesis
      proof (elim disjE exE conjE)
        fix t'
        assume t': "remove_node os (c_node c) t = Some (Inr t')"
          "main_inv t' (filter (\<lambda>c. \<not> P c) us @ vs)"
          "m_world t' = closed_world os [c] (m_world t)" "sfd t' = sfd t"
        have "I (xs @ [a]) ys t'" unfolding I_def
          by (rule exI [of _ "us @ [c]"], rule exI [of _ vs])
            (use t t' c True in \<open>simp add: closed_world_append\<close>)
        then show ?thesis using t' body [OF t(1)] True c by auto
      next
        assume "unjoined os [c] (remove_node os (c_node c) t)"
        then have "?N (remove_node os (c_node c) t)" by (rule unjoined_mono) (use True c(4) in simp)
        then show ?thesis using body [OF t(1)] True c(2) by simp
      qed
    next
      case False
      have "I (xs @ [a]) ys t" unfolding I_def
        by (rule exI [of _ "us @ [c]"], rule exI [of _ vs]) (use t c False in simp)
      then show ?thesis using body [OF t(1)] False c by auto
    qed
    ultimately show ?thesis by blast
  qed
  have "I [] (map c_node cs) s" using inv by (auto simp: I_def)
  with step have "?N (for_each_safe (\<lambda>s. SLIST_NEXT (conns s)) body (first (map c_node cs)) s) \<or>
    (\<exists>t. for_each_safe (\<lambda>s. SLIST_NEXT (conns s)) body (first (map c_node cs)) s = Some (Inr t) \<and>
       I ([] @ map c_node cs) [] t)"
    by (rule for_each_safe_rule [where N = ?N, OF _ unjoined_Inr])
  then have "?N (SLIST_FOREACH_SAFE conns 0 body s) \<or>
    (\<exists>t. SLIST_FOREACH_SAFE conns 0 body s = Some (Inr t) \<and> I (map c_node cs) [] t)"
    using inv slist_first [of "conns s" 0 "map c_node cs"]
    by (simp add: SLIST_FOREACH_SAFE_def main_inv_def)
  moreover have "main_inv t (filter (\<lambda>c. \<not> P c) cs) \<and>
      m_world t = closed_world os (filter P cs) (m_world s) \<and> sfd t = sfd s"
    if "I (map c_node cs) [] t" for t
    using that by (auto simp: I_def)
  ultimately show ?thesis by blast
qed

lemma reap_ok:
  fixes os :: "'w main_os" and s :: "'w main_state"
  assumes inv: "main_inv s cs"
  defines "P \<equiv> \<lambda>c. seen_complete os (m_world s) (c_td c)"
  shows "unjoined os (filter P cs) (reap os s) \<or>
    (\<exists>s'. reap os s = Some (Inr s') \<and> main_inv s' (filter (\<lambda>c. \<not> P c) cs) \<and>
       m_world s' = closed_world os (filter P cs) (m_world s) \<and> sfd s' = sfd s)"
  unfolding reap_def
proof (rule removing_pass [OF inv])
  fix t :: "'w main_state" and us c vs
  assume "main_inv t (us @ c # vs)"
  then have "conn_ok t c" by (simp add: main_inv_def)
  then show "reap_node os (seen_complete os (m_world s)) (c_node c) t =
      (if P c then remove_node os (c_node c) t else Some (Inr t))"
    by (auto simp: conn_ok_def reap_node_def P_def)
qed

text \<open>The pass that asks every thread to exit changes nothing but the flags.\<close>

definition asked :: "'w main_state \<Rightarrow> conn \<Rightarrow> bool" where
  "asked s c \<longleftrightarrow> (case tdatas s (c_td c) of None \<Rightarrow> False | Some td \<Rightarrow> exit td)"

lemma main_inv_td:
  assumes inv: "main_inv s cs" and td: "tdatas s d = Some td" "mutexExit td' = mutexExit td" "cfd td' = cfd td"
  shows "main_inv (s\<lparr>tdatas := (tdatas s)(d \<mapsto> td')\<rparr>) cs"
proof -
  let ?s = "s\<lparr>tdatas := (tdatas s)(d \<mapsto> td')\<rparr>"
  have "conn_ok ?s c" if "c \<in> set cs" for c
  proof -
    have "conn_ok s c" using that inv unfolding main_inv_def by blast
    then show ?thesis using td by (auto simp: conn_ok_def)
  qed
  moreover have "dom (tdatas ?s) = dom (tdatas s)" using td(1) by auto
  ultimately show ?thesis using inv unfolding main_inv_def by simp
qed

lemma request_exit_ok:
  assumes inv: "main_inv s (us @ c # vs)"
  shows "\<exists>s'. request_exit (c_node c) s = Some (Inr s') \<and> main_inv s' (us @ c # vs) \<and>
    m_world s' = m_world s \<and> sfd s' = sfd s \<and> conns s' = conns s \<and> asked s' c \<and>
    (\<forall>d. asked s d \<longrightarrow> asked s' d) \<and>
    (\<forall>d. map_option complete (tdatas s' d) = map_option complete (tdatas s d))"
proof -
  have "conn_ok s c" using inv by (simp add: main_inv_def)
  then obtain node td where n: "nodes s (c_node c) = Some node" "node_thread node = Some (c_th c)"
    "node_threadData node = Some (c_td c)" "tdatas s (c_td c) = Some td"
    "mutexExit td = Some (c_mx c)" "cfd td = c_cfd c" "mutexes s (c_mx c) = Some False"
    by (auto simp: conn_ok_def)
  let ?s = "s\<lparr>tdatas := (tdatas s)(c_td c \<mapsto> td\<lparr>exit := True\<rparr>)\<rparr>"
  have run: "request_exit (c_node c) s = Some (Inr ?s)" using n by (auto simp: request_exit_def)
  have "main_inv ?s (us @ c # vs)" by (rule main_inv_td [OF inv n(4)]) simp_all
  moreover have "asked ?s c" "\<forall>d. asked s d \<longrightarrow> asked ?s d"
    "\<forall>d. map_option complete (tdatas ?s d) = map_option complete (tdatas s d)"
    using n(4) by (auto simp: asked_def)
  ultimately show ?thesis using run by (intro exI [of _ ?s]) simp
qed

lemma request_exit_pass:
  assumes inv: "main_inv s cs"
  shows "\<exists>s'. SLIST_FOREACH conns 0 request_exit s = Some (Inr s') \<and> main_inv s' cs \<and>
    m_world s' = m_world s \<and> sfd s' = sfd s \<and> (\<forall>c\<in>set cs. asked s' c)"
proof -
  define I where "I = (\<lambda>xs ys t. \<exists>us vs. xs = map c_node us \<and> ys = map c_node vs \<and> cs = us @ vs \<and>
    main_inv t cs \<and> m_world t = m_world s \<and> sfd t = sfd s \<and> (\<forall>c\<in>set us. asked t c))"
  have step: "(request_exit a t = None \<and> \<not> True) \<or> (\<exists>t'. request_exit a t = Some (Inr t') \<and>
      SLIST_NEXT (conns t') (Some a) = Inr (first ys) \<and> I (xs @ [a]) ys t')"
    if "I xs (a # ys) t" for xs a ys t
  proof -
    from that obtain us c vs where c: "xs = map c_node us" "a = c_node c" "ys = map c_node vs"
      "cs = us @ c # vs" and t: "main_inv t cs" "m_world t = m_world s" "sfd t = sfd s"
      "\<forall>c\<in>set us. asked t c"
      by (auto simp: I_def map_eq_Cons_conv Cons_eq_map_conv)
    from request_exit_ok [of t us c vs] t(1) c(4) obtain t' where
      t': "request_exit (c_node c) t = Some (Inr t')" "main_inv t' cs" "m_world t' = m_world t"
        "sfd t' = sfd t" "asked t' c" "\<forall>d. asked t d \<longrightarrow> asked t' d" by auto
    have "SLIST_NEXT (conns t') (Some a) = Inr (first ys)"
      using slist_next [of "conns t'" 0 xs a ys] t'(2) c by (simp add: main_inv_def)
    moreover have "I (xs @ [a]) ys t'" unfolding I_def
      by (rule exI [of _ "us @ [c]"], rule exI [of _ vs]) (use t t' c in simp)
    ultimately show ?thesis using t' c by simp
  qed
  have "I [] (map c_node cs) s" using inv by (auto simp: I_def)
  with step have "(for_each (\<lambda>s. SLIST_NEXT (conns s)) request_exit (first (map c_node cs)) s = None \<and> \<not> True) \<or>
    (\<exists>t. for_each (\<lambda>s. SLIST_NEXT (conns s)) request_exit (first (map c_node cs)) s = Some (Inr t) \<and>
       I ([] @ map c_node cs) [] t)"
    by (rule for_each_rule)
  then obtain t where "SLIST_FOREACH conns 0 request_exit s = Some (Inr t)" "I (map c_node cs) [] t"
    using inv slist_first [of "conns s" 0 "map c_node cs"]
    by (auto simp: SLIST_FOREACH_def main_inv_def)
  then show ?thesis by (auto simp: I_def)
qed

section \<open>A new connection\<close>

text \<open>Four fresh blocks, linked to each other and in at the head of the list.\<close>

lemma main_inv_add:
  assumes inv: "main_inv s cs"
    and fresh: "c_node d \<notin> dom (nodes s)" "c_td d \<notin> dom (tdatas s)" "c_th d \<notin> dom (threads s)"
      "c_mx d \<notin> dom (mutexes s)"
    and links: "node_thread node = Some (c_th d)" "node_threadData node = Some (c_td d)"
      "mutexExit td = Some (c_mx d)" "cfd td = c_cfd d"
    and s': "nodes s' = (nodes s)(c_node d \<mapsto> node)" "tdatas s' = (tdatas s)(c_td d \<mapsto> td)"
      "threads s' = (threads s)(c_th d \<mapsto> c_made d)" "mutexes s' = (mutexes s)(c_mx d \<mapsto> False)"
      "conns s' = (conns s)\<lparr>sle_next := (sle_next (conns s))(c_node d \<mapsto> slh_first (conns s) 0),
                            slh_first := (slh_first (conns s))(0 := Some (c_node d))\<rparr>"
  shows "main_inv s' (d # cs)"
proof -
  have new: "c_node d \<notin> c_node ` set cs" "c_td d \<notin> c_td ` set cs" "c_th d \<notin> c_th ` set cs"
    "c_mx d \<notin> c_mx ` set cs"
    using fresh inv by (simp_all add: main_inv_def)
  have "conn_ok s' e" if "e \<in> set cs" for e
  proof (rule conn_ok_frame)
    show "conn_ok s e" using inv that by (simp add: main_inv_def)
    have "c_node e \<noteq> c_node d" "c_td e \<noteq> c_td d" "c_th e \<noteq> c_th d" "c_mx e \<noteq> c_mx d"
      using new that by (metis imageI)+
    then show "nodes s' (c_node e) = nodes s (c_node e)" "tdatas s' (c_td e) = tdatas s (c_td e)"
      "threads s' (c_th e) = threads s (c_th e)" "mutexes s' (c_mx e) = mutexes s (c_mx e)"
      by (simp_all add: s')
  qed
  moreover have "conn_ok s' d" by (simp add: conn_ok_def s' links)
  moreover have "slist_rep (conns s') 0 (map c_node (d # cs))"
    using inv new(1) by (simp add: main_inv_def slist_rep_def s')
  ultimately show ?thesis using inv new by (simp add: main_inv_def s')
qed

lemma new_connection_ok:
  assumes inv: "main_inv s cs" and m: "malloc_ok os"
    and t: "new_threadData os c s = Inr (t, s2)" and n: "new_node os t ca s2 = Inr s3"
  shows "\<exists>d. main_inv s3 (d # cs) \<and> made os [d] \<and> c_cfd d = c \<and> c_td d = t \<and> sfd s3 = sfd s \<and>
    tdatas s3 = (tdatas s)(t \<mapsto> \<lparr>mutexExit = Some (c_mx d), cfd = c, complete = False, exit = False\<rparr>)"
proof -
  obtain w1 w2 x where m1: "mo_malloc os (m_world s) (used s) = (w1, Some t)"
    and m2: "mo_malloc os w1 (used s \<union> {t}) = (w2, Some x)"
    and s2: "s2 = s\<lparr>m_world := w2, mutexes := (mutexes s)(x \<mapsto> False),
      tdatas := (tdatas s)(t \<mapsto> \<lparr>mutexExit = Some x, cfd = c, complete = False, exit = False\<rparr>)\<rparr>"
    using t
    by (auto simp: new_threadData_def Let_def used_def insert_commute split: prod.splits option.splits)
  obtain w3 w4 a h where m3: "mo_malloc os (m_world s2) (used s2) = (w3, Some a)"
    and m4: "mo_malloc os w3 (insert a (used s2)) = (w4, Some h)"
    and s3: "s3 = s2\<lparr>threads := (threads s2)(h \<mapsto> snd (mo_create os w4 h t)),
      nodes := (nodes s2)(a \<mapsto> \<lparr>node_thread = Some h, node_threadData = Some t, clientAddr = ca\<rparr>),
      conns := (conns s2)\<lparr>sle_next := (sle_next (conns s2))(a \<mapsto> slh_first (conns s2) 0),
                          slh_first := (slh_first (conns s2))(0 := Some a)\<rparr>,
      m_world := fst (mo_create os w4 h t)\<rparr>"
    using n
    by (auto simp: new_node_def Let_def used_def slist_defs split: prod.splits option.splits)
  let ?d = "\<lparr>c_node = a, c_td = t, c_mx = x, c_th = h, c_cfd = c, c_made = snd (mo_create os w4 h t)\<rparr>"
  have "t \<notin> used s" "x \<notin> used s" "a \<notin> used s2" "h \<notin> used s2"
    using m m1 m2 m3 m4 unfolding malloc_ok_def by blast+
  then have "main_inv s3 (?d # cs)"
    by (intro main_inv_add [OF inv]) (auto simp: used_def s2 s3)
  then show ?thesis by (intro exI [of _ ?d]) (simp add: s2 s3 create_succeeds_def)
qed

lemma finite_used: "main_inv s cs \<Longrightarrow> finite (used s)"
  by (auto simp: main_inv_def used_def)

lemma used_new_threadData: "new_threadData os c s = Inr (t, s') \<Longrightarrow> finite (used s') = finite (used s)"
  by (auto simp: new_threadData_def Let_def used_def split: prod.splits option.splits)

lemma malloc_gives:
  "malloc_succeeds os \<Longrightarrow> finite U \<Longrightarrow> \<exists>w' a. mo_malloc os w U = (w', Some a)"
  unfolding malloc_succeeds_def by (metis not_None_eq prod.collapse)

lemma new_threadData_fails:
  assumes "new_threadData os c s = Inl e" "finite (used s)"
  shows "e = NullDeref \<and> \<not> malloc_succeeds os"
proof
  show "e = NullDeref"
    using assms(1) by (auto simp: new_threadData_def Let_def split: prod.splits option.splits)
  show "\<not> malloc_succeeds os"
  proof
    assume m: "malloc_succeeds os"
    obtain w a where a: "mo_malloc os (m_world s) (used s) = (w, Some a)"
      using malloc_gives [OF m assms(2)] by blast
    obtain w' b where "mo_malloc os w (insert a (used s)) = (w', Some b)"
      using malloc_gives [OF m] assms(2) by blast
    with a assms(1) show False by (simp add: new_threadData_def Let_def used_def)
  qed
qed

lemma new_node_fails:
  assumes "new_node os t ca s = Inl e" "finite (used s)"
  shows "e = NullDeref \<and> \<not> malloc_succeeds os"
proof
  show "e = NullDeref"
    using assms(1) by (auto simp: new_node_def Let_def slist_defs split: prod.splits option.splits)
  show "\<not> malloc_succeeds os"
  proof
    assume m: "malloc_succeeds os"
    obtain w a where a: "mo_malloc os (m_world s) (used s) = (w, Some a)"
      using malloc_gives [OF m assms(2)] by blast
    obtain w' b where "mo_malloc os w (insert a (used s)) = (w', Some b)"
      using malloc_gives [OF m] assms(2) by blast
    with a assms(1) show False by (simp add: new_node_def Let_def used_def slist_defs split: prod.splits)
  qed
qed

section \<open>The accept loop\<close>

lemma accept_round_ok:
  assumes inv: "main_inv s cs" and m: "malloc_ok os" and made: "made os cs" and r: "accept_round os s = Some r"
  shows "(\<exists>e. r = Inl e \<and> out_of_resources os e) \<or> (\<exists>s'. r = Inr (Exited 1 s')) \<or>
    (\<exists>s' cs'. r = Inr (Stopped s') \<and> main_inv s' cs' \<and> made os cs')"
proof -
  obtain w a where a: "mo_accept os (m_world s) (sfd s) = (w, a)" by fastforce
  let ?s = "s\<lparr>m_world := w\<rparr>"
  have inv1: "main_inv ?s cs" using inv by (simp add: main_inv_def conn_ok_def)
  show ?thesis
  proof (cases a)
    case (Accepted c ca)
    show ?thesis
    proof (cases "mo_ntop os w ca")
      case True
      note round = r [unfolded accept_round_def a Let_def prod.case Accepted accept_result.case]
      show ?thesis
      proof (cases "new_threadData os c ?s")
        case (Inl e)
        then show ?thesis using round True new_threadData_fails [of os c ?s e] finite_used [OF inv1]
          by (auto simp: out_of_resources_def)
      next
        case (Inr ts)
        then obtain t s2 where t: "new_threadData os c ?s = Inr (t, s2)" by (cases ts) simp
        show ?thesis
        proof (cases "new_node os t ca s2")
          case (Inl e)
          then show ?thesis
            using round True t new_node_fails [of os t ca s2 e] used_new_threadData [OF t]
              finite_used [OF inv1] by (auto simp: out_of_resources_def)
        next
          case (Inr s3)
          from new_connection_ok [OF inv1 m t Inr] made
          obtain d where d: "main_inv s3 (d # cs)" "made os (d # cs)" by auto
          note made_filter = made_filter [OF d(2)]
          from reap_ok [OF d(1), of os] show ?thesis
          proof (elim disjE exE conjE)
            assume "unjoined os (filter (\<lambda>c. seen_complete os (m_world s3) (c_td c)) (d # cs)) (reap os s3)"
            from unjoined_fault [OF this made_filter] round True t Inr show ?thesis
              by (auto simp: out_of_resources_def)
          next
            fix s'
            assume "reap os s3 = Some (Inr s')"
              "main_inv s' (filter (\<lambda>c. \<not> seen_complete os (m_world s3) (c_td c)) (d # cs))"
            then have "\<exists>cs'. main_inv s' cs' \<and> made os cs'" using made_filter by blast
            then show ?thesis using \<open>reap os s3 = Some (Inr s')\<close> round True t Inr by auto
          qed
        qed
      qed
    qed (use r a Accepted in \<open>auto simp: accept_round_def exit_failure_def\<close>)
  qed (use r a inv1 made in \<open>auto simp: accept_round_def exit_failure_def\<close>)
qed

lemma accept_loop_ok:
  assumes "accept_loop os s = Some r" "main_inv s cs" "malloc_ok os" "made os cs"
  shows "(\<exists>e. r = Inl e \<and> out_of_resources os e) \<or> (\<exists>s'. r = Inr (Exited 1 s')) \<or>
    (\<exists>s' cs'. r = Inr (Stopped s') \<and> main_inv s' cs' \<and> made os cs' \<and> graceful os (m_world s'))"
  using assms
proof (induction arbitrary: cs rule: accept_loop.raw_induct [rotated, consumes 1, case_names 1])
  case (1 loop os s r)
  show ?case
  proof (cases "graceful os (m_world s)")
    case True
    then show ?thesis using 1 by auto
  next
    case False
    then obtain q where q: "accept_round os s = Some q" using 1(2) by (cases "accept_round os s") auto
    from accept_round_ok [OF 1(3,4,5) q] show ?thesis
    proof (elim disjE exE conjE)
      fix s' cs'
      assume "q = Inr (Stopped s')" "main_inv s' cs'" "made os cs'"
      then show ?thesis using 1(1) [of os s' r cs'] 1(2,4) False q by simp
    qed (use 1(2) False q in auto)
  qed
qed

section \<open>Start and shutdown\<close>

definition no_blocks :: "'w main_state \<Rightarrow> bool" where
  "no_blocks s \<longleftrightarrow> nodes s = Map.empty \<and> tdatas s = Map.empty \<and> threads s = Map.empty \<and>
     mutexes s = Map.empty \<and> sle_next (conns s) = Map.empty"

lemma main_inv_Nil: "main_inv s [] \<longleftrightarrow> no_blocks s \<and> slist_rep (conns s) 0 []"
  by (auto simp: main_inv_def no_blocks_def)

lemma main_setup_ok:
  assumes "no_blocks s"
  shows "(\<exists>s'. main_setup os args s = Exited 1 s') \<or>
    (\<exists>s'. main_setup os args s = Stopped s' \<and> main_inv s' [])"
  using assms
  by (auto simp: main_setup_def Let_def exit_failure_def main_inv_Nil no_blocks_def slist_rep_def
      SLIST_INIT_def split: prod.splits)

lemma cleanup_fields [simp]:
  "no_blocks (cleanup os s) = no_blocks s" "conns (cleanup os s) = conns s"
  by (simp_all add: cleanup_def no_blocks_def Let_def)

lemma cleanup_world:
  "m_world s = m_world s' \<Longrightarrow> sfd s = sfd s' \<Longrightarrow> m_world (cleanup os s) = m_world (cleanup os s')"
  by (simp add: cleanup_def Let_def)

lemma shutdown_ok:
  assumes inv: "main_inv s cs"
  shows "unjoined os cs (shutdown os s) \<or>
    (\<exists>s'. shutdown os s = Some (Inr (Exited 0 s')) \<and> no_blocks s' \<and> SLIST_EMPTY (conns s') 0 \<and>
       m_world s' = m_world (cleanup os (s\<lparr>m_world := closed_world os cs (m_world s)\<rparr>)))"
proof -
  from request_exit_pass [OF inv] obtain s1 where s1: "main_inv s1 cs"
    "SLIST_FOREACH conns 0 request_exit s = Some (Inr s1)" "m_world s1 = m_world s" "sfd s1 = sfd s"
    by blast
  have "unjoined os (filter (\<lambda>_. True) cs) (SLIST_FOREACH_SAFE conns 0 (remove_node os) s1) \<or>
    (\<exists>s'. SLIST_FOREACH_SAFE conns 0 (remove_node os) s1 = Some (Inr s') \<and>
       main_inv s' (filter (\<lambda>_. \<not> True) cs) \<and>
       m_world s' = closed_world os (filter (\<lambda>_. True) cs) (m_world s1) \<and> sfd s' = sfd s1)"
    by (rule removing_pass [OF s1(1)]) simp
  then show ?thesis
  proof (elim disjE exE conjE)
    fix s2
    assume s2: "SLIST_FOREACH_SAFE conns 0 (remove_node os) s1 = Some (Inr s2)"
      "main_inv s2 (filter (\<lambda>_. \<not> True) cs)"
      "m_world s2 = closed_world os (filter (\<lambda>_. True) cs) (m_world s1)" "sfd s2 = sfd s1"
    then have "shutdown os s = Some (Inr (Exited 0 (cleanup os s2)))"
      "no_blocks (cleanup os s2)" "SLIST_EMPTY (conns (cleanup os s2)) 0"
      using s1(2) by (simp_all add: shutdown_def main_inv_Nil slist_rep_def SLIST_EMPTY_def)
    moreover have "m_world (cleanup os s2) =
        m_world (cleanup os (s\<lparr>m_world := closed_world os cs (m_world s)\<rparr>))"
      using s1 s2 by (intro cleanup_world) simp_all
    ultimately show ?thesis by blast
  qed (use s1(2) in \<open>auto simp: shutdown_def unjoined_def\<close>)
qed

lemma main_server_safe_aux:
  assumes init: "no_blocks s" and m: "malloc_ok os" and run: "main_server os args s = Some r"
  shows "(\<exists>e. r = Inl e \<and> out_of_resources os e) \<or> (\<exists>s'. r = Inr (Exited 1 s')) \<or>
    (\<exists>s'. r = Inr (Exited 0 s') \<and> no_blocks s')"
  using main_setup_ok [OF init, of os args]
proof (elim disjE exE conjE)
  fix s1
  assume s1: "main_setup os args s = Stopped s1" "main_inv s1 []"
  with run obtain q where q: "accept_loop os s1 = Some q"
    by (cases "accept_loop os s1") (auto simp: main_server_def)
  from accept_loop_ok [OF q s1(2) m] have "(\<exists>e. q = Inl e \<and> out_of_resources os e) \<or> (\<exists>s'. q = Inr (Exited 1 s')) \<or>
      (\<exists>s' cs'. q = Inr (Stopped s') \<and> main_inv s' cs' \<and> made os cs' \<and> graceful os (m_world s'))" by simp
  then show ?thesis
  proof (elim disjE exE conjE)
    fix s2 cs
    assume s2: "q = Inr (Stopped s2)" "main_inv s2 cs" "made os cs"
    then have fin: "shutdown os s2 = Some r" using run s1 q by (simp add: main_server_def)
    from shutdown_ok [OF s2(2), of os] show ?thesis
    proof (elim disjE exE conjE)
      assume "unjoined os cs (shutdown os s2)"
      from unjoined_fault [OF this s2(3)] fin show ?thesis by (auto simp: out_of_resources_def)
    qed (use fin in auto)
  qed (use run s1 q in \<open>auto simp: main_server_def\<close>)
qed (use run in \<open>auto simp: main_server_def\<close>)

section \<open>Ending\<close>

text \<open>
  A signal that comes after finitely many calls of \<open>accept\<close>: a measure of the world that every
  \<open>accept\<close> decreases until the flag is set and that no other call increases.
\<close>

definition signal_comes :: "'w main_os \<Rightarrow> ('w \<Rightarrow> nat) \<Rightarrow> bool" where
  "signal_comes os mu \<longleftrightarrow>
     (\<forall>w f. \<not> graceful os w \<longrightarrow> mu (fst (mo_accept os w f)) < mu w) \<and>
     (\<forall>w U. mu (fst (mo_malloc os w U)) \<le> mu w) \<and> (\<forall>w h t. mu (fst (mo_create os w h t)) \<le> mu w) \<and>
     (\<forall>w h w'. mo_join os w h = Some w' \<longrightarrow> mu w' \<le> mu w) \<and> (\<forall>w f. mu (mo_close os w f) \<le> mu w)"

definition joins_return :: "'w main_os \<Rightarrow> bool" where
  "joins_return os \<longleftrightarrow> (\<forall>w h. mo_join os w h \<noteq> None)"

lemma joins_returnD: "joins_return os \<Longrightarrow> create_succeeds os \<Longrightarrow> made os cs \<Longrightarrow> joins os cs"
  by (simp add: joins_return_def joins_def made_def)

lemma unjoined_returns: "unjoined os cs r \<Longrightarrow> joins_return os \<Longrightarrow> r = Some (Inl Undefined)"
  unfolding joins_return_def unjoined_def by blast

lemma closed_world_measure:
  assumes "signal_comes os mu" "joins_return os"
  shows "mu (closed_world os cs w) \<le> mu w"
proof (induction cs arbitrary: w)
  case (Cons c cs)
  obtain w' where w': "mo_join os w (c_th c) = Some w'" using assms(2) by (auto simp: joins_return_def)
  have "mu (closed_world os (c # cs) w) \<le> mu (mo_close os w' (c_cfd c))" using Cons w' by simp
  also have "\<dots> \<le> mu w'" using assms(1) by (simp add: signal_comes_def)
  also have "\<dots> \<le> mu w" using assms(1) w' by (simp add: signal_comes_def)
  finally show ?case .
qed simp

lemma new_connection_measure:
  assumes sc: "signal_comes os mu" and t: "new_threadData os c s = Inr (t, s2)"
    and n: "new_node os t ca s2 = Inr s3"
  shows "mu (m_world s3) \<le> mu (m_world s)"
proof -
  have m: "mu w' \<le> mu w" if "mo_malloc os w U = (w', p)" for w w' U p
    using sc that unfolding signal_comes_def by (metis fst_conv)
  have c: "mu w' \<le> mu w" if "mo_create os w h u = (w', b)" for w w' h u b
    using sc that unfolding signal_comes_def by (metis fst_conv)
  have "mu (m_world s2) \<le> mu (m_world s)"
    using t by (auto simp: new_threadData_def Let_def dest!: m split: prod.splits option.splits)
  also have "mu (m_world s3) \<le> mu (m_world s2)"
    using n by (auto simp: new_node_def Let_def slist_defs dest!: m c split: prod.splits option.splits)
  finally (xtrans) show ?thesis .
qed

text \<open>A round returns; when the loop goes on, the signal is nearer.\<close>

lemma accept_round_returns:
  assumes inv: "main_inv s cs" and m: "malloc_ok os" and sc: "signal_comes os mu"
    and j: "joins_return os" and g: "\<not> graceful os (m_world s)"
  shows "\<exists>r. accept_round os s = Some r \<and> (\<forall>s'. r = Inr (Stopped s') \<longrightarrow> mu (m_world s') < mu (m_world s))"
proof -
  obtain w a where a: "mo_accept os (m_world s) (sfd s) = (w, a)" by fastforce
  have less: "mu w < mu (m_world s)" using sc g a unfolding signal_comes_def by (metis fst_conv)
  let ?s = "s\<lparr>m_world := w\<rparr>"
  have inv1: "main_inv ?s cs" using inv by (simp add: main_inv_def conn_ok_def)
  show ?thesis
  proof (cases "\<exists>c ca t s2 s3. a = Accepted c ca \<and> mo_ntop os w ca \<and>
      new_threadData os c ?s = Inr (t, s2) \<and> new_node os t ca s2 = Inr s3")
    case True
    then obtain c ca t s2 s3 where c: "a = Accepted c ca" "mo_ntop os w ca"
      "new_threadData os c ?s = Inr (t, s2)" "new_node os t ca s2 = Inr s3" by blast
    from new_connection_ok [OF inv1 m c(3,4)] obtain d where d: "main_inv s3 (d # cs)" by blast
    have "mu (m_world s3) \<le> mu w" using new_connection_measure [OF sc c(3,4)] by simp
    then have near: "mu (closed_world os ds (m_world s3)) < mu (m_world s)" for ds
      using closed_world_measure [OF sc j, of ds "m_world s3"] less by simp
    consider "reap os s3 = Some (Inl Undefined)"
      | s4 ds where "reap os s3 = Some (Inr s4)" "m_world s4 = closed_world os ds (m_world s3)"
      using reap_ok [OF d, of os] unjoined_returns [OF _ j] by blast
    then show ?thesis using a c near by cases (auto simp: accept_round_def)
  next
    case False
    show ?thesis
    proof (cases a)
      case (Accepted c ca)
      have "\<exists>e. new_node os t ca s2 = Inl e"
        if "mo_ntop os w ca" "new_threadData os c ?s = Inr (t, s2)" for t s2
        using False that Accepted by (cases "new_node os t ca s2") auto
      then show ?thesis using a Accepted
        by (cases "new_threadData os c ?s") (fastforce simp: accept_round_def exit_failure_def Let_def)+
    qed (use a less in \<open>simp_all add: accept_round_def exit_failure_def\<close>)
  qed
qed

lemma accept_loop_returns:
  assumes "malloc_ok os" "signal_comes os mu" "joins_return os"
  shows "main_inv s cs \<Longrightarrow> made os cs \<Longrightarrow> accept_loop os s \<noteq> None"
proof (induction "mu (m_world s)" arbitrary: s cs rule: less_induct)
  case less
  show ?case
  proof (cases "graceful os (m_world s)")
    case False
    from accept_round_returns [OF less.prems(1) assms this] obtain r where
      r: "accept_round os s = Some r" "\<forall>s'. r = Inr (Stopped s') \<longrightarrow> mu (m_world s') < mu (m_world s)"
      by blast
    from accept_round_ok [OF less.prems(1) assms(1) less.prems(2) r(1)] show ?thesis
    proof (elim disjE exE conjE)
      fix s' cs'
      assume "r = Inr (Stopped s')" "main_inv s' cs'" "made os cs'"
      then show ?thesis using less.hyps [of s' cs'] r False by (simp add: accept_loop.simps [of os s])
    qed (use r False in \<open>simp_all add: accept_loop.simps [of os s]\<close>)
  qed (simp add: accept_loop.simps)
qed

lemma main_server_returns:
  assumes init: "no_blocks s" and os: "malloc_ok os" "signal_comes os mu" "joins_return os"
  shows "main_server os args s \<noteq> None"
  using main_setup_ok [OF init, of os args]
proof (elim disjE exE conjE)
  fix s1
  assume s1: "main_setup os args s = Stopped s1" "main_inv s1 []"
  obtain q where q: "accept_loop os s1 = Some q" using accept_loop_returns [OF os s1(2)] by auto
  from accept_loop_ok [OF q s1(2) os(1)]
  have "(\<exists>e. q = Inl e) \<or> (\<exists>s'. q = Inr (Exited 1 s')) \<or> (\<exists>s' cs'. q = Inr (Stopped s') \<and> main_inv s' cs')"
    by auto
  then show ?thesis
  proof (elim disjE exE conjE)
    fix s2 cs
    assume "q = Inr (Stopped s2)" "main_inv s2 cs"
    then have "shutdown os s2 \<noteq> None" using shutdown_ok [of s2 cs os] unjoined_returns [OF _ os(3)] by fastforce
    with \<open>q = Inr (Stopped s2)\<close> show ?thesis using s1 q by (auto simp: main_server_def)
  qed (use s1 q in \<open>auto simp: main_server_def\<close>)
qed (simp add: main_server_def)

end
