(* ===== verification/Server_Recv.thy ===== *)
theory Server_Recv
  imports Server_Process
begin

text \<open>
  The receive loop of a connection thread: the invariant of its buffer, that no round of it touches
  memory it must not touch, which message it hands on, and that it never ends once the peer
  has closed the connection.
\<close>

section \<open>The receive buffer\<close>

text \<open>The bytes up to the first NUL, and a block whose last byte was replaced by NUL.\<close>

abbreviation upto_nul :: "bytes \<Rightarrow> bytes" where
  "upto_nul bs \<equiv> takeWhile (\<lambda>c. c \<noteq> NUL) bs"

abbreviation terminated :: "bytes \<Rightarrow> bytes" where
  "terminated blk \<equiv> butlast blk @ [NUL]"

text \<open>\<open>holds_buffers s a blk\<close>: the receive buffer is the whole block \<open>a\<close>; a send buffer is another block.\<close>

definition holds_buffers :: "'w thread \<Rightarrow> addr \<Rightarrow> bytes \<Rightarrow> bool" where
  "holds_buffers s a blk \<longleftrightarrow>
     recvBuffer s = Some (a, 0) \<and> mem s a = Some blk \<and>
     (\<forall>b. sendBuffer s = Some b \<longrightarrow> b \<noteq> a \<and> mem s b \<noteq> None)"

text \<open>Between two rounds the buffer is terminated, holds no line yet, and has room.\<close>

definition recv_inv :: "'w thread \<Rightarrow> bool" where
  "recv_inv s \<longleftrightarrow>
     (\<exists>a blk. holds_buffers s a blk \<and> int (length blk) = bufferSize s \<and>
        0 \<le> bufferIndex s \<and> bufferIndex s + 2 \<le> bufferSize s \<and>
        last blk = NUL \<and> nl \<notin> set (upto_nul blk))"

lemma recv_invI:
  "holds_buffers s a blk \<Longrightarrow> int (length blk) = bufferSize s \<Longrightarrow> 0 \<le> bufferIndex s \<Longrightarrow>
   bufferIndex s + 2 \<le> bufferSize s \<Longrightarrow> last blk = NUL \<Longrightarrow> nl \<notin> set (upto_nul blk) \<Longrightarrow> recv_inv s"
  unfolding recv_inv_def by blast

lemma string_terminated: "cstring (xs @ [NUL]) = Inr (upto_nul (xs @ [NUL]))"
  by (simp add: cstring_def)

text \<open>A round in one piece; receiving is a round that is not asked to exit.\<close>

lemma recv_round_eq:
  "recv_round os s =
     (if poll_exit os (world s) then
        rbind (freeBuffers (mem s) (recvBuffer s) (sendBuffer s)) (\<lambda>h.
        Inr (Returned (s\<lparr>mem := h, threadData := (threadData s)\<lparr>complete := True\<rparr>,
                         exit_mutex := False\<rparr>)))
      else
        let room = bufferSize s - bufferIndex s - 1;
            (w, r) = os_recv os (world s) (cfd (threadData s)) (nat room);
            s1 = s\<lparr>world := w\<rparr>
        in (case r of
              None \<Rightarrow> return_complete s1
            | Some bs \<Rightarrow>
                rbind (put_bytes (mem s1) (recvBuffer s1) (bufferIndex s1) bs) (\<lambda>h.
                let s2 = s1\<lparr>mem := h\<rparr>;
                    bytesRecv = int (length bs)
                in if bytesRecv = room then grow_buffer os s2
                   else check_newline (s2\<lparr>bufferIndex := bufferIndex s2 + bytesRecv\<rparr>))))"
  by (cases "freeBuffers (mem s) (recvBuffer s) (sendBuffer s)")
    (simp_all add: recv_round_def exit_check_def receive_def)

lemma receive_round: "receive os s = recv_round (os\<lparr>poll_exit := \<lambda>w. False\<rparr>) s"
proof -
  have calls: "os_realloc (os\<lparr>poll_exit := \<lambda>w. False\<rparr>) = os_realloc os"
    "os_recv (os\<lparr>poll_exit := \<lambda>w. False\<rparr>) = os_recv os"
    by simp_all
  have grow: "grow_buffer (os\<lparr>poll_exit := \<lambda>w. False\<rparr>) t = grow_buffer os t" for t
    unfolding grow_buffer_def calls ..
  have "receive (os\<lparr>poll_exit := \<lambda>w. False\<rparr>) s = receive os s" unfolding receive_def calls grow ..
  then show ?thesis by (simp add: recv_round_def exit_check_def)
qed

lemma exit_check_cases:
  obtains (stay) "exit_check os s = Inr (Continue s)" "\<not> poll_exit os (world s)"
  | (leave) "exit_check os s = recv_round os s" "poll_exit os (world s)"
  by (cases "poll_exit os (world s)") (auto simp: recv_round_eq exit_check_def)

lemma os_without_exit [simp]:
  "alloc_ok (os\<lparr>poll_exit := f\<rparr>) = alloc_ok os" "recv_ok (os\<lparr>poll_exit := f\<rparr>) = recv_ok os"
  by (simp_all add: alloc_ok_def recv_ok_def)

lemma check_newline_eq:
  assumes "recvBuffer s = Some (a, 0)" "mem s a = Some blk"
    "int (length blk) = bufferSize s" "0 < bufferSize s"
  shows "check_newline s =
    (let s' = s\<lparr>mem := (mem s)(a \<mapsto> terminated blk)\<rparr>
     in Inr (if nl \<in> set (upto_nul (terminated blk)) then Continue s' else Again s'))"
proof -
  have "nat (bufferSize s - 1) = length blk - 1" "blk \<noteq> []" using assms by auto
  then have "put_bytes (mem s) (recvBuffer s) (bufferSize s - 1) [NUL]
      = Inr ((mem s)(a \<mapsto> terminated blk))"
    using assms by (simp add: put_bytes_def Let_def butlast_conv_take)
  then show ?thesis
    using assms string_terminated
    by (simp add: check_newline_def string_at_def block_from_def strchr_None_iff Let_def)
qed

lemma freeBuffers_ok:
  assumes "holds_buffers s a blk"
  shows "freeBuffers (mem s) (recvBuffer s) (sendBuffer s)
    = Inr ((mem s)(a := None) |` {b. sendBuffer s \<noteq> Some b})"
  using assms
  by (cases "sendBuffer s")
    (auto simp: freeBuffers_def free_def holds_buffers_def restrict_map_def fun_eq_iff)

text \<open>The thread's final state: both buffers freed, marked complete.\<close>

definition released :: "'w thread \<Rightarrow> 'w thread \<Rightarrow> bool" where
  "released s s' \<longleftrightarrow>
     complete (threadData s') \<and> global_mutex s' = global_mutex s \<and>
     (\<exists>a k. recvBuffer s = Some (a, k) \<and>
       mem s' = (mem s)(a := None) |` {b. sendBuffer s \<noteq> Some b})"

lemma return_complete_ok:
  assumes "holds_buffers s a blk"
  shows "\<exists>s'. return_complete s = Inr (Returned s') \<and> released s s' \<and> world s' = world s"
  using freeBuffers_ok [OF assms] assms
  by (auto simp: return_complete_def released_def holds_buffers_def)

section \<open>One round\<close>

text \<open>What a round does with the received bytes, when the buffer does not fill up.\<close>

lemma put_bytes_recv:
  assumes "mem s a = Some blk" "int (length blk) = bufferSize s" "0 \<le> bufferIndex s"
    "bufferIndex s + int (length bs) \<le> bufferSize s"
  shows "put_bytes (mem s) (Some (a, 0)) (bufferIndex s) bs
    = Inr ((mem s)(a \<mapsto> take (nat (bufferIndex s)) blk @ bs
                        @ drop (nat (bufferIndex s) + length bs) blk))"
  using assms by (simp add: put_bytes_def Let_def)

lemma recv_round_partial:
  assumes inv: "holds_buffers s a blk" "int (length blk) = bufferSize s"
      "0 \<le> bufferIndex s" "bufferIndex s + 2 \<le> bufferSize s"
    and env: "\<not> poll_exit os (world s)"
      "os_recv os (world s) (cfd (threadData s)) (nat (bufferSize s - bufferIndex s - 1)) = (w, Some bs)"
      "int (length bs) < bufferSize s - bufferIndex s - 1"
    and blk': "blk' = terminated (take (nat (bufferIndex s)) blk @ bs
                        @ drop (nat (bufferIndex s) + length bs) blk)"
  shows "recv_round os s =
    (let s' = s\<lparr>world := w, mem := (mem s)(a \<mapsto> blk'),
                bufferIndex := bufferIndex s + int (length bs)\<rparr>
     in Inr (if nl \<in> set (upto_nul blk') then Continue s' else Again s'))"
proof -
  let ?b = "take (nat (bufferIndex s)) blk @ bs @ drop (nat (bufferIndex s) + length bs) blk"
  let ?s = "s\<lparr>world := w, mem := (mem s)(a \<mapsto> ?b), bufferIndex := bufferIndex s + int (length bs)\<rparr>"
  have put: "put_bytes (mem s) (recvBuffer s) (bufferIndex s) bs = Inr ((mem s)(a \<mapsto> ?b))"
    using put_bytes_recv [of s a blk bs] inv env by (simp add: holds_buffers_def)
  have "check_newline ?s = (let s' = ?s\<lparr>mem := (mem ?s)(a \<mapsto> terminated ?b)\<rparr>
     in Inr (if nl \<in> set (upto_nul (terminated ?b)) then Continue s' else Again s'))"
    using inv env by (intro check_newline_eq) (auto simp: holds_buffers_def)
  then show ?thesis
    using put env by (simp add: recv_round_eq blk' Let_def)
qed

text \<open>
  What it does when the buffer fills up: a larger block takes over the bytes, its end
  is whatever the allocator left there, and the newline is looked for among the bytes received.
\<close>

lemma upto_nul_prefix: "NUL \<in> set xs \<Longrightarrow> upto_nul (xs @ ys) = upto_nul xs"
  by (auto intro: takeWhile_append1)

lemma grow_buffer_cases:
  assumes "alloc_ok os" and inv: "holds_buffers s a blk" "int (length blk) = bufferSize s"
    "2 \<le> bufferSize s" "last blk = NUL"
  obtains (overflow) "grow_buffer os s = Inl Undefined"
    "bufferSize s + kBufferStartLength > INT_MAX"
  | (no_memory) s' where "grow_buffer os s = Inr (Returned s')" "complete (threadData s')"
  | (grown) s' b blk' where "holds_buffers s' b blk'" "last blk' = NUL" "take (length blk) blk' = blk"
    "int (length blk') = bufferSize s'" "bufferSize s' = bufferSize s + kBufferStartLength"
    "bufferIndex s' = bufferSize s - 1" "global_mutex s' = global_mutex s"
    "threadData s' = threadData s" "ioctlCmdRecv s' = ioctlCmdRecv s"
    "grow_buffer os s = Inr (if nl \<in> set (upto_nul blk) then Continue s' else Again s')"
proof (cases "bufferSize s + kBufferStartLength > INT_MAX")
  case True
  then show thesis by (intro overflow) (simp_all add: grow_buffer_def)
next
  case False
  let ?n = "bufferSize s + kBufferStartLength"
  obtain w p h where re: "os_realloc os (world s) (mem s) a (nat ?n) = (w, p, h)"
    by (metis prod_cases3)
  let ?t = "s\<lparr>bufferSize := ?n, bufferIndex := bufferSize s - 1, world := w, mem := h\<rparr>"
  have a: "recvBuffer s = Some (a, 0)" "mem s a = Some blk" using inv by (auto simp: holds_buffers_def)
  show thesis
  proof (cases p)
    case None
    with alloc_reallocN [OF assms(1), of "mem s" a blk] a(2) re have "h = mem s" by simp
    then have "holds_buffers ?t a blk" using inv by (simp add: holds_buffers_def)
    from return_complete_ok [OF this] obtain s' where
      "return_complete ?t = Inr (Returned s')" "released ?t s'" by blast
    with None re a False show thesis
      by (intro no_memory [of s']) (auto simp: grow_buffer_def released_def Let_def)
  next
    case (Some b)
    with alloc_reallocD [OF assms(1), of "mem s" a blk] a(2) re obtain bs where
      b: "b = a \<or> mem s b = None" "length bs = nat ?n" "take (length blk) bs = take (nat ?n) blk"
        "h = (mem s)(a := None, b \<mapsto> bs)"
      by metis
    then have bs: "take (length blk) bs = blk" "int (length bs) = ?n"
      using inv by (simp_all add: kBufferStartLength_def)
    have long: "length blk < length bs" using bs(2) inv(2) by (simp add: kBufferStartLength_def)
    let ?b = "terminated bs" and ?u = "?t\<lparr>recvBuffer := Some (b, 0)\<rparr>"
    have pre: "take (length blk) ?b = blk"
      using bs(1) long by (auto simp: butlast_conv_take min_def)
    have "blk \<noteq> []" using inv(2,3) by auto
    then have nul: "NUL \<in> set blk" using inv(4) last_in_set by metis
    have "upto_nul ?b = upto_nul blk"
      using upto_nul_prefix [of blk "drop (length blk) ?b"] nul pre
      by (metis append_take_drop_id)
    moreover have "check_newline ?u = (let s' = ?u\<lparr>mem := (mem ?u)(b \<mapsto> ?b)\<rparr>
       in Inr (if nl \<in> set (upto_nul ?b) then Continue s' else Again s'))"
      using b bs inv by (intro check_newline_eq) (auto simp: kBufferStartLength_def)
    ultimately show thesis
      using re Some a False b bs inv pre long
      by (intro grown [of "?u\<lparr>mem := (mem ?u)(b \<mapsto> ?b)\<rparr>" b ?b])
        (auto simp: grow_buffer_def holds_buffers_def Let_def)
  qed
qed

text \<open>A message is ready: the buffer holds a C string with a newline.\<close>

definition ready :: "'w thread \<Rightarrow> bytes \<Rightarrow> bool" where
  "ready s str \<longleftrightarrow>
     (\<exists>a blk. holds_buffers s a blk \<and> cstring blk = Inr str \<and> nl \<in> set str)"

lemma ready_string: "ready s str \<Longrightarrow> string_at (mem s) (recvBuffer s) = Inr str \<and> nl \<in> set str"
  by (auto simp: ready_def holds_buffers_def string_at_def block_from_def)

text \<open>What a round leaves alone.\<close>

definition same_globals :: "'w thread \<Rightarrow> 'w thread \<Rightarrow> bool" where
  "same_globals s s' \<longleftrightarrow>
     global_mutex s' = global_mutex s \<and> threadData s' = threadData s \<and>
     ioctlCmdRecv s' = ioctlCmdRecv s"

lemma same_globals_trans: "same_globals s t \<Longrightarrow> same_globals t u \<Longrightarrow> same_globals s u"
  by (simp add: same_globals_def)

lemma terminated_append: "ys \<noteq> [] \<Longrightarrow> terminated (xs @ ys) = xs @ terminated ys"
  by (simp add: butlast_append)

text \<open>The block after \<open>bs\<close> was stored at the index: it is still terminated.\<close>

definition stored :: "'w thread \<Rightarrow> bytes \<Rightarrow> bytes \<Rightarrow> bytes" where
  "stored s blk bs =
     take (nat (bufferIndex s)) blk @ bs @ drop (nat (bufferIndex s) + length bs) blk"

lemma stored_wf:
  assumes "int (length blk) = bufferSize s" "0 \<le> bufferIndex s" "last blk = NUL"
    "bufferIndex s + int (length bs) < bufferSize s"
  shows "length (stored s blk bs) = length blk \<and> last (stored s blk bs) = NUL \<and>
    stored s blk bs \<noteq> [] \<and> NUL \<in> set (stored s blk bs)"
proof -
  have "drop (nat (bufferIndex s) + length bs) blk \<noteq> []" using assms by auto
  then have "length (stored s blk bs) = length blk" "last (stored s blk bs) = NUL"
    "stored s blk bs \<noteq> []"
    using assms by (auto simp: stored_def)
  then show ?thesis using last_in_set by metis
qed

lemma recv_round_full:
  assumes "alloc_ok os" and inv: "holds_buffers s a blk" "int (length blk) = bufferSize s"
      "0 \<le> bufferIndex s" "bufferIndex s + 2 \<le> bufferSize s" "last blk = NUL"
    and env: "\<not> poll_exit os (world s)"
      "os_recv os (world s) (cfd (threadData s)) (nat (bufferSize s - bufferIndex s - 1)) = (w, Some bs)"
      "int (length bs) = bufferSize s - bufferIndex s - 1"
  obtains (overflow) "recv_round os s = Inl Undefined" "bufferSize s + kBufferStartLength > INT_MAX"
  | (returned) s' where "recv_round os s = Inr (Returned s')" "complete (threadData s')"
  | (again) s' where "recv_round os s = Inr (Again s')" "recv_inv s'" "same_globals s s'"
  | (message) s' where "recv_round os s = Inr (Continue s')"
    "ready s' (upto_nul (stored s blk bs))" "same_globals s s'"
proof -
  let ?b = "stored s blk bs"
  let ?t = "s\<lparr>world := w, mem := (mem s)(a \<mapsto> ?b)\<rparr>"
  have b: "length ?b = length blk" "last ?b = NUL" "NUL \<in> set ?b"
    using stored_wf [of blk s bs] inv env(3) by auto
  have "put_bytes (mem s) (recvBuffer s) (bufferIndex s) bs = Inr ((mem s)(a \<mapsto> ?b))"
    using put_bytes_recv [of s a blk bs] inv env(3) by (simp add: holds_buffers_def stored_def)
  with env have round: "recv_round os s = grow_buffer os ?t" by (simp add: recv_round_eq Let_def)
  have t: "holds_buffers ?t a ?b" "int (length ?b) = bufferSize ?t" "2 \<le> bufferSize ?t"
    using inv b by (auto simp: holds_buffers_def)
  show thesis
  proof (cases rule: grow_buffer_cases [OF assms(1) t b(2), case_names overflow no_memory grown])
    case overflow
    with round that(1) show thesis by simp
  next
    case (no_memory s')
    with round that(2) show thesis by simp
  next
    case (grown s' b' blk')
    have up: "upto_nul blk' = upto_nul ?b" "NUL \<in> set blk'"
      using upto_nul_prefix [OF b(3), of "drop (length ?b) blk'"] b(3) grown(3)
      by (metis append_take_drop_id, metis in_set_takeD)
    have same: "same_globals s s'" using grown by (simp add: same_globals_def)
    show thesis
    proof (cases "nl \<in> set (upto_nul ?b)")
      case True
      then have "ready s' (upto_nul ?b)" using grown(1) up by (auto simp: ready_def cstring_def)
      with round grown True same that(4) show thesis by simp
    next
      case False
      then have "recv_inv s'"
        using grown up t(3) by (intro recv_invI [of s' b' blk']) (simp_all add: kBufferStartLength_def)
      with round grown False same that(3) show thesis by simp
    qed
  qed
qed

lemma recv_round_short:
  assumes inv: "holds_buffers s a blk" "int (length blk) = bufferSize s"
      "0 \<le> bufferIndex s" "bufferIndex s + 2 \<le> bufferSize s" "last blk = NUL"
    and env: "\<not> poll_exit os (world s)"
      "os_recv os (world s) (cfd (threadData s)) (nat (bufferSize s - bufferIndex s - 1)) = (w, Some bs)"
      "int (length bs) < bufferSize s - bufferIndex s - 1"
  obtains (again) s' where "recv_round os s = Inr (Again s')" "recv_inv s'" "same_globals s s'"
    "nl \<notin> set (upto_nul (stored s blk bs))"
  | (message) s' where "recv_round os s = Inr (Continue s')"
    "ready s' (upto_nul (stored s blk bs))" "same_globals s s'"
proof -
  let ?b = "stored s blk bs"
  have b: "length ?b = length blk" "last ?b = NUL" "?b \<noteq> []" "NUL \<in> set ?b"
    using stored_wf [of blk s bs] inv env(3) by auto
  then have fixed: "terminated ?b = ?b" by (metis append_butlast_last_id)
  let ?s = "s\<lparr>world := w, mem := (mem s)(a \<mapsto> ?b), bufferIndex := bufferIndex s + int (length bs)\<rparr>"
  have round: "recv_round os s = Inr (if nl \<in> set (upto_nul ?b) then Continue ?s else Again ?s)"
    using recv_round_partial [OF inv(1-4) env refl] fixed by (simp add: stored_def Let_def)
  have hold: "holds_buffers ?s a ?b" using inv(1) by (auto simp: holds_buffers_def)
  have same: "same_globals s ?s" by (simp add: same_globals_def)
  show thesis
  proof (cases "nl \<in> set (upto_nul ?b)")
    case True
    then have "ready ?s (upto_nul ?b)" using hold b(4) by (auto simp: ready_def cstring_def)
    with round True same that(2) show thesis by simp
  next
    case False
    have "recv_inv ?s"
      using hold env(3) inv b False by (intro recv_invI [of ?s a ?b]) simp_all
    with round False same that(1) show thesis by simp
  qed
qed

lemma recv_round_cases:
  assumes "alloc_ok os" "recv_ok os" "recv_inv s"
  obtains (overflow) "recv_round os s = Inl Undefined" "bufferSize s + kBufferStartLength > INT_MAX"
  | (returned) s' where "recv_round os s = Inr (Returned s')" "complete (threadData s')"
  | (again) s' where "recv_round os s = Inr (Again s')" "recv_inv s'" "same_globals s s'"
  | (message) s' str where "recv_round os s = Inr (Continue s')" "ready s' str" "same_globals s s'"
proof -
  from assms(3) obtain a blk where inv: "holds_buffers s a blk" "int (length blk) = bufferSize s"
    "0 \<le> bufferIndex s" "bufferIndex s + 2 \<le> bufferSize s" "last blk = NUL"
    by (auto simp: recv_inv_def)
  let ?room = "bufferSize s - bufferIndex s - 1"
  obtain w r where recv: "os_recv os (world s) (cfd (threadData s)) (nat ?room) = (w, r)" by fastforce
  have hb: "holds_buffers (s\<lparr>world := w\<rparr>) a blk" using inv(1) by (simp add: holds_buffers_def)
  consider (exit) "poll_exit os (world s)"
    | (error) "\<not> poll_exit os (world s)" "r = None"
    | (bytes) bs where "\<not> poll_exit os (world s)" "r = Some bs" by (cases r) auto
  then show thesis
  proof cases
    case exit
    with freeBuffers_ok [OF inv(1)] show thesis by (auto simp: recv_round_eq intro: returned)
  next
    case error
    with return_complete_ok [OF hb] recv show thesis
      by (auto simp: recv_round_eq released_def intro: returned)
  next
    case (bytes bs)
    note env = bytes(1) recv [unfolded bytes(2)]
    have "length bs \<le> nat ?room" using assms(2) env(2) by (auto simp: recv_ok_def)
    then consider "int (length bs) = ?room" | "int (length bs) < ?room" using inv by linarith
    then show thesis
      using that recv_round_full [OF assms(1) inv env] recv_round_short [OF inv env]
      by cases metis+
  qed
qed

section \<open>The loop\<close>

lemma recv_loop_outcome:
  assumes "recv_loop os s = Some r"
  shows "alloc_ok os \<Longrightarrow> recv_ok os \<Longrightarrow> recv_inv s \<Longrightarrow>
    r = Inl Undefined \<or> (\<exists>s'. r = Inr (Returned s') \<and> complete (threadData s')) \<or>
    (\<exists>s' str. r = Inr (Continue s') \<and> ready s' str \<and> same_globals s s')"
  using assms
proof (induction os s r rule: recv_loop.raw_induct [rotated, consumes 1, case_names 1])
  case (1 loop os s r)
  note ih = 1(1) and body = 1(2)
  from 1(3-5) show ?case
  proof (cases rule: recv_round_cases)
    case overflow
    with body show ?thesis by simp
  next
    case (returned s')
    with body show ?thesis by auto
  next
    case (again s')
    with body have "loop os s' = Some r" by simp
    from ih [OF this 1(3,4) again(2)] show ?thesis
      using same_globals_trans [OF again(3)] by blast
  next
    case (message s' str)
    with body show ?thesis by auto
  qed
qed

text \<open>A peer that sends nothing more: the loop runs forever, unless it is told to exit.\<close>

lemma recv_loop_closed:
  assumes "alloc_ok os" "recv_ok os"
    and closed: "\<And>w n. W w \<Longrightarrow> \<not> poll_exit os w \<and> (\<exists>w'. os_recv os w c n = (w', Some []) \<and> W w')"
    and start: "recv_inv s0" "W (world s0)" "cfd (threadData s0) = c"
  shows "recv_loop os s0 = None"
proof -
  have "o' = os \<Longrightarrow> recv_inv s \<Longrightarrow> W (world s) \<Longrightarrow> cfd (threadData s) = c \<Longrightarrow> False"
    if "recv_loop o' s = Some r" for o' s r
    using that
  proof (induction o' s r rule: recv_loop.raw_induct [rotated, consumes 1, case_names 1])
    case (1 loop o' s r)
    then obtain a blk where inv: "holds_buffers s a blk" "int (length blk) = bufferSize s"
      "0 \<le> bufferIndex s" "bufferIndex s + 2 \<le> bufferSize s" "last blk = NUL" "nl \<notin> set (upto_nul blk)"
      by (auto simp: recv_inv_def)
    obtain w' where w': "os_recv os (world s) c (nat (bufferSize s - bufferIndex s - 1)) = (w', Some [])"
      "W w'" "\<not> poll_exit os (world s)"
      using closed 1(5) by blast
    have "blk \<noteq> []" using inv by auto
    then have "terminated blk = blk" using inv(5) by (metis append_butlast_last_id)
    moreover have "(mem s)(a \<mapsto> blk) = mem s" using inv(1) by (auto simp: holds_buffers_def)
    ultimately have "recv_round os s = Inr (Again (s\<lparr>world := w'\<rparr>))"
      using recv_round_partial [OF inv(1-4), of os w' "[]"] inv w' 1(6) by (simp add: Let_def)
    with 1(2,3) have "loop os (s\<lparr>world := w'\<rparr>) = Some r" by simp
    moreover have "recv_inv (s\<lparr>world := w'\<rparr>)"
      using 1(4) by (simp add: recv_inv_def holds_buffers_def)
    ultimately show False using 1(1) [of os "s\<lparr>world := w'\<rparr>" r] 1(3,6) w'(2) by simp
  qed
  from this [of os s0] start show ?thesis by (cases "recv_loop os s0") auto
qed

text \<open>
  \<open>delivers os c w n bss w'\<close>: with room for \<open>n\<close> bytes, the calls of \<open>recv\<close> from world \<open>w\<close> on return
  the non-empty chunks \<open>bss\<close>, and end in world \<open>w'\<close>; nobody asks the thread to exit meanwhile.
\<close>

fun delivers :: "'w os \<Rightarrow> int \<Rightarrow> 'w \<Rightarrow> nat \<Rightarrow> bytes list \<Rightarrow> 'w \<Rightarrow> bool" where
  "delivers os c w n [] w' \<longleftrightarrow> w = w'"
| "delivers os c w n (bs # bss) w' \<longleftrightarrow>
     \<not> poll_exit os w \<and> bs \<noteq> [] \<and> snd (os_recv os w c n) = Some bs \<and>
     delivers os c (fst (os_recv os w c n)) (n - length bs) bss w'"

lemma upto_nul_padded: "NUL \<notin> set d \<Longrightarrow> 0 < n \<Longrightarrow> upto_nul (d @ replicate n NUL) = d"
  by (cases n) (auto simp: takeWhile_append takeWhile_eq_Nil_iff)

lemma terminated_padded: "0 < n \<Longrightarrow> terminated (xs @ replicate n NUL) = xs @ replicate n NUL"
  by (cases n) (simp_all add: replicate_append_same [symmetric] butlast_append)

lemma recv_loop_delivers:
  assumes "line_end = line @ [nl]" "nl \<notin> set line" "NUL \<notin> set line" "length line_end < 127"
  shows "holds_buffers s a (d @ replicate (128 - length d) NUL) \<Longrightarrow> bufferSize s = 128 \<Longrightarrow>
    bufferIndex s = int (length d) \<Longrightarrow> cfd (threadData s) = c \<Longrightarrow>
    delivers os c (world s) (127 - length d) bss w' \<Longrightarrow> bss \<noteq> [] \<Longrightarrow> d @ concat bss = line_end \<Longrightarrow>
    \<exists>s'. recv_loop os s = Some (Inr (Continue s')) \<and> ready s' line_end \<and> world s' = w' \<and>
         same_globals s s' \<and> sendBuffer s' = sendBuffer s"
proof (induction bss arbitrary: s d)
  case Nil
  then show ?case by simp
next
  case (Cons bs bss)
  obtain w where w: "os_recv os (world s) c (127 - length d) = (w, Some bs)"
    "\<not> poll_exit os (world s)" "bs \<noteq> []" "delivers os c w (127 - length d - length bs) bss w'"
    using Cons.prems(5) by (cases "os_recv os (world s) c (127 - length d)") auto
  have len: "length d + length bs < 127"
    using Cons.prems(7) assms(4) by (metis append.assoc concat.simps(2) length_append
        le_add1 order.strict_trans1)
  have noNUL: "NUL \<notin> set (d @ bs)"
  proof -
    have "set (d @ bs) \<subseteq> set line_end" using Cons.prems(7) by (auto simp flip: Cons.prems(7))
    then show ?thesis using assms(1,3) by (auto simp: NUL_def)
  qed
  define b where "b = (d @ bs) @ replicate (128 - length (d @ bs)) NUL"
  define t where "t = s\<lparr>world := w, mem := (mem s)(a \<mapsto> b), bufferIndex := int (length (d @ bs))\<rparr>"
  have n: "0 < 128 - length (d @ bs)" using len by simp
  have b: "b = terminated (take (nat (bufferIndex s)) (d @ replicate (128 - length d) NUL) @ bs
      @ drop (nat (bufferIndex s) + length bs) (d @ replicate (128 - length d) NUL))"
    using Cons.prems(3) terminated_padded [OF n, of "d @ bs"] by (simp add: b_def)
  have up: "upto_nul b = d @ bs" unfolding b_def by (rule upto_nul_padded [OF noNUL n])
  have round: "recv_round os s = Inr (if nl \<in> set (d @ bs) then Continue t else Again t)"
  proof -
    have "nat (bufferSize s - bufferIndex s - 1) = 127 - length d"
      "int (length (d @ replicate (128 - length d) NUL)) = bufferSize s"
      "bufferIndex s + 2 \<le> bufferSize s" "int (length bs) < bufferSize s - bufferIndex s - 1"
      using Cons.prems(2,3) len by auto
    with recv_round_partial [OF Cons.prems(1) _ _ _ w(2) _ _ b, of w] Cons.prems(3,4) w(1)
    show ?thesis by (simp add: up t_def Let_def)
  qed
  have t: "holds_buffers t a b" "same_globals s t" "sendBuffer t = sendBuffer s" "world t = w"
    using Cons.prems(1) by (auto simp: t_def holds_buffers_def same_globals_def)
  show ?case
  proof (cases "bss = []")
    case True
    then have m: "d @ bs = line_end" "w = w'" using Cons.prems(7) w(4) by auto
    have "cstring b = Inr line_end" using len by (simp add: cstring_def up m) (simp add: b_def)
    then have "ready t line_end" using t(1) assms(1) unfolding ready_def by auto
    with round True m t assms(1) show ?thesis by (simp add: recv_loop.simps)
  next
    case False
    then have "concat bss \<noteq> []" using w(4) by (cases bss) auto
    then have "nl \<notin> set (d @ bs)"
      using Cons.prems(7) assms(1,2)
      by (metis append.assoc butlast_append butlast_snoc concat.simps(2) in_set_conv_decomp_first Un_iff set_append)
    moreover have "\<exists>s'. recv_loop os t = Some (Inr (Continue s')) \<and> ready s' line_end \<and>
        world s' = w' \<and> same_globals t s' \<and> sendBuffer s' = sendBuffer t"
      using False Cons.prems w(4) t
      by (intro Cons.IH [of t "d @ bs"]) (auto simp: t_def b_def)
    ultimately show ?thesis
      using round t same_globals_trans [OF t(2)] by (fastforce simp: recv_loop.simps)
  qed
qed

section \<open>Properties of the receive loop\<close>

text \<open>
  A concrete environment: the client's chunks are the world, \<open>realloc\<close> works in place and leaves
  \<open>?\<close> in the bytes it adds, the device accepts everything and is empty.
\<close>

definition chunk_calloc :: "'w \<Rightarrow> heap \<Rightarrow> nat \<Rightarrow> 'w \<times> ptr \<times> heap" where
  "chunk_calloc w h n =
     (case ref_fresh h of None \<Rightarrow> (w, None, h) | Some a \<Rightarrow> (w, Some a, h(a \<mapsto> replicate n NUL)))"

definition chunk_realloc :: "'w \<Rightarrow> heap \<Rightarrow> addr \<Rightarrow> nat \<Rightarrow> 'w \<times> ptr \<times> heap" where
  "chunk_realloc w h b n =
     (let old = block_at h (Some b)
      in (w, Some b, h(b \<mapsto> take n old @ replicate (n - length old) CHR ''?'')))"

definition chunk_os :: "bytes list os" where
  "chunk_os =
     \<lparr>os_calloc = chunk_calloc,
      os_realloc = chunk_realloc,
      os_recv = (\<lambda>w c n. case w of [] \<Rightarrow> ([], Some []) | bs # bss \<Rightarrow> (bss, Some (take n bs))),
      os_send = (\<lambda>w c bs. (w, int (length bs))),
      os_open = (\<lambda>w. (w, 3)),
      os_close = (\<lambda>w f. w),
      os_write = (\<lambda>w f bs. (w, int (length bs))),
      os_read = (\<lambda>w f n. (w, Some [])),
      os_lseek = (\<lambda>w f off org. (w, 0)),
      os_ioctl = (\<lambda>w f arg. (w, 0)),
      poll_exit = (\<lambda>w. False)\<rparr>"

lemma chunk_alloc: "os_calloc os = chunk_calloc \<Longrightarrow> os_realloc os = chunk_realloc \<Longrightarrow> alloc_ok os"
  unfolding alloc_ok_def
  by (auto simp: chunk_calloc_def chunk_realloc_def block_at_def Let_def ref_fresh_free
      min_def split: option.splits
      intro!: exI [of _ "take _ _ @ replicate (_ - length _) CHR ''?''"])

lemma chunk_alloc_ok: "alloc_ok chunk_os"
  by (rule chunk_alloc) (simp_all add: chunk_os_def)

lemma chunk_recv_ok: "recv_ok chunk_os"
  by (auto simp: recv_ok_def chunk_os_def split: list.splits)

definition td_example :: socketThreadData where
  "td_example = \<lparr>mutexExit = Some 1, cfd = 5, complete = False, exit = False\<rparr>"

definition thread_example :: "'w \<Rightarrow> 'w thread" where
  "thread_example w =
     \<lparr>world = w, mem = [0 \<mapsto> replicate 128 NUL], global_mutex = False, global_fd = 0,
      threadData = td_example, exit_mutex = False, recvBuffer = Some (0, 0), sendBuffer = None,
      bufferSize = 128, bufferIndex = 0, ioctlCmdRecv = False\<rparr>"

lemma thread_example_inv: "recv_inv (thread_example w)"
  by (rule recv_invI [of _ 0 "replicate 128 NUL"])
    (auto simp: thread_example_def holds_buffers_def takeWhile_eq_Nil_iff NUL_def)

text \<open>
  C21: the receive loop keeps to its buffers. However the bytes arrive, whatever they are and
  however often the buffer has to grow, no round reads or writes outside the buffer or
  frees a block twice; the only undefined behaviour left is the overflow of the buffer size
  beyond \<open>INT_MAX\<close>. When the loop hands on a message, the buffer holds a terminated string with a
  newline in it; when the thread returns, it is marked complete.
\<close>

theorem recv_loop_memory_safe:
  assumes "alloc_ok os" "recv_ok os" "recv_inv s" "recv_loop os s = Some r"
  shows "r = Inl Undefined \<or> (\<exists>s'. r = Inr (Returned s') \<and> complete (threadData s')) \<or>
    (\<exists>s' str. r = Inr (Continue s') \<and> string_at (mem s') (recvBuffer s') = Inr str \<and>
              nl \<in> set str \<and> global_mutex s' = global_mutex s)"
  using recv_loop_outcome [OF assms(4,1-3)] ready_string
  by (fastforce simp: same_globals_def)

theorem recv_loop_memory_safe_witness:
  "\<exists>s' str. recv_loop chunk_os (thread_example [''hi'', [nl]]) = Some (Inr (Continue s')) \<and>
     string_at (mem s') (recvBuffer s') = Inr str \<and> nl \<in> set str"
proof -
  obtain s' where s': "recv_loop chunk_os (thread_example [''hi'', [nl]]) = Some (Inr (Continue s'))"
    using recv_loop_delivers [of "''hi'' @ [nl]" "''hi''" "thread_example [''hi'', [nl]]" 0 "[]" 5
        chunk_os "[''hi'', [nl]]" "[]"]
    by (auto simp: thread_example_def td_example_def holds_buffers_def chunk_os_def NUL_def)
  from recv_loop_memory_safe [OF chunk_alloc_ok chunk_recv_ok thread_example_inv s'] s'
  show ?thesis by auto
qed

text \<open>
  C32: a line of fewer than 127 bytes is received exactly. In however many pieces the client's line
  arrives, the receive loop returns and hands on that line and nothing else.
\<close>

theorem short_message_received:
  assumes "holds_buffers s a (replicate 128 NUL)" "bufferSize s = 128" "bufferIndex s = 0"
    and "delivers os (cfd (threadData s)) (world s) 127 chunks w'"
    and "concat chunks = line @ [nl]" "nl \<notin> set line" "NUL \<notin> set line" "length line < 126"
  shows "\<exists>s'. recv_loop os s = Some (Inr (Continue s')) \<and>
    string_at (mem s') (recvBuffer s') = Inr (line @ [nl]) \<and> world s' = w'"
proof -
  have "chunks \<noteq> []" using assms(5) by auto
  with recv_loop_delivers [of "line @ [nl]" line s a "[]"] assms ready_string
  show ?thesis by fastforce
qed

theorem short_message_received_witness:
  "\<exists>s'. recv_loop chunk_os (thread_example [''hel'', ''lo'' @ [nl]]) = Some (Inr (Continue s')) \<and>
        string_at (mem s') (recvBuffer s') = Inr (''hello'' @ [nl]) \<and> world s' = []"
  by (rule short_message_received [of _ 0 _ "[''hel'', ''lo'' @ [nl]]"])
    (auto simp: thread_example_def td_example_def holds_buffers_def chunk_os_def NUL_def)

text \<open>
  The round that fills the buffer with 127 bytes and no newline: the enlarged block keeps them
  and their terminator, and behind these it holds whatever the allocator left there.
\<close>

lemma recv_round_grows:
  assumes "alloc_ok os" and s: "holds_buffers s a (replicate 128 NUL)" "bufferSize s = 128" "bufferIndex s = 0"
    and recv: "\<not> poll_exit os (world s)" "os_recv os (world s) (cfd (threadData s)) 127 = (w1, Some d)"
      "length d = 127" "nl \<notin> set d" "NUL \<notin> set d"
    and re: "os_realloc os w1 ((mem s)(a \<mapsto> d @ [NUL])) a 256 = (w2, Some b, h)" "h b = Some (d @ NUL # junk)"
  shows "length junk = 128 \<and> (\<exists>s'. recv_round os s = Inr (Again s') \<and>
    holds_buffers s' b (terminated (d @ NUL # junk)) \<and> bufferSize s' = 256 \<and> bufferIndex s' = 127 \<and>
    world s' = w2 \<and> threadData s' = threadData s)"
proof -
  have a: "recvBuffer s = Some (a, 0)" "mem s a = Some (replicate 128 NUL)"
    using s(1) by (auto simp: holds_buffers_def)
  obtain bs where b: "b = a \<or> ((mem s)(a \<mapsto> d @ [NUL])) b = None" "length bs = 256"
      "h = ((mem s)(a \<mapsto> d @ [NUL]))(a := None, b \<mapsto> bs)"
    by (rule alloc_reallocD [OF assms(1) _ re(1), of "d @ [NUL]"]) simp_all
  then have bs: "bs = d @ NUL # junk" using re(2) by simp
  then have junk: "length junk = 128" using b(2) recv(3) by simp
  have put: "put_bytes (mem s) (Some (a, 0)) 0 d = Inr ((mem s)(a \<mapsto> d @ [NUL]))"
    using put_bytes_recv [of s a "replicate 128 NUL" d] a(2) s recv(3) by (simp add: numeral_eq_Suc)
  let ?u = "s\<lparr>bufferSize := 256, bufferIndex := 127, world := w2, mem := h, recvBuffer := Some (b, 0)\<rparr>"
  let ?b = "terminated (d @ NUL # junk)"
  have up: "upto_nul ?b = d" using recv(5) junk
    by (cases junk rule: rev_cases) (auto simp: butlast_append takeWhile_append)
  have "check_newline ?u = (let s' = ?u\<lparr>mem := (mem ?u)(b \<mapsto> ?b)\<rparr>
     in Inr (if nl \<in> set (upto_nul ?b) then Continue s' else Again s'))"
    using re(2) junk recv(3) by (intro check_newline_eq) auto
  then have check: "check_newline ?u = Inr (Again (?u\<lparr>mem := h(b \<mapsto> ?b)\<rparr>))"
    using up recv(4) by (simp add: Let_def)
  have "recv_round os s = Inr (Again (?u\<lparr>mem := h(b \<mapsto> ?b)\<rparr>))"
    using s a put recv(1-3) re(1) check
    by (simp add: recv_round_eq grow_buffer_def kBufferStartLength_def INT_MAX_def Let_def)
  moreover have "holds_buffers (?u\<lparr>mem := h(b \<mapsto> ?b)\<rparr>) b ?b"
    using s(1) b by (auto simp: holds_buffers_def)
  ultimately show ?thesis using junk by auto
qed

text \<open>
  C40: a longer message picks up stale memory. A client sends 127 bytes, which fill the first buffer, and
  then, in the enlarged buffer, the rest of its line. The message that is handed on is not what
  the client sent: behind the client's bytes it holds those that \<open>realloc\<close> left in the
  enlarged block, up to the first zero byte among them (or up to the last byte of the block, which is set to
  zero). If the byte behind the received ones is not zero, the message differs from the line sent.
\<close>

theorem long_message_carries_stale_bytes:
  assumes "alloc_ok os" and "holds_buffers s a (replicate 128 NUL)" "bufferSize s = 128" "bufferIndex s = 0"
    and "\<not> poll_exit os (world s)" "os_recv os (world s) (cfd (threadData s)) 127 = (w1, Some d)"
      "length d = 127" "nl \<notin> set d" "NUL \<notin> set d"
    and "os_realloc os w1 ((mem s)(a \<mapsto> d @ [NUL])) a 256 = (w2, Some b, h)" "h b = Some (d @ NUL # junk)"
    and "\<not> poll_exit os w2" "os_recv os w2 (cfd (threadData s)) 128 = (w3, Some bs)"
      "length bs < 128" "nl \<in> set bs" "NUL \<notin> set bs"
  shows "\<exists>s' stale. recv_loop os s = Some (Inr (Continue s')) \<and>
    string_at (mem s') (recvBuffer s') = Inr (d @ bs @ stale) \<and>
    stale = upto_nul (butlast (drop (length bs - 1) junk)) \<and>
    (junk ! (length bs - 1) \<noteq> NUL \<longrightarrow> stale \<noteq> [])"
proof -
  obtain t where junk: "length junk = 128" and t: "recv_round os s = Inr (Again t)"
    "holds_buffers t b (terminated (d @ NUL # junk))" "bufferSize t = 256" "bufferIndex t = 127"
    "world t = w2" "threadData t = threadData s"
    using recv_round_grows [OF assms(1-11)] by blast
  let ?blk = "terminated (d @ NUL # junk)"
  let ?stale = "upto_nul (butlast (drop (length bs - 1) junk))"
  have bs: "0 < length bs" "length bs - 1 < 127" using assms(14,15) by (cases bs; auto)+
  have blk: "?blk = d @ NUL # butlast junk @ [NUL]"
    using junk by (cases junk rule: rev_cases) (simp_all add: butlast_append)
  have stored: "stored t ?blk bs = d @ bs @ butlast (drop (length bs - 1) junk) @ [NUL]"
    unfolding stored_def blk t(4) using assms(7) bs junk
    by (simp add: drop_Cons' drop_butlast)
  have up: "upto_nul (stored t ?blk bs) = d @ bs @ ?stale"
  proof -
    have "upto_nul (xs @ ys) = xs @ upto_nul ys" if "NUL \<notin> set xs" for xs ys using that by (auto simp: takeWhile_append)
    then have "upto_nul (stored t ?blk bs) = d @ bs @ upto_nul (butlast (drop (length bs - 1) junk) @ [NUL])"
      unfolding stored using assms(9,16) by simp
    then show ?thesis by (simp add: takeWhile_tail)
  qed
  have inv: "int (length ?blk) = bufferSize t" "0 \<le> bufferIndex t" "bufferIndex t + 2 \<le> bufferSize t"
    "last ?blk = NUL"
    using assms(7) junk t(3,4) by simp_all
  have env: "\<not> poll_exit os (world t)"
    "os_recv os (world t) (cfd (threadData t)) (nat (bufferSize t - bufferIndex t - 1)) = (w3, Some bs)"
    "int (length bs) < bufferSize t - bufferIndex t - 1"
    using assms(12-14) t by simp_all
  obtain s' where s': "recv_round os t = Inr (Continue s')" "ready s' (d @ bs @ ?stale)"
  proof (cases rule: recv_round_short [OF t(2) inv env, case_names again message])
    case (again s')
    then show thesis using up assms(15) by simp
  next
    case (message s')
    then show thesis using up by (intro that) simp_all
  qed
  define k where "k = length bs - 1"
  have k: "k < 127" using bs(2) by (simp add: k_def)
  then obtain x y zs where "drop k junk = x # y # zs" using junk
    by (cases "drop k junk"; cases "tl (drop k junk)") (auto dest!: arg_cong [where f = length])
  then have "junk ! (length bs - 1) = hd (butlast (drop (length bs - 1) junk))"
    "butlast (drop (length bs - 1) junk) \<noteq> []"
    unfolding k_def [symmetric] using k junk hd_drop_conv_nth [of k junk] by auto
  then have "junk ! (length bs - 1) \<noteq> NUL \<longrightarrow> ?stale \<noteq> []" using bs junk
    by (cases "butlast (drop (length bs - 1) junk)") auto
  then show ?thesis using t(1) s' ready_string [OF s'(2)] by (auto simp: recv_loop.simps)
qed

theorem long_message_carries_stale_bytes_witness:
  "\<exists>s'. recv_loop chunk_os (thread_example [replicate 127 CHR ''a'', [nl]]) = Some (Inr (Continue s')) \<and>
     string_at (mem s') (recvBuffer s')
       = Inr (replicate 127 CHR ''a'' @ [nl] @ replicate 127 CHR ''?'')"
proof -
  let ?s = "thread_example [replicate 127 CHR ''a'', [nl]]"
  have "\<exists>s' stale. recv_loop chunk_os ?s = Some (Inr (Continue s')) \<and>
      string_at (mem s') (recvBuffer s') = Inr (replicate 127 CHR ''a'' @ [nl] @ stale) \<and>
      stale = upto_nul (butlast (drop (length [nl] - 1) (replicate 128 CHR ''?''))) \<and>
      (replicate 128 CHR ''?'' ! (length [nl] - 1) \<noteq> NUL \<longrightarrow> stale \<noteq> [])"
    by (rule long_message_carries_stale_bytes [OF chunk_alloc_ok, where a = 0 and b = 0
          and h = "[0 \<mapsto> replicate 127 CHR ''a'' @ NUL # replicate 128 CHR ''?'']"])
      (auto simp: thread_example_def td_example_def holds_buffers_def chunk_os_def chunk_realloc_def
        block_at_def NUL_def Let_def)
  moreover have "upto_nul (butlast (replicate 128 CHR ''?'')) = replicate 127 CHR ''?''"
    by (simp add: NUL_def butlast_conv_take)
  ultimately show ?thesis by auto
qed

text \<open>
  C39: a client that closes its connection keeps its thread busy forever. The code takes the result
  0 of \<open>recv\<close> for a message of no bytes and calls \<open>recv\<close> again, so \<open>process\<close> does not
  return, the thread is never marked complete and the main thread never reaps it; only a
  request to exit ends it.
\<close>

theorem closed_peer_thread_never_returns:
  assumes "alloc_ok os" "recv_ok os"
    and "\<And>w n. W w \<Longrightarrow> \<not> poll_exit os w \<and> (\<exists>w'. os_recv os w (cfd td) n = (w', Some []) \<and> W w')"
    and "os_calloc os w h 128 = (w1, Some a, h1)" "W w1"
  shows "process os w h mtx f td xm = None"
proof -
  have h1: "h1 = h(a \<mapsto> replicate 128 NUL)" using alloc_callocD [OF assms(1,4)] by simp
  let ?s = "\<lparr>world = w1, mem = h1, global_mutex = mtx, global_fd = f, threadData = td, exit_mutex = xm,
    recvBuffer = Some (a, 0), sendBuffer = None, bufferSize = 128, bufferIndex = 0,
    ioctlCmdRecv = False\<rparr>"
  have "recv_inv ?s"
    by (rule recv_invI [of _ a "replicate 128 NUL"])
      (auto simp: h1 holds_buffers_def takeWhile_eq_Nil_iff NUL_def)
  then have "recv_loop os ?s = None"
    using assms(5) by (intro recv_loop_closed [OF assms(1,2,3)]) simp_all
  then show ?thesis
    using assms(4)
    by (simp add: process_def process_loop.simps process_round_def start_message_def
        kBufferStartLength_def Let_def)
qed

theorem closed_peer_thread_never_returns_witness:
  "process chunk_os [] Map.empty False 0 td_example False = None"
proof (rule closed_peer_thread_never_returns [OF chunk_alloc_ok chunk_recv_ok, of "\<lambda>w. w = []"])
  have "ref_fresh Map.empty = Some 0" by (simp add: ref_fresh_def upt_rec)
  then show "os_calloc chunk_os [] Map.empty 128 = ([], Some 0, [0 \<mapsto> replicate 128 NUL])"
    by (simp add: chunk_os_def chunk_calloc_def)
qed (simp_all add: chunk_os_def)

end
