(* ===== verification/Server_Threads.thy ===== *)
theory Server_Threads
  imports Server_Recv
begin

text \<open>
  Several connection threads at once. The code of \<open>process\<close> is cut into atomic blocks at its loop
  heads and calls of the device; the blocks are the definitions of \<open>Server_Process\<close>. A step of the
  server is one block of one thread, on the world, the heap, the mutex and the descriptor \<open>fd\<close> that
  all threads share, or the start of a thread, or a change of the world by its
  environment (the main thread, the clients, the kernel).
\<close>

section \<open>A thread as a state machine\<close>

text \<open>
  Where a thread is: before a new message, at the head of the receive loop (before the test of the exit
  flag), before \<open>recv\<close> (where it waits as long as the client sends nothing), before the mutex, and
  with the mutex before the command, before the positioning, in the echo loop, and before closing;
  or it has returned or faulted.
\<close>

datatype pc =
  At_start | At_recv | In_recv | At_lock | In_command | In_position | In_echo int | In_close | Gone | Faulted error

text \<open>
  The result of a block: where the thread goes on when it continues or repeats. C leaves everything
  that follows a fault undefined; here the thread stops in front of the block that faults and the other
  threads go on, so that what is proved of later states of theirs is proved for this continuation.
\<close>

fun block_end :: "pc \<Rightarrow> pc \<Rightarrow> 't \<Rightarrow> 't outcome result \<Rightarrow> pc \<times> 't" where
  "block_end go_on again t (Inl e) = (Faulted e, t)"
| "block_end go_on again t (Inr (Continue t')) = (go_on, t')"
| "block_end go_on again t (Inr (Again t')) = (again, t')"
| "block_end go_on again t (Inr (Returned t')) = (Gone, t')"

definition command_block :: "'w os \<Rightarrow> 'w thread \<Rightarrow> 'w thread outcome result" where
  "command_block os t =
     rbind (string_at (mem t) (recvBuffer t)) (\<lambda>str.
     if take (length kIOCtrlStr) str = kIOCtrlStr then seek_command os t str else write_command os t str)"

fun thread_step :: "'w os \<Rightarrow> pc \<Rightarrow> 'w thread \<Rightarrow> (pc \<times> 'w thread) option" where
  "thread_step os At_start t = Some (block_end At_recv At_start t (start_message os t))"
| "thread_step os At_recv t = Some (block_end In_recv At_recv t (exit_check os t))"
| "thread_step os In_recv t = Some (block_end At_lock At_recv t (receive os t))"
| "thread_step os At_lock t =
     (if global_mutex t then None
      else let (w, f) = os_open os (world t)
           in Some (In_command, t\<lparr>global_mutex := True, world := w, global_fd := f\<rparr>))"
| "thread_step os In_command t = Some (block_end In_position In_command t (command_block os t))"
| "thread_step os In_position t =
     Some (case position_reply os t of
             Inl e \<Rightarrow> (Faulted e, t)
           | Inr (r, bytesProcessed) \<Rightarrow> block_end (In_echo bytesProcessed) In_position t (Inr r))"
| "thread_step os (In_echo bytesProcessed) t =
     Some (block_end In_close (In_echo bytesProcessed) t (echo_round os bytesProcessed t))"
| "thread_step os In_close t =
     Some (At_start, t\<lparr>world := os_close os (world t) (global_fd t), global_mutex := False\<rparr>)"
| "thread_step os Gone t = None"
| "thread_step os (Faulted e) t = None"

text \<open>A thread that runs alone.\<close>

inductive solo :: "'w os \<Rightarrow> pc \<times> 'w thread \<Rightarrow> pc \<times> 'w thread \<Rightarrow> bool" for os where
  refl: "solo os x x"
| step: "thread_step os p t = Some y \<Longrightarrow> solo os y z \<Longrightarrow> solo os (p, t) z"

lemma solo_trans: "solo os x y \<Longrightarrow> solo os y z \<Longrightarrow> solo os x z"
  by (induction rule: solo.induct) (auto intro: solo.intros)

lemma solo_one: "thread_step os p t = Some y \<Longrightarrow> solo os (p, t) y"
  by (rule solo.step [OF _ solo.refl])

section \<open>The server\<close>

record 'w server =
  sh_world :: 'w
  sh_mem :: heap
  sh_mutex :: bool
  sh_fd :: int
  thr :: "nat \<rightharpoonup> pc \<times> 'w thread"

text \<open>A thread's view: its own variables and the shared ones; and what it leaves behind.\<close>

definition load :: "'w server \<Rightarrow> 'w thread \<Rightarrow> 'w thread" where
  "load S t = t\<lparr>world := sh_world S, mem := sh_mem S, global_mutex := sh_mutex S, global_fd := sh_fd S\<rparr>"

definition store :: "'w server \<Rightarrow> nat \<Rightarrow> pc \<times> 'w thread \<Rightarrow> 'w server" where
  "store S i x =
     (let t = snd x
      in S\<lparr>sh_world := world t, sh_mem := mem t, sh_mutex := global_mutex t, sh_fd := global_fd t,
           thr := (thr S)(i \<mapsto> x)\<rparr>)"

definition fresh_thread :: "'w server \<Rightarrow> socketThreadData \<Rightarrow> 'w thread" where
  "fresh_thread S td =
     \<lparr>world = sh_world S, mem = sh_mem S, global_mutex = sh_mutex S, global_fd = sh_fd S,
      threadData = td, exit_mutex = False, recvBuffer = None, sendBuffer = None, bufferSize = 0,
      bufferIndex = 0, ioctlCmdRecv = False\<rparr>"

text \<open>A step, labelled with the thread that makes it. Thread \<open>i\<close> makes its calls through \<open>os i\<close>.\<close>

inductive server_step ::
  "(nat \<Rightarrow> 'w os) \<Rightarrow> ('w \<Rightarrow> 'w \<Rightarrow> bool) \<Rightarrow> nat option \<Rightarrow> 'w server \<Rightarrow> 'w server \<Rightarrow> bool"
  for os env where
  run: "thr S i = Some (p, t) \<Longrightarrow> thread_step (os i) p (load S t) = Some x \<Longrightarrow>
    server_step os env (Some i) S (store S i x)"
| spawn: "thr S i = None \<Longrightarrow>
    server_step os env None S (S\<lparr>thr := (thr S)(i \<mapsto> (At_start, fresh_thread S td))\<rparr>)"
| outside: "env (sh_world S) w \<Longrightarrow> server_step os env None S (S\<lparr>sh_world := w\<rparr>)"

text \<open>Runs in which every step has a label in \<open>L\<close>, and the states reached from an idle server.\<close>

inductive server_run ::
  "(nat \<Rightarrow> 'w os) \<Rightarrow> ('w \<Rightarrow> 'w \<Rightarrow> bool) \<Rightarrow> (nat option \<Rightarrow> bool) \<Rightarrow> 'w server \<Rightarrow> 'w server \<Rightarrow> bool"
  for os env L where
  nothing: "server_run os env L S S"
| more: "server_run os env L S S' \<Longrightarrow> server_step os env l S' S'' \<Longrightarrow> L l \<Longrightarrow> server_run os env L S S''"

definition idle :: "'w server \<Rightarrow> bool" where
  "idle S \<longleftrightarrow> \<not> sh_mutex S \<and> thr S = Map.empty"

definition server_reachable :: "(nat \<Rightarrow> 'w os) \<Rightarrow> ('w \<Rightarrow> 'w \<Rightarrow> bool) \<Rightarrow> 'w server \<Rightarrow> bool" where
  "server_reachable os env S \<longleftrightarrow> (\<exists>S0. idle S0 \<and> server_run os env (\<lambda>l. True) S0 S)"

section \<open>Blocks and the mutex\<close>

fun critical :: "pc \<Rightarrow> bool" where
  "critical In_command = True"
| "critical In_position = True"
| "critical (In_echo n) = True"
| "critical In_close = True"
| "critical _ = False"

text \<open>What a block keeps: the mutex and the descriptor.\<close>

definition keeps :: "'w thread \<Rightarrow> 'w thread \<Rightarrow> bool" where
  "keeps t t' \<longleftrightarrow> global_mutex t' = global_mutex t \<and> global_fd t' = global_fd t"

text \<open>The allocator and \<open>recv\<close> do not change what \<open>view\<close> sees of the world.\<close>

definition silent :: "'w os \<Rightarrow> ('w \<Rightarrow> 'v) \<Rightarrow> bool" where
  "silent os view \<longleftrightarrow>
     (\<forall>w h n. view (fst (os_calloc os w h n)) = view w) \<and>
     (\<forall>w h a n. view (fst (os_realloc os w h a n)) = view w) \<and>
     (\<forall>w c n. view (fst (os_recv os w c n)) = view w)"

lemma silentD:
  assumes "silent os view"
  shows "os_calloc os w h n = (w', x) \<Longrightarrow> view w' = view w"
    "os_realloc os w h a n = (w', y) \<Longrightarrow> view w' = view w"
    "os_recv os w c m = (w', z) \<Longrightarrow> view w' = view w"
  using assms unfolding silent_def by (metis fst_conv)+

text \<open>
  \<open>calm view t r\<close>: the result \<open>r\<close> of a block of \<open>t\<close> keeps the mutex, the descriptor and the view.
\<close>

definition calm :: "('w \<Rightarrow> 'v) \<Rightarrow> 'w thread \<Rightarrow> 'w thread outcome result \<Rightarrow> bool" where
  "calm view t r \<longleftrightarrow>
     (\<forall>t'. r = Inr (Continue t') \<or> r = Inr (Again t') \<or> r = Inr (Returned t') \<longrightarrow>
        keeps t t' \<and> view (world t') = view (world t))"

lemma calm_Inl [simp]: "calm view t (Inl e)"
  by (simp add: calm_def)

lemma calm_trans: "keeps t t1 \<Longrightarrow> view (world t1) = view (world t) \<Longrightarrow> calm view t1 r \<Longrightarrow> calm view t r"
  by (auto simp: calm_def keeps_def)

lemma return_complete_calm: "calm view t (return_complete t)"
  by (auto simp: calm_def keeps_def return_complete_def)

lemma check_newline_calm: "calm view t (check_newline t)"
  by (auto simp: calm_def keeps_def check_newline_def split: if_splits)

lemma start_message_calm:
  assumes "silent os view"
  shows "calm view t (start_message os t)"
proof -
  obtain w q h where c: "os_calloc os (world t) (mem t) (nat kBufferStartLength) = (w, q, h)"
    by (metis prod_cases3)
  note v = silentD(1) [OF assms c]
  show ?thesis
  proof (cases q)
    case None
    then show ?thesis using c v
      by (auto simp: start_message_def keeps_def
          intro!: calm_trans [OF _ _ return_complete_calm])
  next
    case (Some a)
    then show ?thesis using c v by (auto simp: start_message_def calm_def keeps_def)
  qed
qed

lemma grow_buffer_calm:
  assumes "silent os view"
  shows "calm view t (grow_buffer os t)"
proof (cases "bufferSize t + kBufferStartLength > INT_MAX \<or> (case recvBuffer t of None \<Rightarrow> True | Some (a, k) \<Rightarrow> k \<noteq> 0)")
  case True
  then show ?thesis by (auto simp: grow_buffer_def Let_def split: option.splits)
next
  case False
  then obtain a where a: "recvBuffer t = Some (a, 0)" by (auto split: option.splits)
  let ?n = "bufferSize t + kBufferStartLength"
  obtain w q h where c: "os_realloc os (world t) (mem t) a (nat ?n) = (w, q, h)" by (metis prod_cases3)
  note v = silentD(2) [OF assms c]
  show ?thesis using False a c v
    by (cases q) (auto simp: grow_buffer_def Let_def keeps_def
        intro!: calm_trans [OF _ _ return_complete_calm] calm_trans [OF _ _ check_newline_calm])
qed

lemma recv_round_calm:
  assumes "silent os view"
  shows "calm view t (recv_round os t)"
proof (cases "poll_exit os (world t)")
  case True
  then show ?thesis by (auto simp: recv_round_eq calm_def keeps_def)
next
  case False
  let ?room = "bufferSize t - bufferIndex t - 1"
  obtain w r where c: "os_recv os (world t) (cfd (threadData t)) (nat ?room) = (w, r)" by fastforce
  note v = silentD(3) [OF assms c]
  show ?thesis
  proof (cases r)
    case None
    then show ?thesis using False c v
      by (auto simp: recv_round_eq Let_def keeps_def intro!: calm_trans [OF _ _ return_complete_calm])
  next
    case (Some bs)
    show ?thesis
    proof (cases "put_bytes (mem t) (recvBuffer t) (bufferIndex t) bs")
      case (Inr h)
      then show ?thesis using False c v Some
        by (auto simp: recv_round_eq Let_def keeps_def intro!: calm_trans [OF _ _ check_newline_calm]
            calm_trans [OF _ _ grow_buffer_calm [OF assms]])
    qed (use False c Some in \<open>simp add: recv_round_eq\<close>)
  qed
qed

lemma exit_check_calm: "calm view t (exit_check os t)"
  by (auto simp: exit_check_def calm_def keeps_def)

lemma receive_calm: "silent os view \<Longrightarrow> calm view t (receive os t)"
  unfolding receive_round by (rule recv_round_calm) (simp add: silent_def)

text \<open>A block before the mutex, a lock, a block with the mutex.\<close>

lemma block_end_calm:
  "calm view t r \<Longrightarrow> block_end p q t r = (p', t') \<Longrightarrow> keeps t t' \<and> view (world t') = view (world t)"
  by (cases "(p, q, t, r)" rule: block_end.cases) (auto simp: calm_def keeps_def)

lemma block_end_pc: "block_end p q t r = (p', t') \<Longrightarrow> p' = p \<or> p' = q \<or> p' = Gone \<or> (\<exists>e. p' = Faulted e)"
  by (cases "(p, q, t, r)" rule: block_end.cases) auto

lemma outside_step:
  assumes "thread_step os p t = Some (p', t')" "p = At_start \<or> p = At_recv \<or> p = In_recv" "silent os view"
  shows "keeps t t' \<and> view (world t') = view (world t) \<and> \<not> critical p'"
  using assms block_end_calm [OF start_message_calm [OF assms(3)]] block_end_calm [OF exit_check_calm [of view]]
    block_end_calm [OF receive_calm [OF assms(3)]]
  by (auto dest!: block_end_pc)

text \<open>A block with the mutex keeps it unless the thread leaves.\<close>

definition steady :: "'w thread \<Rightarrow> 'w thread outcome result \<Rightarrow> bool" where
  "steady t r \<longleftrightarrow> (\<forall>t'. r = Inr (Continue t') \<or> r = Inr (Again t') \<longrightarrow> keeps t t')"

lemma steady_simps [simp]:
  "steady t (Inl e)" "steady t (Inr (Returned t'))" "steady t (return_complete t'')"
  "steady t (Inr (Continue t')) = keeps t t'" "steady t (Inr (Again t')) = keeps t t'"
  by (auto simp: steady_def return_complete_def)

lemma command_block_steady: "steady t (command_block os t)"
proof (cases "string_at (mem t) (recvBuffer t)")
  case (Inr str)
  have "steady t (seek_command os t str)"
    by (cases "parse_seekto (drop (length kIOCtrlStr) str)")
      (auto simp: seek_command_def Let_def keeps_def split: prod.splits)
  moreover have "steady t (write_command os t str)"
    by (auto simp: write_command_def Let_def keeps_def split: prod.splits)
  ultimately show ?thesis using Inr by (simp add: command_block_def)
qed (simp add: command_block_def)

lemma echo_round_steady: "steady t (echo_round os n t)"
proof -
  obtain w r where c: "os_read os (world t) (global_fd t) (to_size_t n) = (w, r)" by fastforce
  show ?thesis
  proof (cases r)
    case (Some bs)
    let ?b = "map_option (\<lambda>a. (a, 0)) (sendBuffer t)"
    show ?thesis
    proof (cases "put_bytes (mem t) ?b 0 bs")
      case (Inr h)
      then show ?thesis using c Some
        by (cases "block_from h ?b") (auto simp: echo_round_def Let_def keeps_def split: prod.splits)
    qed (use c Some in \<open>simp add: echo_round_def\<close>)
  qed (use c in \<open>simp add: echo_round_def\<close>)
qed

lemma position_reply_steady: "position_reply os t = Inr (r, n) \<Longrightarrow> steady t (Inr r)"
  by (auto simp: position_reply_def Let_def steady_def keeps_def return_complete_def
      split: prod.splits if_splits)

lemma block_end_steady:
  "steady t r \<Longrightarrow> block_end p q t r = (p', t') \<Longrightarrow> critical p' \<Longrightarrow> keeps t t'"
  by (cases "(p, q, t, r)" rule: block_end.cases) auto

lemma critical_step:
  assumes "thread_step os p t = Some (p', t')" "critical p" "critical p'"
  shows "keeps t t'"
proof (cases p)
  case In_command
  then show ?thesis using assms block_end_steady [OF command_block_steady] by fastforce
next
  case In_position
  then show ?thesis using assms block_end_steady [OF position_reply_steady]
    by (auto split: sum.splits)
next
  case (In_echo n)
  then show ?thesis using assms block_end_steady [OF echo_round_steady] by fastforce
qed (use assms in auto)

section \<open>Mutual exclusion\<close>

text \<open>At most one thread is between locking and unlocking, and while one is, the mutex is held.\<close>

definition in_critical :: "'w server \<Rightarrow> nat \<Rightarrow> bool" where
  "in_critical S i \<longleftrightarrow> (\<exists>p t. thr S i = Some (p, t) \<and> critical p)"

definition mutex_inv :: "'w server \<Rightarrow> bool" where
  "mutex_inv S \<longleftrightarrow>
     (\<forall>i. in_critical S i \<longrightarrow> sh_mutex S) \<and> (\<forall>i j. in_critical S i \<longrightarrow> in_critical S j \<longrightarrow> i = j)"

lemma load_simps [simp]:
  "world (load S t) = sh_world S" "mem (load S t) = sh_mem S" "global_mutex (load S t) = sh_mutex S"
  "global_fd (load S t) = sh_fd S" "recvBuffer (load S t) = recvBuffer t"
  "sendBuffer (load S t) = sendBuffer t"
  by (simp_all add: load_def)

lemma store_simps [simp]:
  "sh_world (store S i (p, t)) = world t" "sh_mem (store S i (p, t)) = mem t"
  "sh_mutex (store S i (p, t)) = global_mutex t" "sh_fd (store S i (p, t)) = global_fd t"
  "thr (store S i (p, t)) = (thr S)(i \<mapsto> (p, t))"
  by (simp_all add: store_def)

lemma in_critical_store [simp]:
  "in_critical (store S i (p, t)) j \<longleftrightarrow> (if j = i then critical p else in_critical S j)"
  by (simp add: in_critical_def)

lemma in_critical_other [simp]:
  "in_critical (S\<lparr>sh_world := w\<rparr>) j = in_critical S j"
  "thr S i = None \<Longrightarrow> in_critical (S\<lparr>thr := (thr S)(i \<mapsto> (At_start, t))\<rparr>) j = in_critical S j"
  by (auto simp: in_critical_def)

text \<open>The three kinds of steps of a thread.\<close>

lemma thread_step_cases:
  assumes "thread_step os p t = Some (p', t')"
  obtains (before) "keeps t t'" "\<not> critical p" "\<not> critical p'" "p = At_start \<or> p = At_recv \<or> p = In_recv"
  | (lock) "p = At_lock" "\<not> global_mutex t" "p' = In_command" "global_mutex t'"
  | (inside) "critical p" "critical p' \<longrightarrow> keeps t t'"
proof (cases p)
  case At_start
  then show thesis using before outside_step [OF assms, of "\<lambda>w. ()"] by (simp add: silent_def)
next
  case At_recv
  then show thesis using before outside_step [OF assms, of "\<lambda>w. ()"] by (simp add: silent_def)
next
  case In_recv
  then show thesis using before outside_step [OF assms, of "\<lambda>w. ()"] by (simp add: silent_def)
next
  case At_lock
  then show thesis using lock assms by (auto split: if_splits prod.splits)
qed (use assms critical_step [OF assms] inside in auto)

lemma mutex_inv_step:
  assumes "server_step os env l S S'" "mutex_inv S"
  shows "mutex_inv S'"
  using assms(1)
proof (cases rule: server_step.cases)
  case (run i p t x)
  obtain p' t' where x: "x = (p', t')" by fastforce
  from run(4) [unfolded x] show ?thesis
  proof (cases rule: thread_step_cases)
    case before
    then show ?thesis using assms(2) run(2) x by (auto simp: mutex_inv_def keeps_def)
  next
    case lock
    then show ?thesis using assms(2) run(2,3) x by (auto simp: mutex_inv_def)
  next
    case inside
    then have "in_critical S i" using run(3) by (auto simp: in_critical_def)
    then have "sh_mutex S" "\<forall>j. in_critical S j \<longrightarrow> j = i" using assms(2) by (auto simp: mutex_inv_def)
    then show ?thesis using inside run(2) x by (auto simp: mutex_inv_def keeps_def)
  qed
next
  case (spawn i td)
  then show ?thesis using assms(2) by (auto simp: mutex_inv_def)
next
  case (outside w)
  then show ?thesis using assms(2) by (auto simp: mutex_inv_def)
qed

lemma mutex_inv_run:
  "server_run os env L S S' \<Longrightarrow> mutex_inv S \<Longrightarrow> mutex_inv S'"
  by (induction rule: server_run.induct) (auto intro: mutex_inv_step)

lemma reachable_mutex_inv: "server_reachable os env S \<Longrightarrow> mutex_inv S"
  unfolding server_reachable_def
proof -
  have "mutex_inv S0" if "idle S0" for S0 :: "'a server"
    using that by (simp add: idle_def mutex_inv_def in_critical_def)
  then show "\<exists>S0. idle S0 \<and> server_run os env (\<lambda>l. True) S0 S \<Longrightarrow> mutex_inv S"
    using mutex_inv_run by blast
qed

section \<open>Isolation\<close>

text \<open>
  While a thread is between locking and unlocking, the steps of the others cannot change what it
  sees: the descriptor, the mutex, its variables, and every part \<open>view\<close> of the world that the
  allocator, \<open>recv\<close> and the environment leave alone.
\<close>

lemma isolated_step:
  assumes step: "server_step os env l S S'" and l: "l \<noteq> Some i"
    and inv: "mutex_inv S" and i: "in_critical S i"
    and view: "\<And>j. silent (os j) view" "\<And>w w'. env w w' \<Longrightarrow> view w' = view w"
  shows "view (sh_world S') = view (sh_world S) \<and> sh_fd S' = sh_fd S \<and> sh_mutex S' \<and> thr S' i = thr S i"
  using step
proof (cases rule: server_step.cases)
  case (run j p t x)
  obtain p' t' where x: "x = (p', t')" by fastforce
  have ji: "j \<noteq> i" using l run(1) by simp
  have m: "sh_mutex S" using inv i by (auto simp: mutex_inv_def)
  have nc: "\<not> critical p" using inv i ji run(3) by (auto simp: mutex_inv_def in_critical_def)
  from run(4) [unfolded x] show ?thesis
  proof (cases rule: thread_step_cases)
    case before
    from outside_step [OF run(4) [unfolded x] before(4) view(1)] show ?thesis
      using run(2) x m ji by (simp add: keeps_def)
  qed (use nc m in auto)
next
  case (spawn j td)
  have "sh_mutex S" using inv i by (auto simp: mutex_inv_def)
  moreover have "j \<noteq> i" using i spawn(3) by (auto simp: in_critical_def)
  ultimately show ?thesis using spawn by simp
next
  case (outside w)
  then show ?thesis using inv i view(2) by (auto simp: mutex_inv_def)
qed

lemma isolated_run:
  assumes run: "server_run os env (\<lambda>l. l \<noteq> Some i) S S'"
    and "mutex_inv S" "in_critical S i"
    and view: "\<And>j. silent (os j) view" "\<And>w w'. env w w' \<Longrightarrow> view w' = view w"
  shows "view (sh_world S') = view (sh_world S) \<and> sh_fd S' = sh_fd S \<and> sh_mutex S' \<and> thr S' i = thr S i"
  using run assms(2,3)
proof (induction rule: server_run.induct)
  case (nothing S)
  then show ?case by (auto simp: mutex_inv_def)
next
  case (more S S' l S'')
  have "mutex_inv S'" using mutex_inv_run [OF more.hyps(1)] more.prems by blast
  moreover have "in_critical S' i" using more by (simp add: in_critical_def)
  ultimately show ?case using isolated_step [OF more.hyps(2,3) _ _ view] more by auto
qed

section \<open>A lost mutex\<close>

text \<open>The mutex is held, but by no thread that will release it.\<close>

definition mutex_lost :: "'w server \<Rightarrow> bool" where
  "mutex_lost S \<longleftrightarrow> sh_mutex S \<and> (\<forall>i. \<not> in_critical S i)"

lemma mutex_lost_step:
  assumes step: "server_step os env l S S'" and lost: "mutex_lost S"
  shows "mutex_lost S'"
  using step
proof (cases rule: server_step.cases)
  case (run i p t x)
  obtain p' t' where x: "x = (p', t')" by fastforce
  from run(4) [unfolded x] show ?thesis
    by (cases rule: thread_step_cases)
      (use lost run(2,3) x in \<open>auto simp: mutex_lost_def keeps_def in_critical_def split: if_splits\<close>)
next
  case (spawn i td)
  then show ?thesis using lost by (auto simp: mutex_lost_def)
next
  case (outside w)
  then show ?thesis using lost by (auto simp: mutex_lost_def)
qed

lemma mutex_lost_run: "server_run os env L S S' \<Longrightarrow> mutex_lost S \<Longrightarrow> mutex_lost S'"
  by (induction rule: server_run.induct) (auto intro: mutex_lost_step)

text \<open>A thread that leaves its critical section without releasing the mutex loses it.\<close>

lemma leaving_loses:
  assumes "mutex_inv S" "thr S i = Some (p, t)" "critical p"
    and "thread_step (os i) p (load S t) = Some (p', t')" "\<not> critical p'" "global_mutex t'"
  shows "mutex_lost (store S i (p', t'))"
  using assms by (auto simp: mutex_lost_def mutex_inv_def in_critical_def)

section \<open>The blocks and the sequential code\<close>

text \<open>A thread that runs alone gets to \<open>q\<close>, to its return or to a fault as the result \<open>r\<close> says.\<close>

definition arrives :: "'w os \<Rightarrow> pc \<times> 'w thread \<Rightarrow> pc \<Rightarrow> 'w thread outcome result \<Rightarrow> bool" where
  "arrives os x q r \<longleftrightarrow>
     (case r of
        Inl e \<Rightarrow> \<exists>t'. solo os x (Faulted e, t')
      | Inr (Continue t') \<Rightarrow> solo os x (q, t')
      | Inr (Again t') \<Rightarrow> False
      | Inr (Returned t') \<Rightarrow> solo os x (Gone, t'))"

lemma arrives_trans: "solo os x y \<Longrightarrow> arrives os y q r \<Longrightarrow> arrives os x q r"
  by (auto simp: arrives_def intro: solo_trans split: sum.splits outcome.splits)

lemma arrives_one:
  assumes "thread_step os p t = Some (block_end q p' t r)" "\<And>t'. r \<noteq> Inr (Again t')"
  shows "arrives os (p, t) q r"
proof (cases r)
  case (Inl e)
  then show ?thesis using solo_one [OF assms(1)] by (auto simp: arrives_def)
next
  case (Inr x)
  then show ?thesis using solo_one [OF assms(1)] assms(2) by (cases x) (auto simp: arrives_def)
qed

lemma arrives_then:
  assumes "arrives os x q r"
    and "\<And>t'. r = Inr (Continue t') \<Longrightarrow> \<exists>y. f t' = Some y \<and> arrives os (q, t') q' y"
    and "obind (Some r) (\<lambda>o1. case o1 of Continue t' \<Rightarrow> f t' | _ \<Rightarrow> Some (Inr o1)) = Some r'"
  shows "arrives os x q' r'"
proof (cases r)
  case (Inl e)
  then show ?thesis using assms(1,3) by (auto simp: arrives_def)
next
  case (Inr o1)
  show ?thesis
  proof (cases o1)
    case (Continue t')
    then have "solo os x (q, t')" using assms(1) Inr by (simp add: arrives_def)
    moreover obtain y where "f t' = Some y" "arrives os (q, t') q' y" using assms(2) Inr Continue by blast
    moreover have "r' = y" using assms(3) Inr Continue calculation(2) by simp
    ultimately show ?thesis using arrives_trans by blast
  qed (use assms(1,3) Inr in \<open>auto simp: arrives_def\<close>)
qed

lemma recv_round_again:
  assumes "recv_round os t = Inr (Again t')"
  shows "solo os (At_recv, t) (At_recv, t')"
proof (cases rule: exit_check_cases [of os t])
  case stay
  then have "receive os t = Inr (Again t')" using assms by (simp add: recv_round_def)
  then show ?thesis using stay solo.step [of os At_recv t] solo_one [of os In_recv t] by simp
next
  case leave
  then show ?thesis using assms by (cases "freeBuffers (mem t) (recvBuffer t) (sendBuffer t)") (auto simp: recv_round_eq)
qed

lemma recv_round_arrives:
  assumes "\<And>t'. recv_round os t \<noteq> Inr (Again t')"
  shows "arrives os (At_recv, t) At_lock (recv_round os t)"
proof (cases rule: exit_check_cases [of os t])
  case stay
  then have r: "receive os t = recv_round os t" by (simp add: recv_round_def)
  have "solo os (At_recv, t) (In_recv, t)" using stay solo_one [of os At_recv t] by simp
  moreover have "arrives os (In_recv, t) At_lock (recv_round os t)"
    by (rule arrives_one [of _ _ _ _ At_recv]) (use r assms in simp_all)
  ultimately show ?thesis by (rule arrives_trans)
next
  case leave
  then obtain r where "exit_check os t = r" "r = recv_round os t" "\<And>t'. r \<noteq> Inr (Continue t')"
    by (cases "freeBuffers (mem t) (recvBuffer t) (sendBuffer t)") (auto simp: recv_round_eq)
  then show ?thesis using solo_one [of os At_recv t] assms
    by (cases "recv_round os t"; cases "projr (recv_round os t)") (auto simp: arrives_def)
qed

lemma recv_loop_arrives: "recv_loop os t = Some r \<Longrightarrow> arrives os (At_recv, t) At_lock r"
proof (induction os t r rule: recv_loop.raw_induct [rotated, consumes 1, case_names 1])
  case (1 loop os t r)
  show ?case
  proof (cases "\<exists>t1. recv_round os t = Inr (Again t1)")
    case True
    then obtain t1 where t1: "recv_round os t = Inr (Again t1)" by blast
    then show ?thesis using arrives_trans [OF recv_round_again [OF t1]] 1 by fastforce
  next
    case False
    then have "r = recv_round os t" using 1(2) by (auto split: sum.splits outcome.splits)
    then show ?thesis using recv_round_arrives False by blast
  qed
qed

lemma echo_loop_arrives: "echo_loop os n t = Some r \<Longrightarrow> arrives os (In_echo n, t) In_close r"
proof (induction os n t r rule: echo_loop.raw_induct [rotated, consumes 1, case_names 1])
  case (1 loop os n t r)
  show ?case
  proof (cases "\<exists>t1. echo_round os n t = Inr (Again t1)")
    case True
    then obtain t1 where t1: "echo_round os n t = Inr (Again t1)" by blast
    then have "solo os (In_echo n, t) (In_echo n, t1)" using solo_one [of os "In_echo n" t] by simp
    then show ?thesis using arrives_trans 1 t1 by fastforce
  next
    case False
    then have "r = echo_round os n t" using 1(2) by (auto split: sum.splits outcome.splits)
    then show ?thesis using arrives_one [of os "In_echo n" t In_close "In_echo n" r] False by simp
  qed
qed

lemma no_again:
  "return_complete t \<noteq> Inr (Again t')" "start_message os t \<noteq> Inr (Again t')"
  "command_block os t \<noteq> Inr (Again t')" "position_reply os t \<noteq> Inr (Again t', n)"
proof -
  show *: "return_complete t \<noteq> Inr (Again t')" for t t' :: "'a thread" by (auto simp: return_complete_def)
  then show "start_message os t \<noteq> Inr (Again t')" by (auto simp: start_message_def Let_def split: prod.splits)
  show "command_block os t \<noteq> Inr (Again t')"
    using * by (auto simp: command_block_def seek_command_def write_command_def Let_def
        split: prod.splits if_splits)
  show "position_reply os t \<noteq> Inr (Again t', n)"
    using * by (auto simp: position_reply_def Let_def split: prod.splits if_splits)
qed

lemma reply_arrives:
  assumes "reply os t = Some r"
  shows "arrives os (In_position, t) At_start r"
proof (cases "position_reply os t")
  case (Inl e)
  then have "solo os (In_position, t) (Faulted e, t)" using solo_one [of os In_position t] by simp
  then show ?thesis using assms Inl by (auto simp: reply_def arrives_def)
next
  case (Inr rn)
  then obtain r1 n where r1: "position_reply os t = Inr (r1, n)" by (cases rn) simp
  show ?thesis
  proof (cases r1)
    case (Continue t1)
    have s1: "solo os (In_position, t) (In_echo n, t1)" using solo_one [of os In_position t] r1 Continue by simp
    obtain r2 where r2: "echo_loop os n t1 = Some r2"
      using assms r1 Continue by (cases "echo_loop os n t1") (auto simp: reply_def)
    note a = arrives_trans [OF s1 echo_loop_arrives [OF r2]]
    show ?thesis
    proof (cases "\<exists>t2. r2 = Inr (Continue t2)")
      case True
      then obtain t2 where t2: "r2 = Inr (Continue t2)" by blast
      then have "solo os (In_position, t) (In_close, t2)" using a by (simp add: arrives_def)
      from solo_trans [OF this solo_one [of os In_close t2]] show ?thesis
        using assms r1 Continue r2 t2 by (auto simp: reply_def arrives_def)
    next
      case False
      then have "r = r2" using assms r1 Continue r2
        by (cases r2) (auto simp: reply_def split: outcome.splits)
      then show ?thesis using a False by (auto simp: arrives_def split: sum.splits outcome.splits)
    qed
  next
    case (Returned t1)
    then show ?thesis using assms r1 solo_one [of os In_position t] by (auto simp: reply_def arrives_def)
  qed (use no_again(4) r1 in blast)
qed

lemma exchange_arrives:
  assumes "exchange os t = Some r"
  shows "arrives os (At_lock, t) At_start r"
proof -
  obtain w f where o: "os_open os (world t) = (w, f)" by fastforce
  let ?t = "t\<lparr>global_mutex := True, world := w, global_fd := f\<rparr>"
  have m: "\<not> global_mutex t" using assms by (auto simp: exchange_def split: if_splits)
  then have "solo os (At_lock, t) (In_command, ?t)" using o solo_one [of os At_lock t] by simp
  moreover have "arrives os (In_command, ?t) At_start r"
  proof (rule arrives_then)
    show "arrives os (In_command, ?t) In_position (command_block os ?t)"
      by (rule arrives_one [of _ _ _ _ In_command]) (simp_all add: no_again)
    show run: "obind (Some (command_block os ?t)) (\<lambda>o1. case o1 of Continue t' \<Rightarrow> reply os t' | _ \<Rightarrow> Some (Inr o1))
        = Some r"
      using assms m o by (cases "string_at (mem t) (recvBuffer t)")
        (auto simp: exchange_def command_block_def Let_def)
    show "\<exists>y. reply os t' = Some y \<and> arrives os (In_position, t') At_start y"
      if "command_block os ?t = Inr (Continue t')" for t'
      using run that reply_arrives by auto
  qed
  ultimately show ?thesis by (rule arrives_trans)
qed

lemma process_round_arrives:
  assumes "process_round os t = Some r"
  shows "arrives os (At_start, t) At_start r"
proof (rule arrives_then)
  show "arrives os (At_start, t) At_recv (start_message os t)"
    by (rule arrives_one [of _ _ _ _ At_start]) (simp_all add: no_again)
  let ?f = "\<lambda>t1. obind (recv_loop os t1) (\<lambda>r2. case r2 of Continue s2 \<Rightarrow> exchange os s2 | _ \<Rightarrow> Some (Inr r2))"
  show run: "obind (Some (start_message os t)) (\<lambda>o1. case o1 of Continue t' \<Rightarrow> ?f t' | _ \<Rightarrow> Some (Inr o1)) = Some r"
    using assms by (simp add: process_round_def)
  show "\<exists>y. ?f t' = Some y \<and> arrives os (At_recv, t') At_start y" if "start_message os t = Inr (Continue t')" for t'
  proof -
    have f: "?f t' = Some r" using run that by simp
    then obtain r2 where r2: "recv_loop os t' = Some r2" by (cases "recv_loop os t'") auto
    have "arrives os (At_recv, t') At_start r"
    proof (rule arrives_then [OF recv_loop_arrives [OF r2]])
      show g: "obind (Some r2) (\<lambda>r2. case r2 of Continue s2 \<Rightarrow> exchange os s2 | _ \<Rightarrow> Some (Inr r2)) = Some r"
        using f r2 by simp
      show "\<exists>y. exchange os t2 = Some y \<and> arrives os (At_lock, t2) At_start y" if "r2 = Inr (Continue t2)" for t2
        using g that exchange_arrives by auto
    qed
    with f show ?thesis by blast
  qed
qed

text \<open>What the sequential code still computes from each point on.\<close>

definition next_round :: "'w os \<Rightarrow> 'w thread outcome \<Rightarrow> 'w thread run" where
  "next_round os r =
     (case r of Continue t \<Rightarrow> process_loop os t | Again t \<Rightarrow> process_loop os t | Returned t \<Rightarrow> Some (Inr t))"

definition closing :: "'w os \<Rightarrow> 'w thread outcome \<Rightarrow> 'w thread outcome run" where
  "closing os r =
     (case r of
        Continue t \<Rightarrow> Some (Inr (Continue (t\<lparr>world := os_close os (world t) (global_fd t), global_mutex := False\<rparr>)))
      | _ \<Rightarrow> Some (Inr r))"

fun rest :: "'w os \<Rightarrow> pc \<Rightarrow> 'w thread \<Rightarrow> 'w thread run" where
  "rest os At_start t = process_loop os t"
| "rest os At_recv t =
     obind (obind (recv_loop os t) (\<lambda>r. case r of Continue s \<Rightarrow> exchange os s | _ \<Rightarrow> Some (Inr r))) (next_round os)"
| "rest os In_recv t =
     obind (obind (obind (Some (receive os t)) (\<lambda>r. case r of Again s \<Rightarrow> recv_loop os s | _ \<Rightarrow> Some (Inr r)))
       (\<lambda>r. case r of Continue s \<Rightarrow> exchange os s | _ \<Rightarrow> Some (Inr r))) (next_round os)"
| "rest os At_lock t = obind (exchange os t) (next_round os)"
| "rest os In_command t =
     obind (obind (Some (command_block os t)) (\<lambda>r. case r of Continue s \<Rightarrow> reply os s | _ \<Rightarrow> Some (Inr r)))
       (next_round os)"
| "rest os In_position t = obind (reply os t) (next_round os)"
| "rest os (In_echo n) t = obind (obind (echo_loop os n t) (closing os)) (next_round os)"
| "rest os In_close t = obind (closing os (Continue t)) (next_round os)"
| "rest os Gone t = Some (Inr t)"
| "rest os (Faulted e) t = Some (Inl e)"

lemma process_loop_round: "process_loop os t = obind (process_round os t) (next_round os)"
  by (subst process_loop.simps)
    (auto simp: next_round_def obind_def split: option.splits sum.splits outcome.splits)

lemma reply_closing:
  "reply os t = obind (Some (position_reply os t)) (\<lambda>(r1, n).
     case r1 of Continue t1 \<Rightarrow> obind (echo_loop os n t1) (closing os) | _ \<Rightarrow> Some (Inr r1))"
  unfolding reply_def closing_def [abs_def] ..

lemma rest_step:
  assumes "thread_step os p t = Some (p', t')"
  shows "rest os p t = rest os p' t'"
proof (cases p)
  case At_start
  then show ?thesis using assms no_again(2) [of os t]
    by (cases "start_message os t"; cases "projr (start_message os t)")
      (auto simp: process_loop_round process_round_def next_round_def)
next
  case At_recv
  show ?thesis
  proof (cases rule: exit_check_cases [of os t])
    case stay
    then have "recv_round os t = receive os t" by (simp add: recv_round_def)
    with stay show ?thesis using assms At_recv recv_loop.simps [of os t]
      by (cases "receive os t"; cases "projr (receive os t)") auto
  next
    case leave
    then show ?thesis using assms At_recv recv_loop.simps [of os t]
      by (cases "freeBuffers (mem t) (recvBuffer t) (sendBuffer t)") (auto simp: recv_round_eq next_round_def)
  qed
next
  case In_recv
  then show ?thesis using assms
    by (cases "receive os t"; cases "projr (receive os t)") (auto simp: next_round_def)
next
  case At_lock
  then show ?thesis using assms
    by (cases "string_at (mem t) (recvBuffer t)")
      (auto simp: exchange_def command_block_def Let_def split: if_splits prod.splits)
next
  case In_command
  then show ?thesis using assms no_again(3) [of os t]
    by (cases "command_block os t"; cases "projr (command_block os t)") (auto simp: next_round_def)
next
  case In_position
  then show ?thesis using assms no_again(4) [of os t]
    by (cases "position_reply os t"; cases "fst (projr (position_reply os t))")
      (auto simp: reply_closing next_round_def split: prod.splits)
next
  case (In_echo n)
  then show ?thesis using assms echo_loop.simps [of os n t]
    by (cases "echo_round os n t"; cases "projr (echo_round os n t)")
      (auto simp: next_round_def closing_def)
qed (use assms in \<open>auto simp: closing_def next_round_def\<close>)

lemma rest_solo: "solo os x y \<Longrightarrow> rest os (fst x) (snd x) = rest os (fst y) (snd y)"
  by (induction rule: solo.induct) (auto simp: rest_step)

lemma process_loop_arrives:
  assumes "process_loop os t = Some r"
  shows "case r of Inr t' \<Rightarrow> solo os (At_start, t) (Gone, t')
    | Inl e \<Rightarrow> \<exists>t'. solo os (At_start, t) (Faulted e, t')"
  using assms
proof (induction os t r rule: process_loop.raw_induct [rotated, consumes 1, case_names 1])
  case (1 loop os t r)
  then obtain q where q: "process_round os t = Some q" by (cases "process_round os t") auto
  note a = process_round_arrives [OF q]
  show ?case
  proof (cases q)
    case (Inl e)
    then show ?thesis using 1(2) q a by (auto simp: arrives_def)
  next
    case (Inr o1)
    show ?thesis
    proof (cases o1)
      case (Continue t1)
      then have "solo os (At_start, t) (At_start, t1)" "loop os t1 = Some r"
        using a 1(2) q Inr by (simp_all add: arrives_def)
      with 1(1) [of os t1 r] show ?thesis by (auto intro: solo_trans split: sum.splits)
    qed (use 1(2) q a Inr in \<open>auto simp: arrives_def\<close>)
  qed
qed

end
