(* ===== verification/Server_Exchange.thy ===== *)
theory Server_Exchange
  imports Server_Recv Driver_Spec
begin

text \<open>
  The exchange of a connection thread with the device, over the interface the server relies on: a
  device file that behaves like the abstract device of the driver, and a connection that
  records what was sent. The lemmas of the locale \<open>echo_device\<close> say what the client receives; the
  properties behind it are about the error paths, which need no such contract.
\<close>

section \<open>Returning from the exchange\<close>

text \<open>
  As \<open>holds_buffers\<close>, with the receive pointer possibly moved forward in its block. A
  pointer that was moved cannot be freed.
\<close>

definition holds_at :: "'w thread \<Rightarrow> nat \<Rightarrow> bool" where
  "holds_at s k \<longleftrightarrow>
     (\<exists>a. recvBuffer s = Some (a, k) \<and> mem s a \<noteq> None \<and>
          (\<forall>b. sendBuffer s = Some b \<longrightarrow> b \<noteq> a \<and> mem s b \<noteq> None))"

lemma return_complete_at:
  assumes "holds_at s k"
  obtains (freed) s' where "k = 0" "return_complete s = Inr (Returned s')" "complete (threadData s')"
    "global_mutex s' = global_mutex s" "world s' = world s"
  | (moved) "k \<noteq> 0" "return_complete s = Inl BadFree"
proof (cases k)
  case 0
  with assms obtain a blk where "holds_buffers s a blk" by (auto simp: holds_at_def holds_buffers_def)
  from return_complete_ok [OF this] 0 show thesis by (auto simp: released_def intro: freed)
next
  case (Suc j)
  with assms show thesis
    by (intro moved) (auto simp: holds_at_def return_complete_def freeBuffers_def free_def)
qed

text \<open>A non-zero \<open>int\<close> is a non-zero \<open>size_t\<close>.\<close>

lemma to_size_t_pos: "to_int e \<noteq> 0 \<Longrightarrow> 0 < to_size_t (to_int e)"
proof -
  assume nz: "to_int e \<noteq> 0"
  have "- (2 ^ 31) \<le> to_int e" "to_int e < 2 ^ 31"
    using sint_ge [of "word_of_int e :: u32"] sint_lt [of "word_of_int e :: u32"]
    by (simp_all add: to_int_def)
  with nz have "\<not> 2 ^ 64 dvd to_int e" using dvd_imp_le_int [OF nz, of "2 ^ 64"] by auto
  then have "(word_of_int (to_int e) :: u64) \<noteq> 0" by (simp add: word_of_int_eq_0_iff)
  then show ?thesis by (simp add: to_size_t_def unat_gt_0)
qed

lemma exchange_eq:
  assumes "\<not> global_mutex s" "string_at (mem s) (recvBuffer s) = Inr str"
    and "os_open os (world s) = (w, f)" and s1: "s1 = s\<lparr>global_mutex := True, world := w, global_fd := f\<rparr>"
  shows "exchange os s =
    (case (if take (length kIOCtrlStr) str = kIOCtrlStr
           then seek_command os s1 str else write_command os s1 str) of
       Inl e \<Rightarrow> Some (Inl e)
     | Inr (Continue s2) \<Rightarrow> reply os s2
     | Inr r \<Rightarrow> Some (Inr r))"
  using assms
  by (auto simp: exchange_def Let_def split: sum.splits outcome.splits)

lemma ready_holds: "ready s str \<Longrightarrow> holds_at s 0"
  by (auto simp: ready_def holds_buffers_def holds_at_def)

section \<open>The interface\<close>

text \<open>
  \<open>dev w\<close> is the abstract device, \<open>fpos w f\<close> the position of the open file \<open>f\<close>, \<open>sent w c\<close> what was sent
  on connection \<open>c\<close>; \<open>good w\<close> is the invariant of the device. A successful \<open>send\<close> sends
  everything (the sockets of the server's threads are blocking). \<open>usable n\<close>: a device that is not empty and
  holds \<open>n\<close> bytes reports a size that the server can use, neither 0 nor -1 as an \<open>int\<close>.
\<close>

locale echo_device =
  fixes os :: "'w os"
    and good :: "'w \<Rightarrow> bool"
    and dev :: "'w \<Rightarrow> dev_view"
    and fpos :: "'w \<Rightarrow> int \<Rightarrow> nat option"
    and sent :: "'w \<Rightarrow> int \<Rightarrow> bytes"
    and usable :: "nat \<Rightarrow> bool"
  assumes alloc: "alloc_ok os"
    and usable_law: "usable n \<Longrightarrow> n < 2 ^ 63"
    and calloc_law: "good w \<Longrightarrow> os_calloc os w h n = (w', q, h') \<Longrightarrow>
        good w' \<and> dev w' = dev w \<and> fpos w' = fpos w \<and> sent w' = sent w"
    and open_law: "good w \<Longrightarrow> os_open os w = (w', f) \<Longrightarrow>
        good w' \<and> dev w' = dev w \<and> sent w' = sent w \<and> fpos w' f = Some 0"
    and close_law: "good w \<Longrightarrow>
        good (os_close os w f) \<and> dev (os_close os w f) = dev w \<and> sent (os_close os w f) = sent w"
    and write_law: "good w \<Longrightarrow> fpos w f = Some p \<Longrightarrow> os_write os w f bs = (w', k) \<Longrightarrow> k \<noteq> -1 \<Longrightarrow>
        bs \<noteq> [] \<Longrightarrow> 0 \<le> k \<and> k \<le> int (length bs) \<and> good w' \<and> sent w' = sent w \<and> fpos w' f \<noteq> None \<and>
        dev w' = spec_write (dev w) (take (nat k) bs)"
    and seek_law: "good w \<Longrightarrow> fpos w f = Some p \<Longrightarrow> os_lseek os w f off org = (w', r) \<Longrightarrow>
        good w' \<and> dev w' = dev w \<and> sent w' = sent w \<and> fpos w' f \<noteq> None"
    and seek_set_law: "good w \<Longrightarrow> fpos w f = Some p \<Longrightarrow> 0 \<le> off \<Longrightarrow> off < 2 ^ 63 \<Longrightarrow>
        os_lseek os w f off SEEK_SET = (w', r) \<Longrightarrow> fpos w' f = Some (nat off)"
    and seek_cur_law: "good w \<Longrightarrow> fpos w f = Some p \<Longrightarrow> p < 2 ^ 63 \<Longrightarrow>
        os_lseek os w f 0 SEEK_CUR = (w', r) \<Longrightarrow> r = int p \<and> fpos w' f = Some p"
    and seek_end_law: "good w \<Longrightarrow> fpos w f = Some p \<Longrightarrow> concat (commands (dev w)) \<noteq> [] \<Longrightarrow>
        usable (length (concat (commands (dev w)))) \<Longrightarrow>
        os_lseek os w f 0 SEEK_END = (w', r) \<Longrightarrow> to_int r \<noteq> 0 \<and> to_int r \<noteq> -1"
    and ioctl_law: "good w \<Longrightarrow> fpos w f = Some p \<Longrightarrow> os_ioctl os w f arg = (w', 0) \<Longrightarrow>
        good w' \<and> dev w' = dev w \<and> sent w' = sent w \<and> fpos w' f \<noteq> None"
    and read_law: "good w \<Longrightarrow> fpos w f = Some p \<Longrightarrow> length (concat (commands (dev w))) < 2 ^ 63 \<Longrightarrow>
        p < 2 ^ 63 \<Longrightarrow> 0 < n \<Longrightarrow> os_read os w f n = (w', r') \<Longrightarrow>
        good w' \<and> dev w' = dev w \<and> sent w' = sent w \<and>
        (\<exists>bs rest. r' = Some bs \<and> length bs \<le> n \<and> fpos w' f = Some (p + length bs) \<and>
           drop p (concat (commands (dev w))) = bs @ rest \<and>
           (bs = [] \<longrightarrow> length (concat (commands (dev w))) \<le> p))"
    and send_law: "good w \<Longrightarrow> os_send os w c bs = (w', k) \<Longrightarrow> k \<noteq> -1 \<Longrightarrow>
        good w' \<and> dev w' = dev w \<and> fpos w' = fpos w \<and> sent w' c = sent w c @ bs"
begin

abbreviation content :: "'w \<Rightarrow> bytes" where
  "content w \<equiv> concat (commands (dev w))"

text \<open>A thread that is about to reply: its buffers, its open device file and its position.\<close>

definition replying :: "'w thread \<Rightarrow> nat \<Rightarrow> nat \<Rightarrow> nat \<Rightarrow> bool" where
  "replying s k n p \<longleftrightarrow>
     good (world s) \<and> fpos (world s) (global_fd s) = Some p \<and> p < 2 ^ 63 \<and>
     length (content (world s)) < 2 ^ 63 \<and>
     holds_at s k \<and>
     (\<exists>b blk. sendBuffer s = Some b \<and> mem s b = Some blk \<and> length blk = n)"

text \<open>What can still go wrong: the client is gone, or there is no memory for the send buffer.\<close>

definition send_failed :: "int \<Rightarrow> bool" where
  "send_failed c \<longleftrightarrow> (\<exists>w bs. snd (os_send os w c bs) = -1)"

definition calloc_failed :: "heap \<Rightarrow> bool" where
  "calloc_failed h \<longleftrightarrow> (\<exists>w n. fst (snd (os_calloc os w h n)) = None)"

text \<open>
  How a reply ends: everything from position \<open>p\<close> was sent, or a call failed and the thread
  returned, or it failed to free its moved receive buffer.
\<close>

definition replied :: "'w thread \<Rightarrow> nat \<Rightarrow> nat \<Rightarrow> 'w thread outcome result \<Rightarrow> bool" where
  "replied s k p r \<longleftrightarrow>
     (case r of
        Inl e \<Rightarrow> e = BadFree \<and> k \<noteq> 0 \<and> send_failed (cfd (threadData s))
      | Inr (Continue s') \<Rightarrow>
          sent (world s') (cfd (threadData s))
            = sent (world s) (cfd (threadData s)) @ drop p (content (world s)) \<and>
          good (world s') \<and> dev (world s') = dev (world s) \<and> same_globals s s' \<and>
          global_fd s' = global_fd s
      | Inr (Returned s') \<Rightarrow> complete (threadData s') \<and> global_mutex s' = global_mutex s \<and> k = 0 \<and> send_failed (cfd (threadData s))
      | Inr (Again s') \<Rightarrow> False)"

lemma return_replied:
  assumes "holds_at t k" "global_mutex t = global_mutex s" "send_failed (cfd (threadData s))"
  shows "replied s k p (return_complete t)"
  by (rule return_complete_at [OF assms(1)]) (auto simp: replied_def assms(2,3))

lemma echo_round_cases:
  assumes "replying s k (to_size_t bp) p" "0 < to_size_t bp"
  obtains (over) "replied s k p (echo_round os bp s)"
  | (again) s' bs where "echo_round os bp s = Inr (Again s')" "bs \<noteq> []"
    "replying s' k (to_size_t bp) (p + length bs)" "same_globals s s'" "global_fd s' = global_fd s"
    "dev (world s') = dev (world s)" "p + length bs \<le> length (content (world s))"
    "sent (world s') (cfd (threadData s)) = sent (world s) (cfd (threadData s)) @ bs"
    "drop p (content (world s)) = bs @ drop (p + length bs) (content (world s))"
proof -
  from assms(1) obtain b blk where s: "good (world s)"
    "fpos (world s) (global_fd s) = Some p" "p < 2 ^ 63" "length (content (world s)) < 2 ^ 63"
    "sendBuffer s = Some b" "mem s b = Some blk" "length blk = to_size_t bp" "holds_at s k"
    unfolding replying_def by blast
  obtain w bs rest where read: "os_read os (world s) (global_fd s) (to_size_t bp) = (w, Some bs)"
    and law: "good w" "dev w = dev (world s)" "sent w = sent (world s)" "length bs \<le> to_size_t bp"
      "fpos w (global_fd s) = Some (p + length bs)" "drop p (content (world s)) = bs @ rest"
      "bs = [] \<longrightarrow> length (content (world s)) \<le> p"
    using read_law [OF s(1,2,4,3) assms(2)]
    by (cases "os_read os (world s) (global_fd s) (to_size_t bp)") blast
  let ?blk = "bs @ drop (length bs) blk"
  let ?t = "s\<lparr>world := w, mem := (mem s)(b \<mapsto> ?blk)\<rparr>"
  have put: "put_bytes (mem s) (map_option (\<lambda>a. (a, 0)) (sendBuffer s)) 0 bs
      = Inr ((mem s)(b \<mapsto> ?blk))"
    using s law(4) by (simp add: put_bytes_def)
  show thesis
  proof (cases "bs = []")
    case True
    with put read law s(5) show thesis
      by (intro over) (auto simp: echo_round_def replied_def same_globals_def Let_def)
  next
    case False
    obtain w' c where send: "os_send os w (cfd (threadData s)) bs = (w', c)" by fastforce
    have round: "echo_round os bp s =
        (if c = -1 then return_complete (?t\<lparr>world := w'\<rparr>) else Inr (Again (?t\<lparr>world := w'\<rparr>)))"
      using put read False send s(5) by (simp add: echo_round_def block_from_def Let_def)
    have hold: "holds_at (?t\<lparr>world := w'\<rparr>) k" using s by (auto simp: holds_at_def)
    show thesis
    proof (cases "c = -1")
      case True
      then have "send_failed (cfd (threadData s))" using send unfolding send_failed_def by (metis snd_conv)
      with return_replied [OF hold, of s] round over True show thesis by simp
    next
      case c: False
      note w' = send_law [OF law(1) send c]
      have rest: "rest = drop (p + length bs) (content (world s))"
        using law(6) by (metis add.commute append_eq_conv_conj drop_drop)
      have le: "p + length bs \<le> length (content (world s))"
        using arg_cong [OF law(6), of length] False by (cases bs) auto
      then have "replying (?t\<lparr>world := w'\<rparr>) k (to_size_t bp) (p + length bs)"
        using s law w' hold unfolding replying_def by auto
      with le round c law w' rest False show thesis
        by (intro that(2) [of "?t\<lparr>world := w'\<rparr>" bs]) (auto simp: same_globals_def)
    qed
  qed
qed

text \<open>The echo loop always returns, and without an error it has sent the rest of the device.\<close>

lemma echo_loop_replies:
  "replying s k (to_size_t bp) p \<Longrightarrow> 0 < to_size_t bp \<Longrightarrow>
    \<exists>r. echo_loop os bp s = Some r \<and> replied s k p r"
proof (induction "length (content (world s)) - p" arbitrary: s p rule: less_induct)
  case less
  from less.prems show ?case
  proof (cases rule: echo_round_cases)
    case over
    then show ?thesis
      by (subst echo_loop.simps) (auto simp: replied_def split: sum.splits outcome.splits)
  next
    case (again s' bs)
    have "length (content (world s')) - (p + length bs) < length (content (world s)) - p"
      using again(2,6,7) by (cases bs) auto
    from less.hyps [OF this again(3) less.prems(2)] obtain r where
      "echo_loop os bp s' = Some r" "replied s' k (p + length bs) r" by blast
    moreover have "echo_loop os bp s = echo_loop os bp s'"
      using again(1) by (subst echo_loop.simps) simp
    moreover have "replied s k p r"
      using calculation(2) again(4-6,8,9)
      by (auto simp: replied_def same_globals_def split: sum.splits outcome.splits)
    ultimately show ?thesis by auto
  qed
qed

text \<open>Positioning the device for the reply: from the current position after a seek command.\<close>

lemma position_reply_cases:
  assumes s: "good (world s)" "fpos (world s) (global_fd s) = Some p" "ioctlCmdRecv s \<longrightarrow> p < 2 ^ 63"
      "holds_at s k"
    and small: "usable (length (content (world s)))" "content (world s) \<noteq> []"
    and start: "q = (if ioctlCmdRecv s then p else 0)"
  obtains (error) t bp where "position_reply os s = rbind (return_complete t) (\<lambda>r. Inr (r, bp))"
    "holds_at t k" "calloc_failed (mem s)"
  | (positioned) s' bp where "position_reply os s = Inr (Continue s', bp)"
    "replying s' k (to_size_t bp) q" "0 < to_size_t bp" "dev (world s') = dev (world s)"
    "sent (world s') = sent (world s)" "same_globals s s'" "global_fd s' = global_fd s"
proof -
  define s1 where "s1 = (if ioctlCmdRecv s
      then s\<lparr>world := fst (os_lseek os (world s) (global_fd s) 0 SEEK_CUR)\<rparr> else s)"
  have s1: "good (world s1)" "dev (world s1) = dev (world s)" "sent (world s1) = sent (world s)"
    "fpos (world s1) (global_fd s) = Some p"
    using s(1,2) seek_law [OF s(1,2), of 0 SEEK_CUR] seek_cur_law [OF s(1,2)] s(3)
    by (cases "os_lseek os (world s) (global_fd s) 0 SEEK_CUR"; auto simp: s1_def)+
  obtain w2 e where e: "os_lseek os (world s1) (global_fd s) 0 SEEK_END = (w2, e)" by fastforce
  obtain p2 where w2: "good w2" "dev w2 = dev (world s)" "sent w2 = sent (world s)"
    "fpos w2 (global_fd s) = Some p2"
    using seek_law [OF s1(1,4) e] s1 by auto
  obtain w3 x where w3e: "os_lseek os w2 (global_fd s) (int q) SEEK_SET = (w3, x)" by fastforce
  have q: "int q < 2 ^ 63" using s(3) start by auto
  have w3: "good w3" "dev w3 = dev (world s)" "sent w3 = sent (world s)" "fpos w3 (global_fd s) = Some q"
    using seek_law [OF w2(1,4) w3e] seek_set_law [OF w2(1,4) _ q w3e] w2 by auto
  let ?bp = "to_int e"
  have bp: "?bp \<noteq> 0" "?bp \<noteq> -1" using seek_end_law [OF s1(1,4) _ _ e] s1 small by simp_all
  from bp(1) have pos: "0 < to_size_t ?bp" by (rule to_size_t_pos)
  obtain w4 c h where ce: "os_calloc os w3 (mem s) (to_size_t ?bp) = (w4, c, h)" by (metis prod_cases3)
  let ?s3 = "s1\<lparr>world := w4, mem := h, sendBuffer := c\<rparr>"
  have "ioctlCmdRecv s \<Longrightarrow> snd (os_lseek os (world s) (global_fd s) 0 SEEK_CUR) = int p"
    using seek_cur_law [OF s(1,2)] s(3) by (cases "os_lseek os (world s) (global_fd s) 0 SEEK_CUR") auto
  then have eq: "position_reply os s =
      (if c = None then rbind (return_complete ?s3) (\<lambda>r. Inr (r, ?bp))
       else Inr (Continue ?s3, ?bp))"
    using e w3e ce start bp(2)
    by (auto simp: position_reply_def s1_def Let_def split: prod.splits)
  show thesis
  proof (cases "c = None")
    case True
    have "h = mem s" using alloc_callocN [OF alloc] ce True by blast
    with s(4) True have "holds_at ?s3 k" by (auto simp: holds_at_def s1_def)
    moreover have "calloc_failed (mem s)" using ce True unfolding calloc_failed_def by (metis fst_conv snd_conv)
    ultimately show thesis using eq True that(1) [of ?s3] by simp
  next
    case False
    then obtain b where b: "c = Some b" by auto
    have h: "mem s b = None" "h = (mem s)(b \<mapsto> replicate (to_size_t ?bp) NUL)"
      using alloc_callocD [OF alloc] ce b by blast+
    obtain a where "recvBuffer s = Some (a, k)" "mem s a \<noteq> None" using s(4) by (auto simp: holds_at_def)
    with h b have s3: "holds_at ?s3 k"
      by (auto simp: holds_at_def s1_def intro!: exI [of _ a])
    have "replying ?s3 k (to_size_t ?bp) q"
      using s3 calloc_law [OF w3(1) ce] w3 small(2) usable_law [OF small(1)] q h b
      by (auto simp: replying_def s1_def)
    with eq False b pos calloc_law [OF w3(1) ce] w3 show thesis
      by (intro that(2) [of ?s3 ?bp]) (auto simp: same_globals_def s1_def)
  qed
qed

lemma write_command_cases:
  assumes s: "good (world s)" "fpos (world s) (global_fd s) = Some p0" "holds_at s k"
    and run: "os_write os (world s) (global_fd s) str = (w, n)" "str \<noteq> []"
  obtains (failed) "n = -1" "write_command os s str = return_complete (s\<lparr>world := w\<rparr>)"
  | (written) p where "n \<noteq> -1" "write_command os s str = Inr (Continue (s\<lparr>world := w\<rparr>))" "good w"
    "dev w = spec_write (dev (world s)) (take (nat n) str)" "sent w = sent (world s)"
    "fpos w (global_fd s) = Some p"
  using write_law [OF s(1,2) run(1)] run by (cases "n = -1") (auto simp: write_command_def)

text \<open>
  The reply part of the exchange, from the positioning on: it returns, and unless a call failed
  the client has received the device from position \<open>q\<close> on and the mutex is free again.
\<close>

definition answered :: "'w thread \<Rightarrow> dev_view \<Rightarrow> nat \<Rightarrow> bool \<Rightarrow> 'w thread \<Rightarrow> bool" where
  "answered s v q seek s' \<longleftrightarrow>
     sent (world s') (cfd (threadData s))
       = sent (world s) (cfd (threadData s)) @ drop q (concat (commands v)) \<and>
     dev (world s') = v \<and> good (world s') \<and> \<not> global_mutex s' \<and> ioctlCmdRecv s' = seek"

lemma reply_answers:
  assumes "good (world s)" "fpos (world s) (global_fd s) = Some p" "ioctlCmdRecv s \<longrightarrow> p < 2 ^ 63"
      "holds_at s k"
    and "usable (length (content (world s)))" "content (world s) \<noteq> []"
    and "q = (if ioctlCmdRecv s then p else 0)"
  shows "\<exists>r. reply os s = Some r \<and>
    (case r of Inl e \<Rightarrow> e = BadFree \<and> k \<noteq> 0 \<and> (send_failed (cfd (threadData s)) \<or> calloc_failed (mem s))
     | Inr (Continue s') \<Rightarrow> answered s (dev (world s)) q (ioctlCmdRecv s) s'
     | Inr (Returned s') \<Rightarrow> complete (threadData s') \<and> (send_failed (cfd (threadData s)) \<or> calloc_failed (mem s))
     | Inr (Again s') \<Rightarrow> False)"
  using assms
proof (cases rule: position_reply_cases)
  case (error t bp)
  from error(2) show ?thesis
    by (rule return_complete_at) (simp_all add: reply_def error(1,3))
next
  case (positioned s' bp)
  from echo_loop_replies [OF positioned(2,3)] obtain r where
    r: "echo_loop os bp s' = Some r" "replied s' k q r" by blast
  then show ?thesis
    using positioned close_law
    by (auto simp: reply_def replied_def answered_def same_globals_def
        split: sum.splits outcome.splits)
qed

text \<open>A line that is not a seek command: what the client receives.\<close>

lemma exchange_line:
  assumes s: "good (world s)" "\<not> global_mutex s" "ready s str"
    and line: "take (length kIOCtrlStr) str \<noteq> kIOCtrlStr"
    and env: "os_open os (world s) = (w, f)" "os_write os w f str = (w', n)" "n \<noteq> -1"
      "fpos w' f = Some p" "ioctlCmdRecv s \<longrightarrow> p < 2 ^ 63"
    and v: "v = spec_write (dev (world s)) (take (nat n) str)" "concat (commands v) \<noteq> []"
      "usable (length (concat (commands v)))"
    and q: "q = (if ioctlCmdRecv s then p else 0)"
  shows "\<exists>r. exchange os s = Some (Inr r) \<and>
    (case r of Continue s' \<Rightarrow> answered s v q (ioctlCmdRecv s) s'
     | Returned s' \<Rightarrow> complete (threadData s') \<and> (send_failed (cfd (threadData s)) \<or> calloc_failed (mem s))
     | Again s' \<Rightarrow> False)"
proof -
  let ?s1 = "s\<lparr>global_mutex := True, world := w, global_fd := f\<rparr>"
  note w = open_law [OF s(1) env(1)]
  have h: "holds_at ?s1 0" using ready_holds [OF s(3)] by (simp add: holds_at_def)
  have ne: "str \<noteq> []" using ready_string [OF s(3)] by auto
  have "good (world ?s1)" "fpos (world ?s1) (global_fd ?s1) = Some 0"
    "os_write os (world ?s1) (global_fd ?s1) str = (w', n)"
    using w env by simp_all
  with h env(3) have
    wr: "write_command os ?s1 str = Inr (Continue (?s1\<lparr>world := w'\<rparr>))" "good w'"
      "dev w' = v" "sent w' = sent (world s)"
    using write_command_cases [of ?s1 0 0 str w' n] ne w v by auto
  let ?s2 = "?s1\<lparr>world := w'\<rparr>"
  have h2: "holds_at ?s2 0" using h by (simp add: holds_at_def)
  have ex_facts: "good (world ?s2)" "fpos (world ?s2) (global_fd ?s2) = Some p" "ioctlCmdRecv ?s2 \<longrightarrow> p < 2 ^ 63"
    "usable (length (content (world ?s2)))" "content (world ?s2) \<noteq> []"
    "q = (if ioctlCmdRecv ?s2 then p else 0)"
    using wr v(2,3) env(4,5) q by simp_all
  obtain r where r: "reply os ?s2 = Some r"
    "case r of Inl e \<Rightarrow> e = BadFree \<and> (0 :: nat) \<noteq> 0 \<and> (send_failed (cfd (threadData ?s2)) \<or> calloc_failed (mem ?s2))
     | Inr (Continue s') \<Rightarrow> answered ?s2 (dev (world ?s2)) q (ioctlCmdRecv ?s2) s'
     | Inr (Returned s') \<Rightarrow> complete (threadData s') \<and> (send_failed (cfd (threadData ?s2)) \<or> calloc_failed (mem ?s2))
     | Inr (Again s') \<Rightarrow> False"
    using reply_answers [where s = ?s2 and p = p and q = q, OF _ _ _ h2] ex_facts by blast
  moreover have "exchange os s = reply os ?s2"
    using exchange_eq [OF s(2) _ env(1) refl, of str] ready_string [OF s(3)] line wr(1) by simp
  moreover have "answered ?s2 (dev (world ?s2)) q (ioctlCmdRecv ?s2) s' = answered s v q (ioctlCmdRecv s) s'" for s'
    using wr(3,4) by (simp add: answered_def)
  ultimately show ?thesis by (cases r) (auto split: outcome.splits)
qed

text \<open>A seek command that the device accepts: the reply starts at the position it selects.\<close>

lemma exchange_seek:
  assumes s: "good (world s)" "\<not> global_mutex s" "ready s str"
    and cmd: "take (length kIOCtrlStr) str = kIOCtrlStr"
      "parse_seekto (drop (length kIOCtrlStr) str) = Inr arg"
    and env: "os_open os (world s) = (w, f)" "os_ioctl os w f arg = (w', 0)"
      "fpos w' f = Some p" "p < 2 ^ 63"
    and v: "content (world s) \<noteq> []" "usable (length (content (world s)))"
  shows "\<exists>r. exchange os s = Some r \<and>
    (case r of Inl e \<Rightarrow> e = BadFree \<and> (send_failed (cfd (threadData s)) \<or> calloc_failed (mem s))
     | Inr (Continue s') \<Rightarrow> answered s (dev (world s)) p True s'
     | Inr (Returned s') \<Rightarrow> complete (threadData s') \<and> (send_failed (cfd (threadData s)) \<or> calloc_failed (mem s))
     | Inr (Again s') \<Rightarrow> False)"
proof -
  note w = open_law [OF s(1) env(1)]
  have w': "good w'" "dev w' = dev (world s)" "sent w' = sent (world s)"
    using ioctl_law [OF _ _ env(2), of 0] w by auto
  obtain a where a: "recvBuffer s = Some (a, 0)" "mem s a \<noteq> None"
    "\<forall>b. sendBuffer s = Some b \<longrightarrow> b \<noteq> a \<and> mem s b \<noteq> None"
    using ready_holds [OF s(3)] by (auto simp: holds_at_def)
  let ?s2 = "s\<lparr>global_mutex := True, global_fd := f, world := w', ioctlCmdRecv := True,
    recvBuffer := Some (a, length kIOCtrlStr)\<rparr>"
  have h2: "holds_at ?s2 (length kIOCtrlStr)" using a by (auto simp: holds_at_def)
  have "seek_command os (s\<lparr>global_mutex := True, world := w, global_fd := f\<rparr>) str = Inr (Continue ?s2)"
    using cmd(2) env(2) a by (simp add: seek_command_def Let_def)
  then have "exchange os s = reply os ?s2"
    using exchange_eq [OF s(2) _ env(1) refl, of str] ready_string [OF s(3)] cmd(1) by simp
  moreover have ex_facts: "good (world ?s2)" "fpos (world ?s2) (global_fd ?s2) = Some p" "p < 2 ^ 63"
    "usable (length (content (world ?s2)))" "content (world ?s2) \<noteq> []"
    "p = (if ioctlCmdRecv ?s2 then p else 0)"
    using w' v env(3,4) by simp_all
  moreover obtain r where r: "reply os ?s2 = Some r"
    "case r of Inl e \<Rightarrow> e = BadFree \<and> length kIOCtrlStr \<noteq> 0 \<and> (send_failed (cfd (threadData ?s2)) \<or> calloc_failed (mem ?s2))
     | Inr (Continue s') \<Rightarrow> answered ?s2 (dev (world ?s2)) p (ioctlCmdRecv ?s2) s'
     | Inr (Returned s') \<Rightarrow> complete (threadData s') \<and> (send_failed (cfd (threadData ?s2)) \<or> calloc_failed (mem ?s2))
     | Inr (Again s') \<Rightarrow> False"
    using reply_answers [where s = ?s2 and p = p and q = p, OF _ _ _ h2] ex_facts
    by blast
  moreover have "answered ?s2 (dev (world ?s2)) p (ioctlCmdRecv ?s2) s' = answered s (dev (world s)) p True s'" for s'
    using w'(2,3) by (simp add: answered_def)
  ultimately show ?thesis by (cases r) (auto split: outcome.splits)
qed

end

section \<open>Error paths\<close>

definition message_example :: "'w \<Rightarrow> bytes \<Rightarrow> 'w thread" where
  "message_example w str = (thread_example w)\<lparr>mem := [0 \<mapsto> str @ [NUL]]\<rparr>"

lemma message_example_ready:
  "NUL \<notin> set str \<Longrightarrow> nl \<in> set str \<Longrightarrow> ready (message_example w str) str"
  unfolding ready_def
  by (rule exI [of _ 0], rule exI [of _ "str @ [NUL]"])
    (simp add: message_example_def thread_example_def holds_buffers_def cstring_append)

lemma message_example_free: "\<not> global_mutex (message_example w str)"
  by (simp add: message_example_def thread_example_def)

text \<open>
  a seek command that the device rejects makes the server free a pointer it did not allocate.
  \<open>recvBuffer\<close> itself was moved past the command name, and the error path passes it to
  \<open>free\<close>, whatever the command and whatever the error.
\<close>

lemma rejected_seek_frees_moved_pointer:
  assumes "\<not> global_mutex s" "ready s str" "take (length kIOCtrlStr) str = kIOCtrlStr"
    and "parse_seekto (drop (length kIOCtrlStr) str) = Inr arg"
    and "os_open os (world s) = (w, f)" "os_ioctl os w f arg = (w', rc)" "rc \<noteq> 0"
  shows "exchange os s = Some (Inl BadFree)"
proof -
  let ?s1 = "s\<lparr>global_mutex := True, world := w, global_fd := f\<rparr>"
  obtain a where a: "recvBuffer s = Some (a, 0)" "mem s a \<noteq> None"
    "\<forall>b. sendBuffer s = Some b \<longrightarrow> b \<noteq> a \<and> mem s b \<noteq> None"
    using ready_holds [OF assms(2)] by (auto simp: holds_at_def)
  then have "seek_command os ?s1 str = Inl BadFree"
    using assms(4,6,7)
    by (simp add: seek_command_def return_complete_def freeBuffers_def free_def kIOCtrlStr_def Let_def)
  then show ?thesis
    using exchange_eq [OF assms(1) _ assms(5) refl, of str] ready_string [OF assms(2)] assms(3)
    by simp
qed

lemma rejected_seek_frees_moved_pointer_witness:
  "exchange (chunk_os\<lparr>os_ioctl := \<lambda>w f arg. (w, -1)\<rparr>)
     (message_example [] (''AESDCHAR_IOCSEEKTO:99,0'' @ [nl])) = Some (Inl BadFree)"
  by (rule rejected_seek_frees_moved_pointer
        [OF message_example_free message_example_ready, of _ "\<lparr>write_cmd = 99, write_cmd_offset = 0\<rparr>"
          _ "[]" "[]" 3 "[]" "-1"])
    (simp_all add: NUL_def kIOCtrlStr_def parse_seekto_def atoi_def isspace_def isdigit_def
      digits_value_def digit_value_def INT_MAX_def strchr_def chunk_os_def message_example_def
      thread_example_def)

text \<open>
  a seek command without a comma crashes the server: \<open>strchr\<close> returns NULL, the code increments
  the pointer and reads the number behind it. Any client can send such a line.
\<close>

lemma seek_without_comma_crashes:
  assumes "\<not> global_mutex s" "ready s str" "take (length kIOCtrlStr) str = kIOCtrlStr"
    and "atoi (drop (length kIOCtrlStr) str) = Inr n"
    and "CHR '','' \<notin> set (drop (length kIOCtrlStr) str)"
  shows "exchange os s = Some (Inl NullDeref)"
proof -
  obtain w f where "os_open os (world s) = (w, f)" by fastforce
  moreover have "parse_seekto (drop (length kIOCtrlStr) str) = Inl NullDeref"
    using assms(4) strchr_None_iff [THEN iffD2, OF assms(5)] by (simp add: parse_seekto_def)
  ultimately show ?thesis
    using exchange_eq [OF assms(1) _ _ refl, of str] ready_string [OF assms(2)] assms(3)
    by (simp add: seek_command_def Let_def)
qed

lemma seek_without_comma_crashes_witness:
  "exchange chunk_os (message_example [] (''AESDCHAR_IOCSEEKTO:3'' @ [nl])) = Some (Inl NullDeref)"
  by (rule seek_without_comma_crashes [OF message_example_free message_example_ready, of _ 3])
    (simp_all add: NUL_def kIOCtrlStr_def atoi_def isspace_def isdigit_def digits_value_def
      digit_value_def INT_MAX_def)

text \<open>
  a failed write to the device locks everybody out. The thread returns without releasing the
  mutex, and after that no thread completes an exchange any more, whatever its message is.
\<close>

lemma failed_write_keeps_mutex:
  assumes "\<not> global_mutex s" "ready s str" "take (length kIOCtrlStr) str \<noteq> kIOCtrlStr"
    and "os_open os (world s) = (w, f)" "os_write os w f str = (w', -1)"
  shows "\<exists>s'. exchange os s = Some (Inr (Returned s')) \<and> complete (threadData s') \<and> global_mutex s' \<and>
    (\<forall>t. global_mutex t = global_mutex s' \<longrightarrow> exchange os t = None)"
proof -
  let ?s1 = "s\<lparr>global_mutex := True, world := w, global_fd := f\<rparr>"
  have "holds_at (?s1\<lparr>world := w'\<rparr>) 0" using ready_holds [OF assms(2)] by (simp add: holds_at_def)
  then obtain s' where s': "return_complete (?s1\<lparr>world := w'\<rparr>) = Inr (Returned s')"
    "complete (threadData s')" "global_mutex s'"
    by (rule return_complete_at) simp_all
  moreover have "write_command os ?s1 str = return_complete (?s1\<lparr>world := w'\<rparr>)"
    using assms(5) by (simp add: write_command_def)
  moreover have "exchange os t = None" if "global_mutex t" for t using that by (simp add: exchange_def)
  ultimately show ?thesis
    using exchange_eq [OF assms(1) _ assms(4) refl, of str] ready_string [OF assms(2)] assms(3)
    by auto
qed

lemma failed_write_keeps_mutex_witness:
  "\<exists>s'. exchange (chunk_os\<lparr>os_write := \<lambda>w f bs. (w, -1)\<rparr>) (message_example [] (''hi'' @ [nl]))
         = Some (Inr (Returned s')) \<and> complete (threadData s') \<and> global_mutex s' \<and>
    (\<forall>t. global_mutex t = global_mutex s' \<longrightarrow>
       exchange (chunk_os\<lparr>os_write := \<lambda>w f bs. (w, -1)\<rparr>) t = None)"
  by (rule failed_write_keeps_mutex [OF message_example_free message_example_ready, of _ _ "[]" "[]" 3 "[]"])
    (simp_all add: NUL_def kIOCtrlStr_def chunk_os_def message_example_def thread_example_def)

end
