(* ===== verification/Server_Heap.thy ===== *)
theory Server_Heap
  imports Server_Threads Server_Exchange
begin

text \<open>
  The heap that the connection threads share: in every interleaving the buffers of different threads
  are different blocks, no block of one thread is written or freed by another, and every thread
  keeps the invariant of the point it has reached.
\<close>

section \<open>Blocks of a thread\<close>

text \<open>
  The buffers a thread may still use: at the start of a round the receive buffer is about to be
  replaced, after the end there are none.
\<close>

definition bufs :: "'w thread \<Rightarrow> addr set" where
  "bufs t = fst ` set_option (recvBuffer t) \<union> set_option (sendBuffer t)"

fun owned :: "pc \<Rightarrow> 'w thread \<Rightarrow> addr set" where
  "owned At_start t = set_option (sendBuffer t)"
| "owned Gone t = {}"
| "owned (Faulted e) t = {}"
| "owned p t = bufs t"

text \<open>\<open>frame h A h'\<close>: the allocated blocks outside \<open>A\<close> are the same in both heaps.\<close>

definition frame :: "heap \<Rightarrow> addr set \<Rightarrow> heap \<Rightarrow> bool" where
  "frame h A h' \<longleftrightarrow> (\<forall>b. b \<notin> A \<longrightarrow> h b \<noteq> None \<longrightarrow> h' b = h b)"

text \<open>A local change: blocks outside \<open>A\<close> are kept, and \<open>A'\<close> holds blocks of \<open>A\<close> and new ones.\<close>

definition local_change :: "addr set \<Rightarrow> heap \<Rightarrow> heap \<Rightarrow> addr set \<Rightarrow> bool" where
  "local_change A h h' A' \<longleftrightarrow> frame h A h' \<and> A' \<subseteq> A \<union> {b. h b = None}"

lemma local_refl [simp]: "A' \<subseteq> A \<Longrightarrow> local_change A h h A'"
  by (auto simp: local_change_def frame_def)

lemma local_mono: "local_change A h h' B \<Longrightarrow> B' \<subseteq> B \<Longrightarrow> local_change A h h' B'"
  by (auto simp: local_change_def)

lemma local_trans:
  "local_change A h h1 A1 \<Longrightarrow> local_change A1 h1 h2 A2 \<Longrightarrow> local_change A h h2 A2"
  unfolding local_change_def frame_def by (auto 4 4)

lemma local_write: "a \<in> A \<Longrightarrow> A' \<subseteq> A \<Longrightarrow> local_change A h (h(a := v)) A'"
  by (auto simp: local_change_def frame_def)

lemma local_new: "h a = None \<Longrightarrow> A' \<subseteq> insert a A \<Longrightarrow> local_change A h (h(a := v)) A'"
  by (auto simp: local_change_def frame_def)

section \<open>Heap operations\<close>

lemma put_bytes_local:
  assumes "put_bytes h p off bs = Inr h'" "fst ` set_option p \<subseteq> A" "A' \<subseteq> A"
  shows "local_change A h h' A'"
  using assms by (auto simp: put_bytes_def Let_def intro!: local_write split: option.splits if_splits)

lemma free_local:
  assumes "free h p = Inr h'" "fst ` set_option p \<subseteq> A" "A' \<subseteq> A"
  shows "local_change A h h' A'"
  using assms by (auto simp: free_def intro!: local_write split: option.splits if_splits)

lemma freeBuffers_local:
  assumes "freeBuffers h r s = Inr h'"
  shows "local_change (fst ` set_option r \<union> set_option s) h h' {}"
proof -
  obtain h1 where h1: "(if r \<noteq> None then free h r else Inr h) = Inr h1"
    and h': "(case s of None \<Rightarrow> Inr h1 | Some a \<Rightarrow> free h1 (Some (a, 0))) = Inr h'"
    using assms by (auto simp: freeBuffers_def)
  let ?A = "fst ` set_option r \<union> set_option s"
  have "local_change ?A h h1 ?A" using h1 free_local [of h r h1 ?A ?A] by (auto split: if_splits)
  moreover have "local_change ?A h1 h' {}"
    using h' free_local [of h1 "map_option (\<lambda>a. (a, 0)) s" h' ?A "{}"] by (auto split: option.splits)
  ultimately show ?thesis by (rule local_trans)
qed

lemma freeBuffers_error: "freeBuffers h r s = Inl e \<Longrightarrow> e = BadFree"
  by (auto simp: freeBuffers_def free_def split: option.splits if_splits)

lemma return_complete_local:
  "return_complete t = Inr r \<Longrightarrow> \<exists>t'. r = Returned t' \<and> local_change (bufs t) (mem t) (mem t') {}"
  by (auto simp: return_complete_def bufs_def dest: freeBuffers_local)

lemma return_complete_error: "return_complete t = Inl e \<Longrightarrow> e = BadFree"
  by (cases "freeBuffers (mem t) (recvBuffer t) (sendBuffer t)")
    (auto simp: return_complete_def dest: freeBuffers_error)

text \<open>The result of a block that changes the heap locally.\<close>

definition local_block :: "addr set \<Rightarrow> heap \<Rightarrow> 'w thread outcome result \<Rightarrow> bool" where
  "local_block A h r \<longleftrightarrow>
     (case r of
        Inl e \<Rightarrow> True
      | Inr (Continue t') \<Rightarrow> local_change A h (mem t') (bufs t')
      | Inr (Again t') \<Rightarrow> local_change A h (mem t') (bufs t')
      | Inr (Returned t') \<Rightarrow> local_change A h (mem t') {})"

lemma local_block_simps [simp]:
  "local_block A h (Inl e)"
  "local_block A h (Inr (Continue t')) = local_change A h (mem t') (bufs t')"
  "local_block A h (Inr (Again t')) = local_change A h (mem t') (bufs t')"
  "local_block A h (Inr (Returned t')) = local_change A h (mem t') {}"
  by (simp_all add: local_block_def)

lemma local_block_trans: "local_change A h h1 A1 \<Longrightarrow> local_block A1 h1 r \<Longrightarrow> local_block A h r"
  by (auto simp: local_block_def intro: local_trans split: sum.splits outcome.splits)

lemma return_complete_block: "local_block (bufs t) (mem t) (return_complete t)"
  by (cases "return_complete t") (auto dest!: return_complete_local)

lemma check_newline_block: "local_block (bufs t) (mem t) (check_newline t)"
proof (cases "put_bytes (mem t) (recvBuffer t) (bufferSize t - 1) [NUL]")
  case (Inr h)
  have "local_change (bufs t) (mem t) h (bufs t)"
    using put_bytes_local [OF Inr, of "bufs t" "bufs t"] by (auto simp: bufs_def)
  then show ?thesis using Inr
    by (cases "string_at h (recvBuffer t)") (auto simp: check_newline_def bufs_def)
qed (simp add: check_newline_def)

section \<open>The blocks of the code\<close>

lemma start_message_block:
  assumes "alloc_ok os"
  shows "local_block (set_option (sendBuffer t)) (mem t) (start_message os t)"
proof -
  obtain w q h where c: "os_calloc os (world t) (mem t) (nat kBufferStartLength) = (w, q, h)"
    by (metis prod_cases3)
  show ?thesis
  proof (cases q)
    case None
    let ?t = "t\<lparr>world := w, mem := h, recvBuffer := None\<rparr>"
    have "h = mem t" using alloc_callocN [OF assms] c None by blast
    then show ?thesis using return_complete_block [of ?t] c None by (simp add: start_message_def bufs_def)
  next
    case (Some a)
    have "mem t a = None" "h = (mem t)(a \<mapsto> replicate (nat kBufferStartLength) NUL)"
      using alloc_callocD [OF assms] c Some by blast+
    then show ?thesis using c Some by (auto simp: start_message_def bufs_def intro!: local_new)
  qed
qed

lemma grow_buffer_block:
  assumes "alloc_ok os" "recvBuffer t = Some (a, 0)" "mem t a = Some blk"
  shows "local_block (bufs t) (mem t) (grow_buffer os t)"
proof (cases "bufferSize t + kBufferStartLength > INT_MAX")
  case False
  let ?n = "bufferSize t + kBufferStartLength"
  obtain w q h where c: "os_realloc os (world t) (mem t) a (nat ?n) = (w, q, h)" by (metis prod_cases3)
  let ?t = "t\<lparr>bufferSize := ?n, bufferIndex := ?n - kBufferStartLength - 1, world := w, mem := h\<rparr>"
  show ?thesis
  proof (cases q)
    case None
    have "h = mem t" using alloc_reallocN [of os "mem t" a blk] assms(1,3) c None by blast
    then show ?thesis using return_complete_block [of ?t] c None False assms(2)
      by (simp add: grow_buffer_def Let_def bufs_def)
  next
    case (Some b)
    obtain bs where b: "b = a \<or> mem t b = None" "h = ((mem t)(a := None))(b \<mapsto> bs)"
      using alloc_reallocD [of os "mem t" a blk] assms(1,3) c Some by metis
    have "local_change (bufs t) (mem t) h (insert b (set_option (sendBuffer t)))"
      using b assms(2) by (auto simp: local_change_def frame_def bufs_def)
    then show ?thesis
      using local_block_trans [OF _ check_newline_block [of "?t\<lparr>recvBuffer := Some (b, 0)\<rparr>"]] c Some False assms(2)
      by (simp add: grow_buffer_def Let_def bufs_def)
  qed
qed (simp add: grow_buffer_def)

lemma recv_round_block:
  assumes "alloc_ok os" "recv_inv t"
  shows "local_block (bufs t) (mem t) (recv_round os t)"
proof -
  from assms(2) obtain a blk where a: "recvBuffer t = Some (a, 0)" "mem t a = Some blk"
    by (auto simp: recv_inv_def holds_buffers_def)
  show ?thesis
  proof (cases "poll_exit os (world t)")
    case True
    then show ?thesis
      by (cases "freeBuffers (mem t) (recvBuffer t) (sendBuffer t)")
        (auto simp: recv_round_eq bufs_def dest: freeBuffers_local)
  next
    case False
    let ?room = "bufferSize t - bufferIndex t - 1"
    obtain w r where c: "os_recv os (world t) (cfd (threadData t)) (nat ?room) = (w, r)" by fastforce
    show ?thesis
    proof (cases r)
      case None
      then show ?thesis using False c return_complete_block [of "t\<lparr>world := w\<rparr>"]
        by (simp add: recv_round_eq Let_def bufs_def)
    next
      case (Some bs)
      show ?thesis
      proof (cases "put_bytes (mem t) (recvBuffer t) (bufferIndex t) bs")
        case (Inr h)
        let ?t = "t\<lparr>world := w, mem := h\<rparr>"
        have l: "local_change (bufs t) (mem t) h (bufs t)"
          using put_bytes_local [OF Inr, of "bufs t" "bufs t"] by (auto simp: bufs_def)
        obtain blk' where "h a = Some blk'"
          using Inr a by (auto simp: put_bytes_def Let_def split: if_splits)
        then have "local_block (bufs t) (mem t) (grow_buffer os ?t)"
          using local_block_trans [OF l] grow_buffer_block [OF assms(1), of ?t a blk'] a(1)
          by (simp add: bufs_def)
        moreover have "local_block (bufs t) (mem t)
            (check_newline (?t\<lparr>bufferIndex := bufferIndex t + int (length bs)\<rparr>))"
          using local_block_trans [OF l]
            check_newline_block [of "?t\<lparr>bufferIndex := bufferIndex t + int (length bs)\<rparr>"]
          by (simp add: bufs_def)
        ultimately show ?thesis using False c Some Inr by (simp add: recv_round_eq Let_def)
      qed (use False c Some in \<open>simp add: recv_round_eq\<close>)
    qed
  qed
qed

lemma exit_check_block: "local_block (bufs t) (mem t) (exit_check os t)"
proof (cases rule: exit_check_cases [of os t])
  case stay
  then show ?thesis by simp
next
  case leave
  then show ?thesis
    by (cases "freeBuffers (mem t) (recvBuffer t) (sendBuffer t)")
      (auto simp: recv_round_eq bufs_def dest: freeBuffers_local)
qed

lemma receive_block: "alloc_ok os \<Longrightarrow> recv_inv t \<Longrightarrow> local_block (bufs t) (mem t) (receive os t)"
  unfolding receive_round by (rule recv_round_block) simp_all

lemma bufs_moved [simp]:
  "bufs (t\<lparr>recvBuffer := map_option (\<lambda>(a, k). (a, k + n)) (recvBuffer t)\<rparr>) = bufs t"
  by (cases "recvBuffer t") (auto simp: bufs_def)

lemma bufs_other [simp]:
  "bufs (t\<lparr>world := w\<rparr>) = bufs t" "bufs (t\<lparr>mem := h\<rparr>) = bufs t" "bufs (t\<lparr>global_mutex := m\<rparr>) = bufs t"
  "bufs (t\<lparr>global_fd := f\<rparr>) = bufs t" "bufs (t\<lparr>ioctlCmdRecv := b\<rparr>) = bufs t"
  by (simp_all add: bufs_def)

lemma command_block_block: "local_block (bufs t) (mem t) (command_block os t)"
proof (cases "string_at (mem t) (recvBuffer t)")
  case (Inr str)
  let ?t = "t\<lparr>ioctlCmdRecv := True,
    recvBuffer := map_option (\<lambda>(a, k). (a, k + length kIOCtrlStr)) (recvBuffer t)\<rparr>"
  have bt: "bufs ?t = bufs t" by (cases "recvBuffer t") (auto simp: bufs_def)
  have "local_block (bufs t) (mem t) (return_complete (?t\<lparr>world := w, global_mutex := False\<rparr>))" for w
    using return_complete_block [of "?t\<lparr>world := w, global_mutex := False\<rparr>"] bt by simp
  then have "local_block (bufs t) (mem t) (seek_command os t str)"
    using bt by (cases "parse_seekto (drop (length kIOCtrlStr) str)")
      (auto simp: seek_command_def Let_def split: prod.splits)
  moreover have "local_block (bufs t) (mem t) (write_command os t str)"
    using return_complete_block [of "t\<lparr>world := w\<rparr>" for w]
    by (auto simp: write_command_def Let_def split: prod.splits)
  ultimately show ?thesis using Inr by (simp add: command_block_def)
qed (simp add: command_block_def)

lemma position_reply_outcome:
  assumes "alloc_ok os"
  obtains (leave) t1 n where "position_reply os t = rbind (return_complete t1) (\<lambda>r. Inr (r, n))"
    "recvBuffer t1 = recvBuffer t" "mem t1 = mem t" "bufs t1 \<subseteq> bufs t"
  | (reply) t1 b n where "position_reply os t = Inr (Continue t1, n)" "recvBuffer t1 = recvBuffer t"
    "sendBuffer t1 = Some b" "mem t b = None" "mem t1 = (mem t)(b \<mapsto> replicate (to_size_t n) NUL)"
proof -
  define s1 offset where "s1 = (if ioctlCmdRecv t
      then t\<lparr>world := fst (os_lseek os (world t) (global_fd t) 0 SEEK_CUR)\<rparr> else t)"
    and "offset = (if ioctlCmdRecv t then snd (os_lseek os (world t) (global_fd t) 0 SEEK_CUR) else 0)"
  have s1: "recvBuffer s1 = recvBuffer t" "sendBuffer s1 = sendBuffer t" "mem s1 = mem t"
    "global_fd s1 = global_fd t" by (simp_all add: s1_def)
  obtain w2 e where e: "os_lseek os (world s1) (global_fd t) 0 SEEK_END = (w2, e)" by fastforce
  obtain w3 x where w3: "os_lseek os w2 (global_fd t) offset SEEK_SET = (w3, x)" by fastforce
  obtain w4 q h where c: "os_calloc os w3 (mem t) (to_size_t (to_int e)) = (w4, q, h)"
    by (metis prod_cases3)
  let ?s2 = "s1\<lparr>world := w2\<rparr>" and ?s3 = "s1\<lparr>world := w4, mem := h, sendBuffer := q\<rparr>"
  have eq: "position_reply os t =
      (if to_int e = -1
       then rbind (return_complete (?s2\<lparr>world := os_close os w2 (global_fd t), global_mutex := False\<rparr>))
              (\<lambda>r. Inr (r, to_int e))
       else if q = None then rbind (return_complete ?s3) (\<lambda>r. Inr (r, to_int e))
       else Inr (Continue ?s3, to_int e))"
    using e w3 c by (auto simp: position_reply_def s1_def offset_def Let_def split: prod.splits)
  show thesis
  proof (cases "to_int e = -1")
    case True
    then show thesis using eq s1
      by (intro leave [of "?s2\<lparr>world := os_close os w2 (global_fd t), global_mutex := False\<rparr>"])
        (auto simp: bufs_def)
  next
    case e1: False
    show thesis
    proof (cases q)
      case None
      have "h = mem t" using alloc_callocN [OF assms] c None by blast
      then show thesis using eq e1 None s1 by (intro leave [of ?s3]) (auto simp: bufs_def)
    next
      case (Some b)
      have "mem t b = None" "h = (mem t)(b \<mapsto> replicate (to_size_t (to_int e)) NUL)"
        using alloc_callocD [OF assms] c Some by blast+
      then show thesis using eq e1 Some s1 by (intro reply [of ?s3 "to_int e" b]) auto
    qed
  qed
qed

definition read_ok :: "'w os \<Rightarrow> bool" where
  "read_ok os \<longleftrightarrow> (\<forall>w f n w' bs. os_read os w f n = (w', Some bs) \<longrightarrow> length bs \<le> n)"

lemma echo_round_outcome:
  assumes "read_ok os" and b: "sendBuffer t = Some b" "mem t b = Some blk" "length blk = to_size_t n"
  obtains (leave) t1 where "echo_round os n t = return_complete t1" "recvBuffer t1 = recvBuffer t"
    "sendBuffer t1 = Some b" "\<exists>blk'. mem t1 = (mem t)(b \<mapsto> blk')"
  | (more) t1 blk' where "echo_round os n t = Inr (Continue t1) \<or> echo_round os n t = Inr (Again t1)"
    "recvBuffer t1 = recvBuffer t" "sendBuffer t1 = Some b" "mem t1 = (mem t)(b \<mapsto> blk')"
    "length blk' = to_size_t n"
proof -
  obtain w r where c: "os_read os (world t) (global_fd t) (to_size_t n) = (w, r)" by fastforce
  show thesis
  proof (cases r)
    case None
    then show thesis using c b by (intro leave [of "t\<lparr>world := w\<rparr>"]) (auto simp: echo_round_def fun_upd_idem intro!: exI [of _ blk])
  next
    case (Some bs)
    then have le: "length bs \<le> to_size_t n" using assms(1) c unfolding read_ok_def by blast
    let ?blk = "bs @ drop (length bs) blk"
    let ?t = "t\<lparr>world := w, mem := (mem t)(b \<mapsto> ?blk)\<rparr>"
    have put: "put_bytes (mem t) (map_option (\<lambda>a. (a, 0)) (sendBuffer t)) 0 bs = Inr ((mem t)(b \<mapsto> ?blk))"
      using b le by (simp add: put_bytes_def)
    obtain w' k where send: "os_send os w (cfd (threadData t)) bs = (w', k)" by fastforce
    have len: "length ?blk = to_size_t n" using b le by simp
    have eq: "echo_round os n t =
        (if bs = [] then Inr (Continue ?t) else if k = -1 then return_complete (?t\<lparr>world := w'\<rparr>)
         else Inr (Again (?t\<lparr>world := w'\<rparr>)))"
      using put c Some send b by (simp add: echo_round_def block_from_def Let_def)
    show thesis
    proof (cases "bs = []")
      case True
      then show thesis using eq b len by (intro more [of ?t ?blk]) simp_all
    next
      case False
      show thesis
      proof (cases "k = -1")
        case True
        then show thesis using eq False b by (intro leave [of "?t\<lparr>world := w'\<rparr>"]) auto
      next
        case k: False
        then show thesis using eq False b len by (intro more [of "?t\<lparr>world := w'\<rparr>" ?blk]) simp_all
      qed
    qed
  qed
qed

section \<open>The invariant of a thread\<close>

fun thread_ok :: "pc \<Rightarrow> 'w thread \<Rightarrow> bool" where
  "thread_ok At_start t \<longleftrightarrow> (\<forall>b. sendBuffer t = Some b \<longrightarrow> mem t b \<noteq> None)"
| "thread_ok At_recv t \<longleftrightarrow> recv_inv t"
| "thread_ok In_recv t \<longleftrightarrow> recv_inv t"
| "thread_ok At_lock t \<longleftrightarrow> (\<exists>str. ready t str)"
| "thread_ok In_command t \<longleftrightarrow> (\<exists>str. ready t str)"
| "thread_ok In_position t \<longleftrightarrow> (\<exists>k. holds_at t k)"
| "thread_ok (In_echo n) t \<longleftrightarrow> (\<exists>k. holds_at t k) \<and>
     (\<exists>b blk. sendBuffer t = Some b \<and> mem t b = Some blk \<and> length blk = to_size_t n)"
| "thread_ok In_close t \<longleftrightarrow> (\<exists>k. holds_at t k)"
| "thread_ok Gone t \<longleftrightarrow> True"
| "thread_ok (Faulted e) t \<longleftrightarrow> True"

text \<open>It is about the thread's own blocks only, and they are allocated.\<close>

lemma holds_cong:
  assumes "recvBuffer t' = recvBuffer t" "sendBuffer t' = sendBuffer t" "\<And>b. b \<in> bufs t \<Longrightarrow> mem t' b = mem t b"
  shows "holds_buffers t a blk \<Longrightarrow> holds_buffers t' a blk" "holds_at t k \<Longrightarrow> holds_at t' k"
  using assms by (auto simp: holds_buffers_def holds_at_def bufs_def)

lemma thread_ok_cong:
  assumes eq: "recvBuffer t' = recvBuffer t" "sendBuffer t' = sendBuffer t" "bufferSize t' = bufferSize t"
      "bufferIndex t' = bufferIndex t" "\<And>b. b \<in> owned p t \<Longrightarrow> mem t' b = mem t b"
    and ok: "thread_ok p t"
  shows "thread_ok p t'"
proof (cases "owned p t = bufs t")
  case True
  then have m: "\<And>b. b \<in> bufs t \<Longrightarrow> mem t' b = mem t b" using eq(5) by simp
  have c: "sendBuffer t = Some b \<Longrightarrow> mem t' b = mem t b" for b using m by (simp add: bufs_def)
  have hb: "holds_buffers t' a blk" if "holds_buffers t a blk" for a blk
    using holds_cong(1) [of t' t a blk] eq(1,2) m that by blast
  have ha: "holds_at t' k" if "holds_at t k" for k
    using holds_cong(2) [of t' t k] eq(1,2) m that by blast
  have rd: "ready t' str" if "ready t str" for str
    using that hb by (auto simp: ready_def)
  have inv: "recv_inv t'" if "recv_inv t"
  proof -
    from that obtain a blk where "holds_buffers t a blk" "int (length blk) = bufferSize t"
      "0 \<le> bufferIndex t" "bufferIndex t + 2 \<le> bufferSize t" "last blk = NUL" "nl \<notin> set (upto_nul blk)"
      by (auto simp: recv_inv_def)
    then show ?thesis using eq(3,4) hb by (intro recv_invI [of t' a blk]) simp_all
  qed
  show ?thesis
  proof (cases p)
    case At_recv
    then show ?thesis using inv ok by simp
  next
    case In_recv
    then show ?thesis using inv ok by simp
  qed (use ok ha rd c eq(2) in auto)
next
  case False
  then show ?thesis using ok eq(2,5) by (cases p) auto
qed

lemma thread_ok_allocated: "thread_ok p t \<Longrightarrow> b \<in> owned p t \<Longrightarrow> mem t b \<noteq> None"
  by (cases p) (auto simp: recv_inv_def ready_def holds_buffers_def holds_at_def bufs_def)

section \<open>One step\<close>

text \<open>The faults the code can have.\<close>

abbreviation known_fault :: "error \<Rightarrow> bool" where
  "known_fault e \<equiv> e = Undefined \<or> e = NullDeref \<or> e = BadFree"

lemma block_end_local:
  fixes t t' :: "'w thread"
  assumes "block_end p q t r = (p', t')" "local_block A (mem t) r"
    "\<And>u :: 'w thread. owned p u \<subseteq> bufs u" "\<And>u :: 'w thread. owned q u \<subseteq> bufs u"
  shows "local_change A (mem t) (mem t') (owned p' t')"
proof (cases "(p, q, t, r)" rule: block_end.cases)
  case (2 go_on again t t1)
  then show ?thesis using assms(1,2) local_mono [OF _ assms(3)] by auto
next
  case (3 go_on again t t1)
  then show ?thesis using assms(1,2) local_mono [OF _ assms(4)] by auto
qed (use assms in auto)

lemma start_step:
  assumes "alloc_ok os" "thread_ok At_start t" "thread_step os At_start t = Some (p', t')"
  shows "thread_ok p' t' \<and> (\<forall>e. p' = Faulted e \<longrightarrow> known_fault e)"
proof -
  obtain w q h where c: "os_calloc os (world t) (mem t) (nat kBufferStartLength) = (w, q, h)"
    by (metis prod_cases3)
  show ?thesis
  proof (cases q)
    case None
    let ?t = "t\<lparr>world := w, mem := h, recvBuffer := None\<rparr>"
    have "start_message os t = return_complete ?t" using c None by (simp add: start_message_def)
    then show ?thesis using assms(3)
      by (cases "return_complete ?t") (auto dest: return_complete_local return_complete_error)
  next
    case (Some a)
    have h: "mem t a = None" "h = (mem t)(a \<mapsto> replicate 128 NUL)"
      using alloc_callocD [OF assms(1)] c Some by (auto simp: kBufferStartLength_def)
    let ?t = "t\<lparr>world := w, mem := h, recvBuffer := Some (a, 0), bufferSize := 128, bufferIndex := 0\<rparr>"
    have "recv_inv ?t"
      by (rule recv_invI [of _ a "replicate 128 NUL"])
        (use assms(2) h in \<open>auto simp: holds_buffers_def takeWhile_eq_Nil_iff NUL_def\<close>)
    then show ?thesis using assms(3) c Some by (auto simp: start_message_def kBufferStartLength_def)
  qed
qed

lemma exit_step:
  assumes "thread_ok At_recv t" "thread_step os At_recv t = Some (p', t')"
  shows "thread_ok p' t' \<and> (\<forall>e. p' \<noteq> Faulted e)"
proof (cases rule: exit_check_cases [of os t])
  case stay
  then show ?thesis using assms by auto
next
  case leave
  obtain a blk where "holds_buffers t a blk" using assms(1) by (auto simp: recv_inv_def)
  from freeBuffers_ok [OF this] leave show ?thesis using assms(2) by (auto simp: recv_round_eq)
qed

lemma recv_step:
  assumes "alloc_ok os" "recv_ok os" "thread_ok In_recv t" "thread_step os In_recv t = Some (p', t')"
  shows "thread_ok p' t' \<and> (\<forall>e. p' = Faulted e \<longrightarrow> e = Undefined)"
proof -
  let ?os = "os\<lparr>poll_exit := \<lambda>w. False\<rparr>"
  have "alloc_ok ?os" "recv_ok ?os" "recv_inv t" using assms(1-3) by simp_all
  then show ?thesis
    by (cases rule: recv_round_cases) (use assms(4) in \<open>auto simp: receive_round\<close>)
qed

lemma parse_seekto_error: "parse_seekto str = Inl e \<Longrightarrow> known_fault e"
  by (auto simp: parse_seekto_def atoi_def Let_def rbind_def
      split: sum.splits option.splits if_splits prod.splits list.splits)

lemma command_step:
  assumes "thread_ok In_command t" "thread_step os In_command t = Some (p', t')"
  shows "thread_ok p' t' \<and> (\<forall>e. p' = Faulted e \<longrightarrow> known_fault e)"
proof -
  obtain str where str: "ready t str" using assms(1) by auto
  note s = ready_string [OF str] and h = ready_holds [OF str]
  let ?t = "t\<lparr>ioctlCmdRecv := True,
    recvBuffer := map_option (\<lambda>(a, k). (a, k + length kIOCtrlStr)) (recvBuffer t)\<rparr>"
  have h1: "holds_at (?t\<lparr>world := w\<rparr>) (length kIOCtrlStr)" "holds_at (t\<lparr>world := w\<rparr>) 0" for w
    using h by (auto simp: holds_at_def)
  have rc: "block_end In_position In_command t (return_complete u) = (p', t') \<Longrightarrow>
      thread_ok p' t' \<and> (\<forall>e. p' = Faulted e \<longrightarrow> known_fault e)" for u
    by (cases "return_complete u") (auto dest: return_complete_local return_complete_error)
  show ?thesis
  proof (cases "take (length kIOCtrlStr) str = kIOCtrlStr")
    case True
    show ?thesis
    proof (cases "parse_seekto (drop (length kIOCtrlStr) str)")
      case (Inl e)
      then show ?thesis using assms(2) s True parse_seekto_error
        by (auto simp: command_block_def seek_command_def Let_def)
    next
      case (Inr arg)
      obtain w k where i: "os_ioctl os (world t) (global_fd t) arg = (w, k)" by fastforce
      then show ?thesis using assms(2) s True Inr rc h1
        by (auto simp: command_block_def seek_command_def Let_def split: if_splits)
    qed
  next
    case False
    obtain w k where i: "os_write os (world t) (global_fd t) str = (w, k)" by fastforce
    then show ?thesis using assms(2) s False rc h1
      by (auto simp: command_block_def write_command_def Let_def split: if_splits)
  qed
qed

lemma position_step:
  assumes "alloc_ok os" "thread_ok In_position t" "thread_step os In_position t = Some (p', t')"
  shows "thread_ok p' t' \<and> (\<forall>e. p' = Faulted e \<longrightarrow> known_fault e) \<and>
    local_change (bufs t) (mem t) (mem t') (owned p' t')"
  using assms(1)
proof (cases rule: position_reply_outcome [where t = t])
  case (leave t1 n)
  show ?thesis
  proof (cases "return_complete t1")
    case (Inl e)
    then show ?thesis using assms(3) leave return_complete_error by auto
  next
    case (Inr r)
    from return_complete_local [OF this] obtain t2 where t2: "r = Returned t2"
      "local_change (bufs t1) (mem t) (mem t2) {}" using leave(3) by auto
    have "local_change (bufs t) (mem t) (mem t2) {}" using t2(2) leave(4) by (auto simp: local_change_def frame_def)
    then show ?thesis using assms(3) leave(1) Inr t2(1) by auto
  qed
next
  case (reply t1 b n)
  obtain k a where k: "recvBuffer t = Some (a, k)" "mem t a \<noteq> None"
    using assms(2) by (auto simp: holds_at_def)
  then have "holds_at t1 k" using reply by (auto simp: holds_at_def)
  moreover have "local_change (bufs t) (mem t) (mem t1) (bufs t1)"
    using reply(4,5) k reply(2,3) by (auto simp: bufs_def intro!: local_new)
  ultimately show ?thesis using assms(3) reply by auto
qed

lemma echo_step:
  assumes "read_ok os" "thread_ok (In_echo n) t" "thread_step os (In_echo n) t = Some (p', t')"
  shows "thread_ok p' t' \<and> (\<forall>e. p' = Faulted e \<longrightarrow> known_fault e) \<and>
    local_change (bufs t) (mem t) (mem t') (owned p' t')"
proof -
  from assms(2) obtain b blk a k where b: "sendBuffer t = Some b" "mem t b = Some blk" "length blk = to_size_t n"
    and a: "recvBuffer t = Some (a, k)" "mem t a \<noteq> None" "b \<noteq> a"
    by (auto simp: holds_at_def)
  have l: "local_change (bufs t) (mem t) ((mem t)(b \<mapsto> blk')) (bufs t)" for blk'
    using b by (auto simp: bufs_def intro!: local_write)
  show ?thesis using assms(1) b
  proof (cases rule: echo_round_outcome)
    case (leave t1)
    have bt: "bufs t1 = bufs t" using leave(2,3) b(1) by (simp add: bufs_def)
    show ?thesis
    proof (cases "return_complete t1")
      case (Inl e)
      then show ?thesis using assms(3) leave(1) return_complete_error by auto
    next
      case (Inr r)
      from return_complete_local [OF this] obtain t2 where t2: "r = Returned t2"
        "local_change (bufs t1) (mem t1) (mem t2) {}" by auto
      then have "local_change (bufs t) (mem t) (mem t2) {}" using l leave(4) bt local_trans by metis
      then show ?thesis using assms(3) leave(1) Inr t2(1) by auto
    qed
  next
    case (more t1 blk')
    have "\<exists>k. holds_at t1 k" using a b more by (auto simp: holds_at_def)
    moreover have "bufs t1 = bufs t" using more(2,3) b(1) by (simp add: bufs_def)
    ultimately show ?thesis using assms(3) more l [of blk'] by auto blast
  qed
qed

text \<open>Every block keeps the thread's invariant, changes only its own blocks and has only the known faults.\<close>

lemma thread_step_ok:
  assumes os: "alloc_ok os" "recv_ok os" "read_ok os"
    and ok: "thread_ok p t" and step: "thread_step os p t = Some (p', t')"
  shows "thread_ok p' t' \<and> (\<forall>e. p' = Faulted e \<longrightarrow> known_fault e) \<and>
    local_change (owned p t) (mem t) (mem t') (owned p' t')"
proof (cases p)
  case At_start
  have "block_end At_recv At_start t (start_message os t) = (p', t')" using step At_start by simp
  from block_end_local [OF this start_message_block [OF os(1)]] show ?thesis
    using start_step [OF os(1), of t p' t'] ok step At_start by (auto simp: bufs_def)
next
  case At_recv
  have "block_end In_recv At_recv t (exit_check os t) = (p', t')" using step At_recv by simp
  from block_end_local [OF this exit_check_block] show ?thesis
    using exit_step [of t os p' t'] ok step At_recv by auto
next
  case In_recv
  have "block_end At_lock At_recv t (receive os t) = (p', t')" "recv_inv t" using step In_recv ok by simp_all
  from block_end_local [OF this(1) receive_block [OF os(1) this(2)]] show ?thesis
    using recv_step [OF os(1,2), of t p' t'] ok step In_recv by auto
next
  case At_lock
  then show ?thesis using ok step thread_ok_cong [of t' t In_command]
    by (auto split: if_splits prod.splits)
next
  case In_command
  have "block_end In_position In_command t (command_block os t) = (p', t')" using step In_command by simp
  from block_end_local [OF this command_block_block] show ?thesis
    using command_step [of t os p' t'] ok step In_command by auto
next
  case In_position
  then show ?thesis using position_step [OF os(1)] ok step by simp
next
  case (In_echo n)
  then show ?thesis using echo_step [OF os(3) ok [unfolded In_echo] step [unfolded In_echo]] by simp
next
  case In_close
  then show ?thesis using ok step by (auto simp: holds_at_def bufs_def)
qed (use step in auto)

text \<open>
  The fault of a null pointer has one cause: a seek line without a comma, for which the result of
  \<open>strchr\<close> is incremented and read.
\<close>

definition seek_without_comma :: "heap \<Rightarrow> bufptr \<Rightarrow> bool" where
  "seek_without_comma h p \<longleftrightarrow>
     (\<exists>args. string_at h p = Inr (kIOCtrlStr @ args) \<and> CHR '','' \<notin> set args)"

lemma parse_seekto_null: "parse_seekto str = Inl NullDeref \<Longrightarrow> CHR '','' \<notin> set str"
  by (auto simp: parse_seekto_def atoi_def Let_def rbind_def strchr_None_iff
      split: sum.splits option.splits if_splits prod.splits list.splits)

lemma null_fault:
  assumes os: "alloc_ok os" "recv_ok os" "read_ok os"
    and ok: "thread_ok p t" and step: "thread_step os p t = Some (Faulted NullDeref, t')"
  shows "p = In_command \<and> seek_without_comma (mem t) (recvBuffer t)"
proof (cases p)
  case At_start
  obtain w q h where c: "os_calloc os (world t) (mem t) (nat kBufferStartLength) = (w, q, h)"
    by (metis prod_cases3)
  then have "return_complete (t\<lparr>world := w, mem := h, recvBuffer := None\<rparr>) = Inl NullDeref"
    using step At_start by (cases q; cases "start_message os t"; cases "projr (start_message os t)")
      (auto simp: start_message_def split: sum.splits)
  then show ?thesis using return_complete_error by blast
next
  case At_recv
  then show ?thesis using exit_step ok step by blast
next
  case In_recv
  then show ?thesis using recv_step [OF os(1,2)] ok step by blast
next
  case In_command
  then obtain str where str: "string_at (mem t) (recvBuffer t) = Inr str" using ok ready_string by auto
  have "command_block os t = Inl NullDeref" using step In_command
    by (cases "command_block os t"; cases "projr (command_block os t)") auto
  moreover have "return_complete u \<noteq> Inl NullDeref" for u :: "'a thread"
    using return_complete_error by blast
  ultimately have "take (length kIOCtrlStr) str = kIOCtrlStr"
    "parse_seekto (drop (length kIOCtrlStr) str) = Inl NullDeref"
    using str by (auto simp: command_block_def seek_command_def write_command_def Let_def rbind_def
        split: if_splits prod.splits sum.splits)
  then have "str = kIOCtrlStr @ drop (length kIOCtrlStr) str"
    "CHR '','' \<notin> set (drop (length kIOCtrlStr) str)"
    using parse_seekto_null by (metis append_take_drop_id, blast)
  then show ?thesis using In_command str by (auto simp: seek_without_comma_def)
next
  case In_position
  from os(1) show ?thesis
  proof (cases rule: position_reply_outcome [where t = t])
    case (leave t1 n)
    then show ?thesis using step In_position return_complete_error [of t1]
      by (cases "return_complete t1"; cases "projr (return_complete t1)") auto
  qed (use step In_position in auto)
next
  case (In_echo n)
  then obtain b blk where b: "sendBuffer t = Some b" "mem t b = Some blk" "length blk = to_size_t n"
    using ok by auto
  from os(3) b show ?thesis
  proof (cases rule: echo_round_outcome)
    case (leave t1)
    then show ?thesis using step In_echo return_complete_error [of t1]
      by (cases "return_complete t1"; cases "projr (return_complete t1)") auto
  qed (use step In_echo in auto)
qed (use step in \<open>auto split: if_splits prod.splits\<close>)

section \<open>All threads\<close>

definition heap_inv :: "'w server \<Rightarrow> bool" where
  "heap_inv S \<longleftrightarrow>
     (\<forall>i p t. thr S i = Some (p, t) \<longrightarrow> thread_ok p (load S t) \<and> (\<forall>e. p = Faulted e \<longrightarrow> known_fault e)) \<and>
     (\<forall>i j p q t u. i \<noteq> j \<longrightarrow> thr S i = Some (p, t) \<longrightarrow> thr S j = Some (q, u) \<longrightarrow> owned p t \<inter> owned q u = {})"

lemma owned_load [simp]: "owned p (load S t) = owned p t"
  by (cases p) (simp_all add: bufs_def)

text \<open>A step of a thread leaves the allocated blocks alone that it does not own.\<close>

lemma heap_step_frame:
  assumes step: "server_step os env (Some j) S S'" and inv: "heap_inv S"
    and os: "\<And>i. alloc_ok (os i) \<and> recv_ok (os i) \<and> read_ok (os i)"
    and b: "sh_mem S b \<noteq> None" "\<And>q u. thr S j = Some (q, u) \<Longrightarrow> b \<notin> owned q u"
  shows "sh_mem S' b = sh_mem S b"
  using step
proof (cases rule: server_step.cases)
  case (run q u x)
  obtain q' u' where x: "x = (q', u')" by fastforce
  have ok: "thread_ok q (load S u)" using inv run(2) unfolding heap_inv_def by blast
  from os [of j] have os_j: "alloc_ok (os j)" "recv_ok (os j)" "read_ok (os j)" by auto
  from thread_step_ok [OF os_j ok run(3) [unfolded x]]
  have "frame (sh_mem S) (owned q u) (mem u')" by (simp add: local_change_def)
  then show ?thesis using b run(1,2) x by (auto simp: frame_def)
qed

lemma heap_inv_step:
  assumes step: "server_step os env l S S'" and inv: "heap_inv S"
    and os: "\<And>i. alloc_ok (os i) \<and> recv_ok (os i) \<and> read_ok (os i)"
  shows "heap_inv S'"
  using step
proof (cases rule: server_step.cases)
  case (run i p t x)
  obtain p' t' where x: "x = (p', t')" by fastforce
  have ok: "thread_ok p (load S t)" using inv run(3) unfolding heap_inv_def by blast
  from os [of i] have os_i: "alloc_ok (os i)" "recv_ok (os i)" "read_ok (os i)" by auto
  from thread_step_ok [OF os_i ok run(4) [unfolded x]]
  have new: "thread_ok p' t'" "\<forall>e. p' = Faulted e \<longrightarrow> known_fault e"
    "local_change (owned p t) (sh_mem S) (mem t') (owned p' t')" by simp_all
  have other: "thread_ok q (load S' u) \<and> owned q u \<inter> owned p' t' = {}"
    if j: "j \<noteq> i" "thr S j = Some (q, u)" for j q u
  proof -
    have u: "thread_ok q (load S u)" "owned q u \<inter> owned p t = {}"
      using inv run(3) j unfolding heap_inv_def by blast+
    have al: "sh_mem S b \<noteq> None" if "b \<in> owned q u" for b
      using thread_ok_allocated [OF u(1)] that by simp
    have "thread_ok q (load S' u)"
    proof (rule thread_ok_cong [OF _ _ _ _ _ u(1)])
      show "mem (load S' u) b = mem (load S u) b" if "b \<in> owned q (load S u)" for b
        using that al u(2) new(3) run(2) x by (auto simp: local_change_def frame_def)
    qed (simp_all add: load_def)
    moreover have "owned q u \<inter> owned p' t' = {}"
      using al u(2) new(3) unfolding local_change_def by fastforce
    ultimately show ?thesis by blast
  qed
  have own: "thread_ok p' (load S' t')"
    using new(1) run(2) x by (auto intro!: thread_ok_cong [OF _ _ _ _ _ new(1)] simp: load_def store_def)
  have faults: "\<And>j q u e. thr S j = Some (q, u) \<Longrightarrow> q = Faulted e \<Longrightarrow> known_fault e"
    "\<And>j k q u r v. j \<noteq> k \<Longrightarrow> thr S j = Some (q, u) \<Longrightarrow> thr S k = Some (r, v) \<Longrightarrow> owned q u \<inter> owned r v = {}"
    using inv unfolding heap_inv_def by blast+
  have S': "thr S' = (thr S)(i \<mapsto> (p', t'))" using run(2) x by simp
  show ?thesis unfolding heap_inv_def
  proof (intro conjI allI impI)
    fix j q u
    assume j: "thr S' j = Some (q, u)"
    show "thread_ok q (load S' u)" using j own other S' by (cases "j = i") auto
    show "known_fault e" if "q = Faulted e" for e
      using j that new(2) faults(1) S' by (cases "j = i") auto
  next
    fix j k q r u v
    assume "j \<noteq> k" "thr S' j = Some (q, u)" "thr S' k = Some (r, v)"
    then show "owned q u \<inter> owned r v = {}"
      using other faults(2) [of j k] S' by (cases "j = i"; cases "k = i") (auto simp: Int_commute)
  qed
next
  case (spawn i td)
  have "load S' u = load S u" for u using spawn(2) by (simp add: load_def)
  moreover have "thread_ok At_start (load S (fresh_thread S td))" "owned At_start (fresh_thread S td) = {}"
    by (simp_all add: load_def fresh_thread_def)
  ultimately show ?thesis using inv spawn(2) unfolding heap_inv_def by auto
next
  case (outside w)
  have "thread_ok p (load S' u)" if "thread_ok p (load S u)" for p u
    using that outside(2) by (auto intro!: thread_ok_cong [OF _ _ _ _ _ that] simp: load_def)
  then show ?thesis using inv outside(2) unfolding heap_inv_def by simp
qed

lemma heap_inv_run:
  "server_run os env L S S' \<Longrightarrow> (\<And>i. alloc_ok (os i) \<and> recv_ok (os i) \<and> read_ok (os i)) \<Longrightarrow>
    heap_inv S \<Longrightarrow> heap_inv S'"
  by (induction rule: server_run.induct) (auto intro: heap_inv_step)

lemma reachable_heap_inv:
  assumes "server_reachable os env S" "\<And>i. alloc_ok (os i) \<and> recv_ok (os i) \<and> read_ok (os i)"
  shows "heap_inv S"
proof -
  obtain S0 where S0: "idle S0" "server_run os env (\<lambda>l. True) S0 S"
    using assms(1) unfolding server_reachable_def by blast
  have "heap_inv S0" using S0(1) by (simp add: heap_inv_def idle_def)
  then show ?thesis using heap_inv_run [OF S0(2) assms(2)] by blast
qed

end
