(* ===== verification/Server_Whole.thy ===== *)
theory Server_Whole
  imports Server_Conns Server_Heap
begin

text \<open>
  The whole server: the main thread and the connection threads in one interleaving. The main
  thread is a state machine over the definitions of \<open>Server_Main\<close>: it accepts a connection, looks at
  the nodes one by one, asks the threads to exit one by one and joins them one by one. A connection
  thread makes the blocks of \<open>Server_Threads\<close> on the thread data and the exit mutex to which its
  parameter points, in the blocks that the main thread allocates and frees; the flags \<open>complete\<close> and
  \<open>exit\<close> are read where they are. \<open>pthread_join\<close> waits until the thread has returned.
\<close>

section \<open>States\<close>

text \<open>
  Where the main thread is: at the head of the accept loop; at a node of one of the three passes over
  the list (NULL at the end of the pass); or the process has exited, or a fault has ended it.
\<close>

datatype main_pc = Accepting | Reaping ptr | Asking ptr | Joining ptr | Ended int | Failed error

text \<open>
  The world is the one of the connection threads. \<open>td_of i\<close> is the parameter thread \<open>i\<close> was created with,
  \<open>thread_at h\<close> the thread whose handle is stored in block \<open>h\<close>.
\<close>

record 'w whole =
  mst :: "'w main_state"
  cst :: "'w server"
  mpc :: main_pc
  td_of :: "nat \<rightharpoonup> addr"
  thread_at :: "addr \<rightharpoonup> nat"

fun ended :: "main_pc \<Rightarrow> bool" where
  "ended (Ended n) = True"
| "ended (Failed e) = True"
| "ended _ = False"

text \<open>The calls of the main thread: \<open>pthread_join\<close>, and the loads of what other threads store.\<close>

definition returned :: "'w whole \<Rightarrow> nat \<Rightarrow> bool" where
  "returned S i \<longleftrightarrow> (case thr (cst S) i of Some (Gone, t) \<Rightarrow> True | _ \<Rightarrow> False)"

definition main_calls :: "'w main_os \<Rightarrow> 'w whole \<Rightarrow> 'w main_os" where
  "main_calls os S = os\<lparr>
     mo_join := (\<lambda>w h. case thread_at S h of
                   None \<Rightarrow> None
                 | Some i \<Rightarrow> if returned S i then Some w else None),
     seen_complete := (\<lambda>w t. case tdatas (mst S) t of None \<Rightarrow> False | Some td \<Rightarrow> complete td),
     seen_fd := (\<lambda>w. sh_fd (cst S))\<rparr>"

definition main_load :: "'w whole \<Rightarrow> 'w main_state" where
  "main_load S = (mst S)\<lparr>m_world := sh_world (cst S)\<rparr>"

definition main_store :: "'w whole \<Rightarrow> main_pc \<Rightarrow> 'w main_state \<Rightarrow> 'w whole" where
  "main_store S pc s = S\<lparr>mst := s, cst := (cst S)\<lparr>sh_world := m_world s\<rparr>, mpc := pc\<rparr>"

text \<open>A fault ends the process; a call that does not return is no step.\<close>

definition main_result :: "'w whole \<Rightarrow> ('w main_state \<Rightarrow> main_pc) \<Rightarrow> 'w main_state run \<Rightarrow> 'w whole option" where
  "main_result S go r =
     (case r of
        None \<Rightarrow> None
      | Some (Inl e) \<Rightarrow> Some (S\<lparr>mpc := Failed e\<rparr>)
      | Some (Inr s) \<Rightarrow> Some (main_store S (go s) s))"

definition main_exit :: "'w whole \<Rightarrow> 'w main_state main_end \<Rightarrow> 'w whole" where
  "main_exit S r =
     (case r of Exited n s \<Rightarrow> main_store S (Ended n) s | Stopped s \<Rightarrow> main_store S Accepting s)"

section \<open>The main thread\<close>

text \<open>
  \<open>pthread_create\<close> for the node at the head of the list: when it has succeeded, thread \<open>i\<close> starts with
  the thread data \<open>t\<close>.
\<close>

definition start_thread :: "nat \<Rightarrow> addr \<Rightarrow> 'w main_state \<Rightarrow> 'w whole \<Rightarrow> 'w whole" where
  "start_thread i t s S =
     (let node = the (nodes s (the (SLIST_FIRST (conns s) 0))); h = the (node_thread node)
      in if threads s h \<noteq> Some True then S
         else
         S\<lparr>cst := (cst S)\<lparr>thr := (thr (cst S))(i \<mapsto> (At_start, fresh_thread (cst S) (the (tdatas s t))))\<rparr>,
           td_of := (td_of S)(i \<mapsto> t),
           thread_at := (thread_at S)(h \<mapsto> i)\<rparr>)"

text \<open>A round of the accept loop up to the pass over the list; a new thread gets the name \<open>i\<close>.\<close>

definition whole_accept :: "'w main_os \<Rightarrow> nat \<Rightarrow> 'w whole \<Rightarrow> 'w whole" where
  "whole_accept os i S =
     (let s = main_load S in
      if graceful os (m_world s) then S\<lparr>mpc := Asking (SLIST_FIRST (conns s) 0)\<rparr>
      else
        let (w, r) = mo_accept os (m_world s) (sfd s);
            s1 = s\<lparr>m_world := w\<rparr>
        in (case r of
              Would_block \<Rightarrow> main_store S Accepting s1
            | Accept_error \<Rightarrow> main_exit S (exit_failure (main_calls os S) s1)
            | Accepted c ca \<Rightarrow>
                if \<not> mo_ntop os w ca then main_exit S (exit_failure (main_calls os S) s1)
                else
                  (case rbind (new_threadData os c s1) (\<lambda>(t, s2).
                        rbind (new_node os t ca s2) (\<lambda>s3. Inr (t, s3))) of
                     Inl e \<Rightarrow> S\<lparr>mpc := Failed e\<rparr>
                   | Inr (t, s3) \<Rightarrow>
                       start_thread i t s3 (main_store S (Reaping (SLIST_FIRST (conns s3) 0)) s3))))"

text \<open>One step of the main thread, or none: it waits in a join.\<close>

definition main_step :: "'w main_os \<Rightarrow> nat \<Rightarrow> 'w whole \<Rightarrow> 'w whole option" where
  "main_step os i S =
     (let s = main_load S; calls = main_calls os S in
      case mpc S of
        Accepting \<Rightarrow> Some (whole_accept os i S)
      | Reaping None \<Rightarrow> Some (S\<lparr>mpc := Accepting\<rparr>)
      | Reaping (Some a) \<Rightarrow>
          (case SLIST_NEXT (conns s) (Some a) of
             Inl e \<Rightarrow> Some (S\<lparr>mpc := Failed e\<rparr>)
           | Inr tempNode \<Rightarrow>
               main_result S (\<lambda>s'. Reaping tempNode)
                 (reap_node calls (seen_complete calls (m_world s)) a s))
      | Asking None \<Rightarrow> Some (S\<lparr>mpc := Joining (SLIST_FIRST (conns s) 0)\<rparr>)
      | Asking (Some a) \<Rightarrow>
          main_result S (\<lambda>s'. case SLIST_NEXT (conns s') (Some a) of Inl e \<Rightarrow> Failed e | Inr v \<Rightarrow> Asking v)
            (request_exit a s)
      | Joining None \<Rightarrow> Some (main_store S (Ended 0) (cleanup calls s))
      | Joining (Some a) \<Rightarrow>
          (case SLIST_NEXT (conns s) (Some a) of
             Inl e \<Rightarrow> Some (S\<lparr>mpc := Failed e\<rparr>)
           | Inr tempNode \<Rightarrow> main_result S (\<lambda>s'. Joining tempNode) (remove_node calls a s))
      | Ended n \<Rightarrow> None
      | Failed e \<Rightarrow> None)"

section \<open>The connection threads\<close>

text \<open>
  A block of thread \<open>i\<close>. The thread data and the mutex are looked up in the blocks of the process; a
  thread that still runs when one of them has been freed is a fault.
\<close>

definition conn_fault :: "'w whole \<Rightarrow> nat \<Rightarrow> 'w thread \<Rightarrow> error \<Rightarrow> 'w whole" where
  "conn_fault S i t e = S\<lparr>cst := (cst S)\<lparr>thr := (thr (cst S))(i \<mapsto> (Faulted e, t))\<rparr>\<rparr>"

definition over :: "pc \<Rightarrow> bool" where
  "over p \<longleftrightarrow> p = Gone \<or> (\<exists>e. p = Faulted e)"

lemma over_simps [simp, code]:
  "over Gone" "over (Faulted e)" "\<not> over At_start" "\<not> over At_recv" "\<not> over In_recv" "\<not> over At_lock"
  "\<not> over In_command" "\<not> over In_position" "\<not> over (In_echo n)" "\<not> over In_close"
  by (simp_all add: over_def)

definition conn_block ::
  "'w os \<Rightarrow> 'w whole \<Rightarrow> nat \<Rightarrow> pc \<Rightarrow> 'w thread \<Rightarrow> addr \<Rightarrow> socketThreadData \<Rightarrow> addr \<Rightarrow> bool \<Rightarrow> 'w whole option" where
  "conn_block os S i p t d td m held =
     (case thread_step (os\<lparr>poll_exit := (\<lambda>w. exit td)\<rparr>) p
             ((load (cst S) t)\<lparr>threadData := td, exit_mutex := held\<rparr>) of
        None \<Rightarrow> None
      | Some (p', t') \<Rightarrow>
          Some (S\<lparr>cst := store (cst S) i (p', t'),
                  mst := (mst S)\<lparr>tdatas := (tdatas (mst S))(d \<mapsto> threadData t'),
                                 mutexes := (mutexes (mst S))(m \<mapsto> exit_mutex t')\<rparr>\<rparr>))"

definition conn_step :: "(nat \<Rightarrow> 'w os) \<Rightarrow> nat \<Rightarrow> 'w whole \<Rightarrow> 'w whole option" where
  "conn_step os i S =
     (case thr (cst S) i of
        None \<Rightarrow> None
      | Some (p, t) \<Rightarrow>
          if over p then None
          else
            (case deref (tdatas (mst S)) (td_of S i) of
               Inl e \<Rightarrow> Some (conn_fault S i t e)
             | Inr td \<Rightarrow>
                 (case deref (mutexes (mst S)) (mutexExit td) of
                    Inl e \<Rightarrow> Some (conn_fault S i t e)
                  | Inr held \<Rightarrow>
                      conn_block (os i) S i p t (the (td_of S i)) td (the (mutexExit td)) held)))"

section \<open>Steps\<close>

text \<open>Who makes a step; nobody does when the process has ended.\<close>

datatype actor = Main_thread | Conn_thread nat | Surroundings

inductive whole_step ::
  "(nat \<Rightarrow> 'w os) \<Rightarrow> 'w main_os \<Rightarrow> ('w \<Rightarrow> 'w \<Rightarrow> bool) \<Rightarrow> actor \<Rightarrow> 'w whole \<Rightarrow> 'w whole \<Rightarrow> bool"
  for os mos env where
  main: "thr (cst S) i = None \<Longrightarrow> main_step mos i S = Some S' \<Longrightarrow> whole_step os mos env Main_thread S S'"
| conn: "\<not> ended (mpc S) \<Longrightarrow> conn_step os i S = Some S' \<Longrightarrow> whole_step os mos env (Conn_thread i) S S'"
| outside: "\<not> ended (mpc S) \<Longrightarrow> env (sh_world (cst S)) w \<Longrightarrow>
    whole_step os mos env Surroundings S (S\<lparr>cst := (cst S)\<lparr>sh_world := w\<rparr>\<rparr>)"

text \<open>The process behind \<open>main_setup\<close>, and the states it reaches.\<close>

definition whole_start :: "'w main_os \<Rightarrow> 'w whole \<Rightarrow> bool" where
  "whole_start mos S \<longleftrightarrow> mpc S = Accepting \<and> idle (cst S) \<and> sh_world (cst S) = m_world (mst S) \<and>
     (\<exists>args s0. no_blocks s0 \<and> main_setup mos args s0 = Stopped (mst S))"

inductive whole_reachable ::
  "(nat \<Rightarrow> 'w os) \<Rightarrow> 'w main_os \<Rightarrow> ('w \<Rightarrow> 'w \<Rightarrow> bool) \<Rightarrow> 'w whole \<Rightarrow> bool" for os mos env where
  start: "whole_start mos S \<Longrightarrow> whole_reachable os mos env S"
| step: "whole_reachable os mos env S \<Longrightarrow> whole_step os mos env a S S' \<Longrightarrow> whole_reachable os mos env S'"


section \<open>What a thread does to its thread data\<close>

text \<open>
  A block that returns sets \<open>complete\<close> and unlocks the mutex; the other blocks leave the thread data
  alone, and no block changes the other fields.
\<close>

definition client :: "'w thread \<Rightarrow> 'w thread \<Rightarrow> bool" where
  "client t t' \<longleftrightarrow> mutexExit (threadData t') = mutexExit (threadData t) \<and>
     cfd (threadData t') = cfd (threadData t) \<and> exit (threadData t') = exit (threadData t) \<and>
     (exit_mutex t' \<longrightarrow> exit_mutex t)"

definition working :: "'w thread \<Rightarrow> 'w thread \<Rightarrow> bool" where
  "working t t' \<longleftrightarrow> client t t' \<and> complete (threadData t') = complete (threadData t)"

definition td_kept :: "'w thread \<Rightarrow> 'w thread outcome result \<Rightarrow> bool" where
  "td_kept t r \<longleftrightarrow> (\<forall>t'. (r = Inr (Continue t') \<or> r = Inr (Again t') \<longrightarrow> working t t') \<and>
     (r = Inr (Returned t') \<longrightarrow> client t t'))"

lemma td_kept_simps [simp]:
  "td_kept t (Inl e)" "td_kept t (Inr (Continue t')) = working t t'"
  "td_kept t (Inr (Again t')) = working t t'" "td_kept t (Inr (Returned t')) = client t t'"
  by (auto simp: td_kept_def)

lemma client_fields [simp]:
  "client t t"
  "client t (u\<lparr>world := w\<rparr>) = client t u" "client t (u\<lparr>mem := h\<rparr>) = client t u"
  "client t (u\<lparr>global_mutex := b\<rparr>) = client t u" "client t (u\<lparr>global_fd := f\<rparr>) = client t u"
  "client t (u\<lparr>recvBuffer := r\<rparr>) = client t u" "client t (u\<lparr>sendBuffer := q\<rparr>) = client t u"
  "client t (u\<lparr>bufferSize := n\<rparr>) = client t u" "client t (u\<lparr>bufferIndex := n\<rparr>) = client t u"
  "client t (u\<lparr>ioctlCmdRecv := b\<rparr>) = client t u"
  by (simp_all add: client_def)

lemma working_fields [simp]:
  "working t t"
  "working t (u\<lparr>world := w\<rparr>) = working t u" "working t (u\<lparr>mem := h\<rparr>) = working t u"
  "working t (u\<lparr>global_mutex := b\<rparr>) = working t u" "working t (u\<lparr>global_fd := f\<rparr>) = working t u"
  "working t (u\<lparr>recvBuffer := r\<rparr>) = working t u" "working t (u\<lparr>sendBuffer := q\<rparr>) = working t u"
  "working t (u\<lparr>bufferSize := n\<rparr>) = working t u" "working t (u\<lparr>bufferIndex := n\<rparr>) = working t u"
  "working t (u\<lparr>ioctlCmdRecv := b\<rparr>) = working t u"
  by (simp_all add: working_def)

lemma working_client: "working t u \<Longrightarrow> client t u"
  by (simp add: working_def)

lemma return_complete_kept: "client t u \<Longrightarrow> td_kept t (return_complete u)"
  by (cases "freeBuffers (mem u) (recvBuffer u) (sendBuffer u)") (auto simp: return_complete_def client_def)

lemma check_newline_kept: "working t u \<Longrightarrow> td_kept t (check_newline u)"
  by (cases "put_bytes (mem u) (recvBuffer u) (bufferSize u - 1) [NUL]";
      cases "string_at (projr (put_bytes (mem u) (recvBuffer u) (bufferSize u - 1) [NUL])) (recvBuffer u)")
    (auto simp: check_newline_def)

lemma start_message_kept: "td_kept t (start_message os t)"
  by (auto simp: start_message_def Let_def intro!: return_complete_kept split: prod.splits)

lemma grow_buffer_kept: "working t u \<Longrightarrow> td_kept t (grow_buffer os u)"
  by (auto simp: grow_buffer_def Let_def intro!: check_newline_kept return_complete_kept dest: working_client
      split: prod.splits option.splits)

lemma recv_round_kept: "td_kept t (recv_round os t)"
proof -
  obtain w r where r: "os_recv os (world t) (cfd (threadData t)) (nat (bufferSize t - bufferIndex t - 1)) = (w, r)"
    by fastforce
  show ?thesis
  proof (cases "poll_exit os (world t)")
    case True
    then show ?thesis
      by (cases "freeBuffers (mem t) (recvBuffer t) (sendBuffer t)") (auto simp: recv_round_eq client_def)
  next
    case False
    show ?thesis
    proof (cases r)
      case (Some bs)
      then show ?thesis using False r
        by (cases "put_bytes (mem t) (recvBuffer t) (bufferIndex t) bs")
          (auto simp: recv_round_eq Let_def intro!: check_newline_kept grow_buffer_kept)
    qed (use False r in \<open>auto simp: recv_round_eq Let_def intro!: return_complete_kept\<close>)
  qed
qed

lemma exit_check_kept: "td_kept t (exit_check os t)"
  using recv_round_kept [of t os] by (cases rule: exit_check_cases [of os t]) simp_all

lemma receive_kept: "td_kept t (receive os t)"
  unfolding receive_round by (rule recv_round_kept)

lemma command_block_kept: "td_kept t (command_block os t)"
proof (cases "string_at (mem t) (recvBuffer t)")
  case (Inr str)
  have "td_kept t (seek_command os t str)"
    by (cases "parse_seekto (drop (length kIOCtrlStr) str)")
      (auto simp: seek_command_def Let_def intro!: return_complete_kept split: prod.splits)
  moreover have "td_kept t (write_command os t str)"
    by (auto simp: write_command_def Let_def intro!: return_complete_kept split: prod.splits)
  ultimately show ?thesis using Inr by (simp add: command_block_def)
qed (simp add: command_block_def)

lemma position_reply_kept:
  assumes "position_reply os t = Inr (r, n)"
  shows "td_kept t (Inr r)"
proof -
  have rc: "td_kept t (Inr r)" if "return_complete u = Inr r" "client t u" for u
    using return_complete_kept [OF that(2)] that(1) by simp
  show ?thesis using assms
    by (auto simp: position_reply_def Let_def split: prod.splits if_splits intro: rc)
qed

lemma echo_round_kept: "td_kept t (echo_round os n t)"
proof -
  obtain w r where c: "os_read os (world t) (global_fd t) (to_size_t n) = (w, r)" by fastforce
  show ?thesis
  proof (cases r)
    case (Some bs)
    let ?b = "map_option (\<lambda>a. (a, 0)) (sendBuffer t)"
    show ?thesis
    proof (cases "put_bytes (mem t) ?b 0 bs")
      case (Inr h)
      then show ?thesis using c Some
        by (cases "block_from h ?b")
          (auto simp: echo_round_def Let_def intro!: return_complete_kept split: prod.splits)
    qed (use c Some in \<open>simp add: echo_round_def\<close>)
  qed (use c in \<open>auto simp: echo_round_def intro!: return_complete_kept\<close>)
qed

lemma block_end_kept:
  "td_kept t r \<Longrightarrow> block_end p q t r = (p', t') \<Longrightarrow> client t t' \<and> (working t t' \<or> p' = Gone)"
  by (cases "(p, q, t, r)" rule: block_end.cases) (auto dest: working_client)

lemma thread_step_client:
  assumes "thread_step os p t = Some (p', t')"
  shows "client t t' \<and> (working t t' \<or> p' = Gone)"
proof (cases p)
  case In_position
  show ?thesis
  proof (cases "position_reply os t")
    case (Inr rn)
    then obtain r n where r: "position_reply os t = Inr (r, n)" by (cases rn) simp
    then have "block_end (In_echo n) In_position t (Inr r) = (p', t')" using assms In_position by simp
    then show ?thesis by (rule block_end_kept [OF position_reply_kept [OF r]])
  qed (use assms In_position in simp)
next
  case At_start
  then show ?thesis using assms by (intro block_end_kept [OF start_message_kept]) simp
next
  case At_recv
  then show ?thesis using assms by (intro block_end_kept [OF exit_check_kept]) simp
next
  case In_recv
  then show ?thesis using assms by (intro block_end_kept [OF receive_kept]) simp
next
  case In_command
  then show ?thesis using assms by (intro block_end_kept [OF command_block_kept]) simp
next
  case (In_echo n)
  then show ?thesis using assms by (intro block_end_kept [OF echo_round_kept]) simp
qed (use assms in \<open>auto split: prod.splits if_splits\<close>)

end
