(* ===== verification/Server_Main_Props.thy ===== *)
theory Server_Main_Props
  imports Server_Conns
begin

text \<open>
  The properties of the main thread of the server, and an operating system and states on which
  they are instantiated: two clients connect, the thread of the first completes, then the signal
  comes.
\<close>

section \<open>Instances\<close>

text \<open>The world counts the calls of \<open>accept\<close> and lists the closed descriptors.\<close>

definition demo_os :: "(nat \<times> int list) main_os" where
  "demo_os =
     \<lparr>mo_socket = (\<lambda>w. (w, 3)), mo_setsockopt = (\<lambda>w f. (w, 0)), mo_nonblock = (\<lambda>w f. w),
      mo_bind = (\<lambda>w f p. (w, 0)), mo_daemon = (\<lambda>w. (w, 0)), mo_sigint = (\<lambda>w. (w, True)),
      mo_sigterm = (\<lambda>w. (w, True)), mo_listen = (\<lambda>w f. (w, 0)),
      mo_accept = (\<lambda>(n, fs) f. ((Suc n, fs), Accepted (7 + int n) 1)),
      mo_ntop = (\<lambda>w a. True),
      mo_malloc = (\<lambda>w U. (w, if finite U then Some (Suc (Max (insert 0 U))) else None)),
      mo_create = (\<lambda>w h t. (w, True)), mo_join = (\<lambda>w h. Some w), mo_close = (\<lambda>(n, fs) f. (n, fs @ [f])),
      graceful = (\<lambda>(n, fs). 2 \<le> n), seen_complete = (\<lambda>(n, fs) t. 2 \<le> n \<and> t = 1),
      seen_fd = (\<lambda>w. -1)\<rparr>"

lemma demo_malloc: "malloc_ok demo_os" "malloc_succeeds demo_os"
proof -
  have "Suc (Max (insert 0 U)) \<notin> U" if "finite U" for U
  proof
    assume "Suc (Max (insert 0 U)) \<in> U"
    then have "Suc (Max (insert 0 U)) \<le> Max (insert 0 U)" using that by (intro Max_ge) auto
    then show False by simp
  qed
  then show "malloc_ok demo_os" by (auto simp: malloc_ok_def demo_os_def)
  show "malloc_succeeds demo_os" by (simp add: malloc_succeeds_def demo_os_def)
qed

lemma demo_joins: "joins_return demo_os" "create_succeeds demo_os"
  by (simp_all add: joins_return_def create_succeeds_def demo_os_def)

lemma demo_made: "made demo_os cs \<Longrightarrow> joins demo_os cs"
  by (rule joins_returnD [OF demo_joins])

lemma demo_signal: "signal_comes demo_os (\<lambda>(n, fs). 2 - n)"
  by (auto simp: signal_comes_def demo_os_def)

definition demo_start :: "(nat \<times> int list) main_state" where
  "demo_start =
     \<lparr>m_world = (0, []), sfd = 0, conns = \<lparr>slh_first = (\<lambda>h. Some 5), sle_next = Map.empty\<rparr>,
      nodes = Map.empty, tdatas = Map.empty, threads = Map.empty, mutexes = Map.empty\<rparr>"

lemma demo_start_empty: "no_blocks demo_start"
  by (simp add: no_blocks_def demo_start_def)

text \<open>The state after the second connection, before the pass over the list.\<close>

definition demo_conns :: "conn list" where
  "demo_conns = [\<lparr>c_node = 7, c_td = 5, c_mx = 6, c_th = 8, c_cfd = 8, c_made = True\<rparr>,
                 \<lparr>c_node = 3, c_td = 1, c_mx = 2, c_th = 4, c_cfd = 7, c_made = True\<rparr>]"

definition demo_state :: "(nat \<times> int list) main_state" where
  "demo_state =
     \<lparr>m_world = (2, []), sfd = 3,
      conns = \<lparr>slh_first = (\<lambda>h. Some 7), sle_next = [7 \<mapsto> Some 3, 3 \<mapsto> None]\<rparr>,
      nodes = [7 \<mapsto> \<lparr>node_thread = Some 8, node_threadData = Some 5, clientAddr = 1\<rparr>,
               3 \<mapsto> \<lparr>node_thread = Some 4, node_threadData = Some 1, clientAddr = 1\<rparr>],
      tdatas = [5 \<mapsto> \<lparr>mutexExit = Some 6, cfd = 8, complete = False, exit = False\<rparr>,
                1 \<mapsto> \<lparr>mutexExit = Some 2, cfd = 7, complete = True, exit = False\<rparr>],
      threads = [8 \<mapsto> True, 4 \<mapsto> True], mutexes = [6 \<mapsto> False, 2 \<mapsto> False]\<rparr>"

lemma demo_state_inv: "main_inv demo_state demo_conns"
  by (auto simp: main_inv_def demo_state_def demo_conns_def slist_rep_def conn_ok_def)

section \<open>Properties\<close>

text \<open>
  C18: The pass over the list after a new connection collects exactly the connections whose thread
  has completed: when each of those connections has a thread and joining it returns, the pass returns without a fault, each of them
  is joined, its socket closed, its node taken out of the list and its four blocks freed, and the
  remaining connections are in the list in their order with all their blocks intact.
\<close>

theorem reap_collects:
  fixes os :: "'w main_os"
  assumes "main_inv s cs"
    and "joins os (filter (\<lambda>c. seen_complete os (m_world s) (c_td c)) cs)"
  shows "\<exists>s'. reap os s = Some (Inr s') \<and>
    main_inv s' (filter (\<lambda>c. \<not> seen_complete os (m_world s) (c_td c)) cs) \<and>
    m_world s' = closed_world os (filter (\<lambda>c. seen_complete os (m_world s) (c_td c)) cs) (m_world s) \<and>
    sfd s' = sfd s"
  using reap_ok [OF assms(1), of os] joins_unjoined [OF assms(2)] by blast

theorem reap_collects_witness:
  "\<exists>s'. reap demo_os demo_state = Some (Inr s') \<and> m_world s' = (2, [7]) \<and>
     main_inv s' [\<lparr>c_node = 7, c_td = 5, c_mx = 6, c_th = 8, c_cfd = 8, c_made = True\<rparr>]"
proof -
  have "filter (\<lambda>c. seen_complete demo_os (m_world demo_state) (c_td c)) demo_conns =
      [\<lparr>c_node = 3, c_td = 1, c_mx = 2, c_th = 4, c_cfd = 7, c_made = True\<rparr>]"
    "filter (\<lambda>c. \<not> seen_complete demo_os (m_world demo_state) (c_td c)) demo_conns =
      [\<lparr>c_node = 7, c_td = 5, c_mx = 6, c_th = 8, c_cfd = 8, c_made = True\<rparr>]"
    by (simp_all add: demo_os_def demo_state_def demo_conns_def)
  moreover have "closed_world demo_os [\<lparr>c_node = 3, c_td = 1, c_mx = 2, c_th = 4, c_cfd = 7, c_made = True\<rparr>]
      (m_world demo_state) = (2, [7])"
    by (simp add: demo_os_def demo_state_def)
  ultimately show ?thesis
    using reap_collects [OF demo_state_inv demo_made] by (auto simp: made_def)
qed

text \<open>
  C19: The shutdown releases everything: when all connections have a thread and their threads end, it returns with
  exit status 0, every socket is closed in the order of the list after its thread was joined, the
  listening socket is closed, the list is empty and no node, thread data, thread handle or mutex is
  still allocated.
\<close>

theorem shutdown_releases_everything:
  assumes "main_inv s cs" and "joins os cs"
  shows "\<exists>s'. shutdown os s = Some (Inr (Exited 0 s')) \<and> no_blocks s' \<and> SLIST_EMPTY (conns s') 0 \<and>
    m_world s' = m_world (cleanup os (s\<lparr>m_world := closed_world os cs (m_world s)\<rparr>))"
  using shutdown_ok [OF assms(1), of os] joins_unjoined [OF assms(2)] by blast

theorem shutdown_releases_everything_witness:
  "\<exists>s'. shutdown demo_os demo_state = Some (Inr (Exited 0 s')) \<and> no_blocks s' \<and>
     m_world s' = (2, [8, 7, 3])"
proof -
  have "m_world (cleanup demo_os (demo_state\<lparr>m_world :=
      closed_world demo_os demo_conns (m_world demo_state)\<rparr>)) = (2, [8, 7, 3])"
    by (simp add: demo_os_def demo_state_def demo_conns_def cleanup_def)
  then show ?thesis
    using shutdown_releases_everything [OF demo_state_inv demo_made] by (auto simp: demo_conns_def)
qed

text \<open>
  C9: The main thread is memory safe: started with nothing allocated, whenever it ends, it ends with
  exit status 1 on a failed system call, or with status 0 and every node, thread data, thread handle and
  mutex freed. It has two faults, and each only when a resource is refused: the use of a null pointer
  when an allocation fails, and the join of a handle that \<open>pthread_create\<close> has left undefined when a
  thread cannot be created.
\<close>

theorem main_server_memory_safe:
  assumes "no_blocks s" and "malloc_ok os" and "main_server os args s = Some r"
  shows "(r = Inl NullDeref \<and> \<not> malloc_succeeds os) \<or> (r = Inl Undefined \<and> \<not> create_succeeds os) \<or>
    (\<exists>s'. r = Inr (Exited 1 s')) \<or>
    (\<exists>s'. r = Inr (Exited 0 s') \<and> no_blocks s')"
  using main_server_safe_aux [OF assms] by (auto simp: out_of_resources_def)

theorem main_server_memory_safe_witness:
  "\<exists>r. main_server demo_os [] demo_start = Some r \<and>
     ((\<exists>s'. r = Inr (Exited 1 s')) \<or> (\<exists>s'. r = Inr (Exited 0 s') \<and> no_blocks s'))"
proof -
  obtain r where r: "main_server demo_os [] demo_start = Some r"
    using main_server_returns [OF demo_start_empty demo_malloc(1) demo_signal demo_joins(1)] by blast
  from main_server_memory_safe [OF demo_start_empty demo_malloc(1) r] r demo_malloc(2) demo_joins(2)
  show ?thesis by blast
qed

text \<open>
  C20: The server stops on a signal: if a termination signal comes after finitely many calls of
  \<open>accept\<close>, every thread that is joined ends, allocations succeed and threads can be created, then \<open>main\<close>
  returns, with exit status 1, or with status 0 and every node, thread data, thread handle and mutex freed.
\<close>

theorem main_server_stops:
  assumes "no_blocks s" and "malloc_ok os" and "malloc_succeeds os"
    and "signal_comes os mu" and "joins_return os" and "create_succeeds os"
  shows "\<exists>n s'. main_server os args s = Some (Inr (Exited n s')) \<and> (n = 1 \<or> n = 0 \<and> no_blocks s')"
proof -
  obtain r where r: "main_server os args s = Some r"
    using main_server_returns [OF assms(1,2,4,5)] by blast
  from main_server_safe_aux [OF assms(1,2) r] r assms(3,6) show ?thesis by (auto simp: out_of_resources_def)
qed

theorem main_server_stops_witness:
  "\<exists>n s'. main_server demo_os [''-d''] demo_start = Some (Inr (Exited n s')) \<and>
     (n = 1 \<or> n = 0 \<and> no_blocks s')"
  using main_server_stops [OF demo_start_empty demo_malloc demo_signal demo_joins] .

end
