(* ===== verification/Server_Concurrent.thy ===== *)
theory Server_Concurrent
  imports Server_Heap
begin

text \<open>
  The properties of the server with any number of connection threads in any interleaving, and a run
  on which they are instantiated: a client sends a line, and writing to the device fails.
\<close>

section \<open>An instance\<close>

lemma store_self: "thr S i = Some (p, t) \<Longrightarrow> load S t = t \<Longrightarrow> store S i (p, t) = S"
proof -
  assume t: "thr S i = Some (p, t)" "load S t = t"
  have "world t = sh_world S" "mem t = sh_mem S" "global_mutex t = sh_mutex S" "global_fd t = sh_fd S"
    using arg_cong [OF t(2), of world] arg_cong [OF t(2), of mem] arg_cong [OF t(2), of global_mutex]
      arg_cong [OF t(2), of global_fd]
    by (simp_all add: load_def)
  then show ?thesis using t(1) by (cases S) (simp add: store_def fun_upd_idem)
qed

text \<open>A thread that runs alone makes a run of the server.\<close>

lemma solo_server_run:
  assumes "solo o1 x y"
  shows "o1 = os i \<Longrightarrow> thr S i = Some x \<Longrightarrow> load S (snd x) = snd x \<Longrightarrow>
    server_run os env (\<lambda>l. True) S0 S \<Longrightarrow> server_run os env (\<lambda>l. True) S0 (store S i y)"
  using assms
proof (induction arbitrary: S rule: solo.induct)
  case (refl x)
  then show ?case using store_self [of S i "fst x" "snd x"] by simp
next
  case (step p t y z)
  obtain q u where y: "y = (q, u)" by fastforce
  have "server_run os env (\<lambda>l. True) S0 (store S i y)"
    using step.prems step.hyps(1) by (auto intro!: server_run.more [OF step.prems(4)] server_step.run)
  moreover have "load (store S i y) (snd y) = snd y" "thr (store S i y) i = Some y"
    by (simp_all add: y load_def)
  moreover have "store (store S i y) i z = store S i z" by (simp add: store_def Let_def)
  ultimately show ?case using step.IH [of "store S i y"] step.prems(1) by simp
qed

definition failing_os :: "bytes list os" where
  "failing_os = chunk_os\<lparr>os_write := \<lambda>w f bs. (w, -1)\<rparr>"

lemma failing_os_ok: "alloc_ok failing_os \<and> recv_ok failing_os \<and> read_ok failing_os"
  using chunk_alloc [of failing_os] chunk_recv_ok
  by (simp add: failing_os_def recv_ok_def read_ok_def) (simp add: chunk_os_def)

definition idle_server :: "bytes list server" where
  "idle_server = \<lparr>sh_world = [''hi'' @ [nl]], sh_mem = Map.empty, sh_mutex = False, sh_fd = 0, thr = Map.empty\<rparr>"

definition serving :: "bytes list server" where
  "serving = idle_server\<lparr>thr := [0 \<mapsto> (At_start, fresh_thread idle_server td_example)]\<rparr>"

lemma serving_reached: "server_run (\<lambda>i. failing_os) (=) (\<lambda>l. True) idle_server serving"
  unfolding serving_def
  using server_run.more [OF server_run.nothing server_step.spawn, of idle_server 0 "\<lambda>l. True"
      "\<lambda>i. failing_os" "(=)" td_example]
  by (simp add: idle_server_def)

lemma thread_reaches_lock:
  "\<exists>t. solo failing_os (At_start, fresh_thread idle_server td_example) (At_lock, t) \<and>
     ready t (''hi'' @ [nl]) \<and> \<not> global_mutex t"
proof -
  let ?t = "(fresh_thread idle_server td_example)\<lparr>mem := [0 \<mapsto> replicate 128 NUL], recvBuffer := Some (0, 0),
    bufferSize := 128, bufferIndex := 0\<rparr>"
  have "start_message failing_os (fresh_thread idle_server td_example) = Inr (Continue ?t)"
    by (simp add: start_message_def failing_os_def chunk_os_def chunk_calloc_def ref_fresh_def
        fresh_thread_def idle_server_def kBufferStartLength_def upt_rec)
  then have s: "solo failing_os (At_start, fresh_thread idle_server td_example) (At_recv, ?t)"
    using solo_one [of failing_os At_start "fresh_thread idle_server td_example"] by simp
  obtain t where t: "recv_loop failing_os ?t = Some (Inr (Continue t))" "ready t (''hi'' @ [nl])"
    "same_globals ?t t"
    using recv_loop_delivers [of "''hi'' @ [nl]" "''hi''" ?t 0 "[]" 5 failing_os "[''hi'' @ [nl]]" "[]"]
    by (auto simp: fresh_thread_def idle_server_def td_example_def holds_buffers_def failing_os_def
        chunk_os_def NUL_def)
  have "solo failing_os (At_recv, ?t) (At_lock, t)"
    using recv_loop_arrives [OF t(1)] by (simp add: arrives_def)
  with s have "solo failing_os (At_start, fresh_thread idle_server td_example) (At_lock, t)" by (rule solo_trans)
  moreover have "\<not> global_mutex t" using t(3) by (simp add: same_globals_def fresh_thread_def idle_server_def)
  ultimately show ?thesis using t(2) by blast
qed

text \<open>The thread is in its critical section, with the line to write.\<close>

lemma serving_critical:
  "\<exists>S t. server_reachable (\<lambda>i. failing_os) (=) S \<and> thr S 0 = Some (In_command, t) \<and>
     string_at (sh_mem S) (recvBuffer t) = Inr (''hi'' @ [nl]) \<and> thr S 1 = None"
proof -
  obtain t where t: "solo failing_os (At_start, fresh_thread idle_server td_example) (At_lock, t)"
    "ready t (''hi'' @ [nl])" "\<not> global_mutex t"
    using thread_reaches_lock by blast
  let ?t = "t\<lparr>global_mutex := True, global_fd := 3\<rparr>"
  have "thread_step failing_os At_lock t = Some (In_command, ?t)"
    using t(3) by (simp add: failing_os_def chunk_os_def)
  then have "solo failing_os (At_start, fresh_thread idle_server td_example) (In_command, ?t)"
    using solo_trans [OF t(1) solo_one] by blast
  from solo_server_run [OF this, of "\<lambda>i. failing_os" 0 serving "(=)" idle_server] serving_reached
  have "server_run (\<lambda>i. failing_os) (=) (\<lambda>l. True) idle_server (store serving 0 (In_command, ?t))"
    by (simp add: serving_def load_def fresh_thread_def)
  moreover have "idle idle_server" by (simp add: idle_def idle_server_def)
  moreover have "string_at (mem t) (recvBuffer t) = Inr (''hi'' @ [nl])" using ready_string [OF t(2)] by blast
  ultimately show ?thesis
    unfolding server_reachable_def by (intro exI [of _ "store serving 0 (In_command, ?t)"] exI [of _ ?t])
      (auto simp: serving_def)
qed

section \<open>Properties\<close>

text \<open>
  C8: Mutual exclusion. With any number of connection threads, in any interleaving and whatever the
  system calls return, at most one thread is between taking and releasing the process-wide mutex,
  and the mutex is held while one is.
\<close>

theorem threads_mutual_exclusion:
  assumes "server_reachable os env S" and "in_critical S i" and "in_critical S j"
  shows "i = j \<and> sh_mutex S"
  using reachable_mutex_inv [OF assms(1)] assms(2,3) by (auto simp: mutex_inv_def)

theorem threads_mutual_exclusion_witness:
  "\<exists>S. server_reachable (\<lambda>i. failing_os) (=) S \<and> in_critical S 0 \<and> sh_mutex S"
proof -
  obtain S where S: "server_reachable (\<lambda>i. failing_os) (=) S" "in_critical S 0"
    using serving_critical by (auto simp: in_critical_def)
  with threads_mutual_exclusion [OF S S(2)] show ?thesis by blast
qed

text \<open>
  C12: Isolation. While a thread is in its critical section, whatever the other threads, new threads and
  the environment do, they leave the mutex, the device descriptor and the thread's own
  variables alone, and so every part of the world that is not changed by the allocator, by
  \<open>recv\<close> or by the environment: the device cannot change between a client's write and its reply.
\<close>

theorem critical_section_isolated:
  assumes "server_reachable os env S" and "in_critical S i"
    and "server_run os env (\<lambda>l. l \<noteq> Some i) S S'"
    and "\<And>j. silent (os j) part" and "\<And>w w'. env w w' \<Longrightarrow> part w' = part w"
  shows "part (sh_world S') = part (sh_world S) \<and> sh_fd S' = sh_fd S \<and> sh_mutex S' \<and> thr S' i = thr S i"
  using isolated_run [OF assms(3) reachable_mutex_inv [OF assms(1)] assms(2,4,5)] by blast

theorem critical_section_isolated_witness:
  "\<exists>S (S' :: bytes list server) td. server_reachable (\<lambda>i. failing_os) (=) S \<and> in_critical S 0 \<and> thr S' 1 = Some (At_start, td) \<and>
     sh_fd S' = sh_fd S \<and> sh_mutex S' \<and> thr S' 0 = thr S 0"
proof -
  obtain S t where S: "server_reachable (\<lambda>i. failing_os) (=) S" "in_critical S 0"
    "thr S 0 = Some (In_command, t)" "thr S 1 = None"
    using serving_critical by (auto simp: in_critical_def)
  let ?S = "\<lambda>S. S\<lparr>thr := (thr S)(1 \<mapsto> (At_start, fresh_thread S td_example))\<rparr>"
  have r: "server_run (\<lambda>i. failing_os) (=) (\<lambda>l. l \<noteq> Some 0) S (?S S)"
    using S(4) by (intro server_run.more [OF server_run.nothing, of _ _ None] server_step.spawn) simp_all
  from critical_section_isolated [OF S(1,2) r, of "\<lambda>w. ()"] S
  have "sh_fd (?S S) = sh_fd S \<and> sh_mutex (?S S) \<and> thr (?S S) 0 = thr S 0" by (simp add: silent_def)
  moreover have "thr (?S S) 1 = Some (At_start, fresh_thread S td_example)" by simp
  ultimately show ?thesis using S(1,2) by blast
qed

text \<open>
  C22: A lost mutex. A thread whose write to the device fails returns without releasing the process-wide
  mutex, and from then on, in every interleaving, the mutex stays held, no thread ever gets
  into its critical section, and a thread that waits for the mutex cannot make a step: no client is
  answered any more.
\<close>

theorem lost_mutex_blocks_forever:
  assumes "server_reachable os env S"
    and "\<And>j. alloc_ok (os j) \<and> recv_ok (os j) \<and> read_ok (os j)"
    and "thr S i = Some (In_command, t)" and "string_at (sh_mem S) (recvBuffer t) = Inr str"
    and "take (length kIOCtrlStr) str \<noteq> kIOCtrlStr"
    and "snd (os_write (os i) (sh_world S) (sh_fd S) str) = -1"
  shows "\<exists>t'. thread_step (os i) In_command (load S t) = Some (Gone, t') \<and>
    (\<forall>S'. server_run os env (\<lambda>l. True) (store S i (Gone, t')) S' \<longrightarrow>
       sh_mutex S' \<and> (\<forall>j. \<not> in_critical S' j) \<and>
       (\<forall>j u. thr S' j = Some (At_lock, u) \<longrightarrow> thread_step (os j) At_lock (load S' u) = None))"
proof -
  let ?t = "(load S t)\<lparr>world := fst (os_write (os i) (sh_world S) (sh_fd S) str)\<rparr>"
  note mi = reachable_mutex_inv [OF assms(1)]
  have "thread_ok In_command (load S t)"
    using reachable_heap_inv [OF assms(1,2)] assms(3) unfolding heap_inv_def by blast
  then obtain str' where "ready (load S t) str'" by auto
  then have "holds_at ?t 0" using ready_holds [of "load S t"] by (simp add: holds_at_def)
  then obtain t' where t': "return_complete ?t = Inr (Returned t')" "global_mutex t' = global_mutex ?t"
    by (cases rule: return_complete_at) auto
  have "in_critical S i" using assms(3) by (simp add: in_critical_def)
  then have m: "sh_mutex S" using mi by (auto simp: mutex_inv_def)
  have step: "thread_step (os i) In_command (load S t) = Some (Gone, t')"
    using assms(4-6) t'(1) by (cases "os_write (os i) (sh_world S) (sh_fd S) str") (simp add: command_block_def write_command_def)
  have lost: "mutex_lost (store S i (Gone, t'))"
    using leaving_loses [of S i In_command t os Gone t', OF mi assms(3) _ step] t'(2) m by simp
  have "sh_mutex S' \<and> (\<forall>j. \<not> in_critical S' j)"
    if "server_run os env (\<lambda>l. True) (store S i (Gone, t')) S'" for S'
    using mutex_lost_run [OF that lost] by (simp add: mutex_lost_def)
  with step show ?thesis by auto
qed

theorem lost_mutex_blocks_forever_witness:
  "\<exists>S t t'. server_reachable (\<lambda>i. failing_os) (=) S \<and> thr S 0 = Some (In_command, t) \<and>
     thread_step failing_os In_command (load S t) = Some (Gone, t') \<and> sh_mutex (store S 0 (Gone, t'))"
proof -
  obtain S t where S: "server_reachable (\<lambda>i. failing_os) (=) S" "thr S 0 = Some (In_command, t)"
    "string_at (sh_mem S) (recvBuffer t) = Inr (''hi'' @ [nl])"
    using serving_critical by blast
  have "take (length kIOCtrlStr) (''hi'' @ [nl]) \<noteq> kIOCtrlStr" by (simp add: kIOCtrlStr_def)
  from lost_mutex_blocks_forever [OF S(1) failing_os_ok S(2,3) this] S(1,2) show ?thesis
    by (auto simp: failing_os_def intro!: exI [of _ S] intro: server_run.nothing)
qed



text \<open>
  The blocks are the code. A thread that runs alone, block by block, returns in exactly the state
  in which the function \<open>process\<close> returns, and faults exactly when the function does.
\<close>

lemma process_is_its_blocks:
  "(process os (sh_world S) (sh_mem S) (sh_mutex S) (sh_fd S) td False = Some (Inr t') \<longleftrightarrow>
      solo os (At_start, fresh_thread S td) (Gone, t')) \<and>
   (process os (sh_world S) (sh_mem S) (sh_mutex S) (sh_fd S) td False = Some (Inl e) \<longleftrightarrow>
      (\<exists>t''. solo os (At_start, fresh_thread S td) (Faulted e, t'')))"
proof -
  have p: "process os (sh_world S) (sh_mem S) (sh_mutex S) (sh_fd S) td False =
      process_loop os (fresh_thread S td)"
    by (simp add: process_def fresh_thread_def)
  have b: "process_loop os (fresh_thread S td) = rest os q u"
    if "solo os (At_start, fresh_thread S td) (q, u)" for q u
    using rest_solo [OF that] by simp
  show ?thesis unfolding p
  proof (intro conjI iffI)
    assume "process_loop os (fresh_thread S td) = Some (Inr t')"
    from process_loop_arrives [OF this] show "solo os (At_start, fresh_thread S td) (Gone, t')" by simp
  next
    assume "process_loop os (fresh_thread S td) = Some (Inl e)"
    from process_loop_arrives [OF this] show "\<exists>t''. solo os (At_start, fresh_thread S td) (Faulted e, t'')" by simp
  qed (auto dest: b)
qed

text \<open>
  C17: Well-typed threads. In every interleaving the variables of a thread have the types its program
  point needs: at the head of the receive loop and before \<open>recv\<close> a buffer of \<open>bufferSize\<close> bytes that ends with
  NUL and has room for one more byte behind \<open>bufferIndex\<close>; before the mutex and before the command a
  string with a newline; in the echo loop a send buffer of \<open>bytesProcessed\<close> bytes. And such a
  thread is not stuck: it has a next step unless it is over or waits for the mutex. (A thread that waits
  inside \<open>recv\<close> is one whose step from there has not been made yet.)
\<close>

theorem threads_well_typed:
  assumes "server_reachable os env S"
    and "\<And>j. alloc_ok (os j) \<and> recv_ok (os j) \<and> read_ok (os j)" and "thr S i = Some (p, t)"
  shows "(case p of
      At_recv \<Rightarrow> \<exists>a blk. recvBuffer t = Some (a, 0) \<and> sh_mem S a = Some blk \<and> int (length blk) = bufferSize t \<and>
        0 \<le> bufferIndex t \<and> bufferIndex t + 2 \<le> bufferSize t \<and> last blk = NUL
    | In_recv \<Rightarrow> \<exists>a blk. recvBuffer t = Some (a, 0) \<and> sh_mem S a = Some blk \<and> int (length blk) = bufferSize t \<and>
        0 \<le> bufferIndex t \<and> bufferIndex t + 2 \<le> bufferSize t \<and> last blk = NUL
    | At_lock \<Rightarrow> \<exists>str. string_at (sh_mem S) (recvBuffer t) = Inr str \<and> nl \<in> set str
    | In_command \<Rightarrow> \<exists>str. string_at (sh_mem S) (recvBuffer t) = Inr str \<and> nl \<in> set str
    | In_echo n \<Rightarrow> \<exists>b blk. sendBuffer t = Some b \<and> sh_mem S b = Some blk \<and> length blk = to_size_t n
    | Faulted e \<Rightarrow> e \<in> {Undefined, NullDeref, BadFree}
    | _ \<Rightarrow> True) \<and>
    (thread_step (os i) p (load S t) = None \<longleftrightarrow>
       p = Gone \<or> (\<exists>e. p = Faulted e) \<or> p = At_lock \<and> sh_mutex S)"
proof -
  have ok: "thread_ok p (load S t)" "\<forall>e. p = Faulted e \<longrightarrow> known_fault e"
    using reachable_heap_inv [OF assms(1,2)] assms(3) unfolding heap_inv_def by blast+
  have size: "bufferSize (load S t) = bufferSize t" "bufferIndex (load S t) = bufferIndex t"
    by (simp_all add: load_def)
  show ?thesis
  proof
    show "thread_step (os i) p (load S t) = None \<longleftrightarrow>
        p = Gone \<or> (\<exists>e. p = Faulted e) \<or> p = At_lock \<and> sh_mutex S"
      by (cases p) (auto split: prod.splits)
  next
    show "case p of
        At_recv \<Rightarrow> \<exists>a blk. recvBuffer t = Some (a, 0) \<and> sh_mem S a = Some blk \<and> int (length blk) = bufferSize t \<and>
          0 \<le> bufferIndex t \<and> bufferIndex t + 2 \<le> bufferSize t \<and> last blk = NUL
      | In_recv \<Rightarrow> \<exists>a blk. recvBuffer t = Some (a, 0) \<and> sh_mem S a = Some blk \<and> int (length blk) = bufferSize t \<and>
          0 \<le> bufferIndex t \<and> bufferIndex t + 2 \<le> bufferSize t \<and> last blk = NUL
      | At_lock \<Rightarrow> \<exists>str. string_at (sh_mem S) (recvBuffer t) = Inr str \<and> nl \<in> set str
      | In_command \<Rightarrow> \<exists>str. string_at (sh_mem S) (recvBuffer t) = Inr str \<and> nl \<in> set str
      | In_echo n \<Rightarrow> \<exists>b blk. sendBuffer t = Some b \<and> sh_mem S b = Some blk \<and> length blk = to_size_t n
      | Faulted e \<Rightarrow> e \<in> {Undefined, NullDeref, BadFree}
      | _ \<Rightarrow> True"
      using ok ready_string [of "load S t"] size
      by (cases p) (fastforce simp: recv_inv_def holds_buffers_def)+
  qed
qed

theorem threads_well_typed_witness:
  "\<exists>S t str. server_reachable (\<lambda>i. failing_os) (=) S \<and> thr S 0 = Some (In_command, t) \<and>
     string_at (sh_mem S) (recvBuffer t) = Inr str \<and> nl \<in> set str \<and>
     thread_step failing_os In_command (load S t) \<noteq> None"
proof -
  obtain S t where S: "server_reachable (\<lambda>i. failing_os) (=) S" "thr S 0 = Some (In_command, t)"
    using serving_critical by blast
  from threads_well_typed [OF S(1) failing_os_ok S(2)] S show ?thesis by (auto simp del: thread_step.simps)
qed

end
