(* ===== verification/Server_Whole_Safety.thy ===== *)
theory Server_Whole_Safety
  imports Server_Whole Server_Main_Props Server_Concurrent "HOL-Library.Product_Lexorder"
begin

text \<open>
  The invariant of the whole server: the main thread's list, nodes and blocks (\<open>main_inv\<close>), the
  buffers and the mutex of the connection threads (\<open>heap_inv\<close>, \<open>mutex_inv\<close>), the links between a
  thread and its node in both directions, and where the main thread is in its passes. Every step of
  either side keeps it; a run shows the shutdown of a connection.
\<close>

section \<open>The invariant\<close>

text \<open>
  Every thread that has not returned belongs to a connection in the list.
\<close>

definition linked :: "'w whole \<Rightarrow> conn list \<Rightarrow> bool" where
  "linked S cs \<longleftrightarrow> (\<forall>i p t. thr (cst S) i = Some (p, t) \<longrightarrow> p \<noteq> Gone \<longrightarrow>
     (\<exists>c\<in>set cs. td_of S i = Some (c_td c) \<and> thread_at S (c_th c) = Some i))"

text \<open>
  Every connection whose thread could be created has a thread, and only a thread that has returned is
  marked complete.
\<close>

definition manned :: "'w whole \<Rightarrow> 'w main_state \<Rightarrow> conn list \<Rightarrow> bool" where
  "manned S s cs \<longleftrightarrow> (\<forall>c\<in>set cs. c_made c \<longrightarrow> (\<exists>i p t. thread_at S (c_th c) = Some i \<and> td_of S i = Some (c_td c) \<and>
     thr (cst S) i = Some (p, t) \<and> (map_option complete (tdatas s (c_td c)) = Some True \<longrightarrow> p = Gone)))"

text \<open>
  The main thread is at a node of the list; the threads behind it have been asked to exit, at the
  joins all of them; at the end with status 0 the list is empty.
\<close>

fun at_node :: "'w main_os \<Rightarrow> 'w main_state \<Rightarrow> main_pc \<Rightarrow> conn list \<Rightarrow> bool" where
  "at_node mos s Accepting cs = True"
| "at_node mos s (Reaping v) cs = (\<exists>us vs. cs = us @ vs \<and> v = first (map c_node vs))"
| "at_node mos s (Asking v) cs =
     (\<exists>us vs. cs = us @ vs \<and> v = first (map c_node vs) \<and> (\<forall>c\<in>set us. asked s c))"
| "at_node mos s (Joining v) cs = (v = first (map c_node cs) \<and> (\<forall>c\<in>set cs. asked s c))"
| "at_node mos s (Ended n) cs = (n = 1 \<or> n = 0 \<and> cs = [])"
| "at_node mos s (Failed e) cs = out_of_resources mos e"

definition whole_inv :: "'w main_os \<Rightarrow> 'w whole \<Rightarrow> conn list \<Rightarrow> bool" where
  "whole_inv mos S cs \<longleftrightarrow> main_inv (mst S) cs \<and> made mos cs \<and> linked S cs \<and> manned S (mst S) cs \<and>
     at_node mos (mst S) (mpc S) cs \<and> finite (dom (thr (cst S))) \<and> heap_inv (cst S) \<and> mutex_inv (cst S)"

definition calls_ok :: "(nat \<Rightarrow> 'w os) \<Rightarrow> bool" where
  "calls_ok os \<longleftrightarrow> (\<forall>i. alloc_ok (os i) \<and> recv_ok (os i) \<and> read_ok (os i))"

lemma main_inv_world [simp]: "main_inv (s\<lparr>m_world := w\<rparr>) cs = main_inv s cs"
  by (simp add: main_inv_def conn_ok_def)

lemma main_inv_cleanup [simp]: "main_inv (cleanup os s) cs = main_inv s cs"
  by (simp add: cleanup_def Let_def)

lemma main_inv_load [simp]: "main_inv (main_load S) cs = main_inv (mst S) cs"
  by (simp add: main_load_def)

lemma main_inv_first: "main_inv s cs \<Longrightarrow> SLIST_FIRST (conns s) 0 = first (map c_node cs)"
  by (rule slist_first) (simp add: main_inv_def)

lemma main_inv_next:
  "main_inv s (us @ c # vs) \<Longrightarrow> SLIST_NEXT (conns s) (Some (c_node c)) = Inr (first (map c_node vs))"
  using slist_next [of "conns s" 0 "map c_node us" "c_node c" "map c_node vs"] by (simp add: main_inv_def)

text \<open>The connection threads see steps of the main thread as their surroundings.\<close>

lemma world_inv:
  fixes C :: "'w server" and os :: "nat \<Rightarrow> 'w os"
  assumes "heap_inv C" "mutex_inv C" "calls_ok os"
  shows "heap_inv (C\<lparr>sh_world := w\<rparr>)" and "mutex_inv (C\<lparr>sh_world := w\<rparr>)"
proof -
  have step: "server_step os (\<lambda>w w'. True) None C (C\<lparr>sh_world := w\<rparr>)" by (rule server_step.outside) simp
  show "heap_inv (C\<lparr>sh_world := w\<rparr>)"
    using heap_inv_step [OF step assms(1)] assms(3) unfolding calls_ok_def by blast
  show "mutex_inv (C\<lparr>sh_world := w\<rparr>)" by (rule mutex_inv_step [OF step assms(2)])
qed

lemma spawn_inv:
  fixes C :: "'w server" and os :: "nat \<Rightarrow> 'w os"
  assumes "heap_inv C" "mutex_inv C" "calls_ok os" "thr C i = None"
  shows "heap_inv (C\<lparr>thr := (thr C)(i \<mapsto> (At_start, fresh_thread C td))\<rparr>)"
    and "mutex_inv (C\<lparr>thr := (thr C)(i \<mapsto> (At_start, fresh_thread C td))\<rparr>)"
proof -
  note step = server_step.spawn [OF assms(4), of os "\<lambda>w w'. True" td]
  show "heap_inv (C\<lparr>thr := (thr C)(i \<mapsto> (At_start, fresh_thread C td))\<rparr>)"
    using heap_inv_step [OF step assms(1)] assms(3) unfolding calls_ok_def by blast
  show "mutex_inv (C\<lparr>thr := (thr C)(i \<mapsto> (At_start, fresh_thread C td))\<rparr>)" by (rule mutex_inv_step [OF step assms(2)])
qed

text \<open>A block on looked-up thread data is a step of the server of connection threads.\<close>

lemma block_inv:
  fixes C :: "'w server" and os :: "nat \<Rightarrow> 'w os"
  assumes inv: "heap_inv C" "mutex_inv C" and os: "calls_ok os" and t: "thr C i = Some (p, t)"
    and step: "thread_step ((os i)\<lparr>poll_exit := e\<rparr>) p ((load C t)\<lparr>threadData := td, exit_mutex := b\<rparr>) = Some x"
  shows "heap_inv (store C i x)" and "mutex_inv (store C i x)"
proof -
  let ?t = "t\<lparr>threadData := td, exit_mutex := b\<rparr>"
  let ?C = "C\<lparr>thr := (thr C)(i \<mapsto> (p, ?t))\<rparr>" and ?os = "os(i := (os i)\<lparr>poll_exit := e\<rparr>)"
  have ld: "load ?C u = load C u" for u by (simp add: load_def)
  have ok: "thread_ok p (load C ?t)"
  proof (rule thread_ok_cong)
    show "thread_ok p (load C t)" using inv(1) t unfolding heap_inv_def by blast
  qed (simp_all add: load_def)
  have own: "owned p ?t = owned p t" by (cases p) (simp_all add: bufs_def)
  have C: "heap_inv ?C" "mutex_inv ?C"
    using inv t ok own unfolding heap_inv_def mutex_inv_def in_critical_def ld by (simp_all split: if_splits) metis
  have "load C ?t = (load C t)\<lparr>threadData := td, exit_mutex := b\<rparr>" by (simp add: load_def)
  with step have "server_step ?os (\<lambda>w w'. True) (Some i) ?C (store ?C i x)"
    by (intro server_step.run [of _ _ p ?t]) (simp_all add: ld)
  moreover have "store ?C i x = store C i x" by (simp add: store_def Let_def)
  ultimately have step': "server_step ?os (\<lambda>w w'. True) (Some i) ?C (store C i x)" by simp
  have "alloc_ok (?os j) \<and> recv_ok (?os j) \<and> read_ok (?os j)" for j
    using os by (auto simp: calls_ok_def alloc_ok_def recv_ok_def read_ok_def)
  then show "heap_inv (store C i x)" using heap_inv_step [OF step' C(1)] by blast
  show "mutex_inv (store C i x)" by (rule mutex_inv_step [OF step' C(2)])
qed

text \<open>The parts of the state on which the link between threads and connections depends.\<close>

lemma linked_fields [simp]:
  "linked (S\<lparr>mpc := pc\<rparr>) cs = linked S cs" "linked (main_store S pc s) cs = linked S cs"
  "linked (S\<lparr>mst := s\<rparr>) cs = linked S cs"
  "manned (S\<lparr>mpc := pc\<rparr>) s' cs = manned S s' cs" "manned (main_store S pc s) s' cs = manned S s' cs"
  by (simp_all add: linked_def manned_def main_store_def)

lemma manned_cong:
  assumes "manned S s cs'" "set cs \<subseteq> set cs'"
    "\<And>c. c \<in> set cs \<Longrightarrow> map_option complete (tdatas s' (c_td c)) = map_option complete (tdatas s (c_td c))"
  shows "manned S s' cs"
  using assms unfolding manned_def by (metis (no_types, lifting) subsetD)

lemma asked_cong: "tdatas s' (c_td c) = tdatas s (c_td c) \<Longrightarrow> asked s' c = asked s c"
  by (simp add: asked_def)

text \<open>Only the thread data of the main thread's state matter for where it is.\<close>

lemma at_node_cong:
  assumes "at_node mos s pc cs" "\<And>c. c \<in> set cs \<Longrightarrow> asked s c \<Longrightarrow> asked s' c"
  shows "at_node mos s' pc cs"
proof (cases pc)
  case (Asking v)
  then obtain us vs where "cs = us @ vs" "v = first (map c_node vs)" "\<forall>c\<in>set us. asked s c"
    using assms(1) by auto
  then show ?thesis unfolding Asking at_node.simps using assms(2)
    by (intro exI [of _ us] exI [of _ vs]) simp
qed (use assms in auto)

lemma at_node_load [simp]:
  "at_node mos (main_load S) pc cs = at_node mos (mst S) pc cs" "manned S' (main_load S) cs = manned S' (mst S) cs"
  "at_node mos (cleanup os s) pc cs = at_node mos s pc cs" "manned S' (cleanup os s) cs = manned S' s cs"
  "at_node mos (s\<lparr>m_world := w\<rparr>) pc cs = at_node mos s pc cs" "manned S' (s\<lparr>m_world := w\<rparr>) cs = manned S' s cs"
  by (cases pc; simp add: main_load_def cleanup_def asked_def manned_def Let_def)+

lemma store_inv:
  fixes S :: "'w whole" and os :: "nat \<Rightarrow> 'w os"
  assumes "whole_inv mos S cs" "calls_ok os" "main_inv s cs'" "made mos cs'" "linked S cs'" "manned S s cs'"
    and "at_node mos s pc cs'"
  shows "whole_inv mos (main_store S pc s) cs'"
proof -
  have "heap_inv (cst S)" "mutex_inv (cst S)" using assms(1) by (simp_all add: whole_inv_def)
  then show ?thesis
    using world_inv [of "cst S" os "m_world s"] assms by (simp add: whole_inv_def) (simp add: main_store_def)
qed

lemma move_inv: "whole_inv mos S cs \<Longrightarrow> at_node mos (mst S) pc cs \<Longrightarrow> whole_inv mos (S\<lparr>mpc := pc\<rparr>) cs"
  by (simp add: whole_inv_def)

text \<open>
  Removing a connection: it has no thread, or its thread has returned and all others stay linked.
\<close>

lemma remove_step:
  assumes inv: "whole_inv mos S (us @ c # vs)"
    and run: "remove_node (main_calls mos S) (c_node c) (main_load S) = Some r"
  shows "r = Inl Undefined \<and> \<not> create_succeeds mos \<or>
    (\<exists>s'. r = Inr s' \<and> main_inv s' (us @ vs) \<and> linked S (us @ vs) \<and> manned S s' (us @ vs) \<and>
      (\<forall>d\<in>set (us @ vs). tdatas s' (c_td d) = tdatas (mst S) (c_td d)))"
proof (cases "c_made c")
  case False
  then have "\<not> create_succeeds mos" using inv by (simp add: whole_inv_def)
  moreover have "main_inv (main_load S) (us @ c # vs)" using inv by (simp add: whole_inv_def)
  then have "conn_ok (main_load S) c" by (simp add: main_inv_def)
  ultimately show ?thesis using run False by (auto simp: conn_ok_def remove_node_def)
next
  case made: True
  let ?calls = "main_calls mos S" and ?s = "main_load S"
  have mi: "main_inv ?s (us @ c # vs)" and ln: "linked S (us @ c # vs)"
    using inv by (simp_all add: whole_inv_def)
  have "conn_ok ?s c" using mi by (simp add: main_inv_def)
  then obtain node where n: "nodes ?s (c_node c) = Some node" "node_thread node = Some (c_th c)"
    "threads ?s (c_th c) = Some True" using made by (auto simp: conn_ok_def)
  have "mo_join ?calls (m_world ?s) (c_th c) \<noteq> None"
    using run n by (intro notI) (auto simp: remove_node_def)
  then obtain i where i: "thread_at S (c_th c) = Some i" "returned S i"
    by (auto simp: main_calls_def split: option.splits if_splits)
  have "linked S (us @ vs)" unfolding linked_def
  proof (intro allI impI)
    fix j p t
    assume j: "thr (cst S) j = Some (p, t)" "p \<noteq> Gone"
    then obtain d where d: "d \<in> set (us @ c # vs)" "td_of S j = Some (c_td d)" "thread_at S (c_th d) = Some j"
      using ln unfolding linked_def by blast
    have "d \<noteq> c" using d(3) i j by (auto simp: returned_def split: pc.splits)
    with d show "\<exists>d\<in>set (us @ vs). td_of S j = Some (c_td d) \<and> thread_at S (c_th d) = Some j" by auto
  qed
  moreover obtain s' where s': "r = Inr s'" "main_inv s' (us @ vs)"
    "\<forall>d\<in>set (us @ vs). tdatas s' (c_td d) = tdatas (mst S) (c_td d)"
    using remove_node_ok [OF mi, of ?calls] run made by (auto simp: main_load_def unjoined_def)
  moreover have "manned S s' (us @ vs)"
  proof (rule manned_cong)
    show "manned S (mst S) (us @ c # vs)" using inv by (simp add: whole_inv_def)
    show "map_option complete (tdatas s' (c_td d)) = map_option complete (tdatas (mst S) (c_td d))"
      if "d \<in> set (us @ vs)" for d using s'(3) that by simp
  qed auto
  ultimately show ?thesis by blast
qed

lemma removing_inv:
  fixes S :: "'w whole" and os :: "nat \<Rightarrow> 'w os"
  assumes inv: "whole_inv mos S (us @ c # vs)" and os: "calls_ok os"
    and run: "main_result S go (remove_node (main_calls mos S) (c_node c) (main_load S)) = Some S'"
    and go: "\<And>s. (\<And>d. d \<in> set (us @ vs) \<Longrightarrow> asked s d = asked (mst S) d) \<Longrightarrow> at_node mos s (go s) (us @ vs)"
  shows "whole_inv mos S' (us @ c # vs) \<and> mpc S' = Failed Undefined \<or>
    whole_inv mos S' (us @ vs) \<and> (\<exists>s. mpc S' = go s)"
proof -
  obtain r where r: "remove_node (main_calls mos S) (c_node c) (main_load S) = Some r"
    using run by (cases "remove_node (main_calls mos S) (c_node c) (main_load S)") (auto simp: main_result_def)
  consider (undefined) "r = Inl Undefined" "\<not> create_succeeds mos"
    | (removed) s' where "r = Inr s'" "main_inv s' (us @ vs)" "linked S (us @ vs)"
      "manned S s' (us @ vs)" "\<forall>d\<in>set (us @ vs). tdatas s' (c_td d) = tdatas (mst S) (c_td d)"
    using remove_step [OF inv r] by blast
  then show ?thesis
  proof cases
    case undefined
    then show ?thesis using run r move_inv [OF inv, of "Failed Undefined"]
      by (auto simp: main_result_def out_of_resources_def)
  next
    case s': removed
  then have "S' = main_store S (go s') s'" using run r by (simp add: main_result_def)
  moreover have "at_node mos s' (go s') (us @ vs)" using s'(5) by (intro go asked_cong) blast
  moreover have "made mos (us @ vs)" using inv by (simp add: whole_inv_def)
  ultimately show ?thesis using store_inv [OF inv os s'(2) _ s'(3,4)] by (auto simp: main_store_def)
  qed
qed

text \<open>
  What the main thread has before it once it is to stop: the rest of its pass over the list, and the
  passes that follow.
\<close>

definition remaining :: "ptr \<Rightarrow> conn list \<Rightarrow> nat" where
  "remaining v cs = length (dropWhile (\<lambda>c. Some (c_node c) \<noteq> v) cs)"

fun main_left :: "main_pc \<Rightarrow> conn list \<Rightarrow> nat \<times> nat" where
  "main_left (Reaping v) cs = (4, remaining v cs)"
| "main_left Accepting cs = (3, 0)"
| "main_left (Asking v) cs = (2, remaining v cs)"
| "main_left (Joining v) cs = (1, length cs)"
| "main_left (Ended n) cs = (0, 0)"
| "main_left (Failed e) cs = (0, 0)"

lemma remaining_mid:
  assumes "main_inv s (us @ vs)"
  shows "remaining (first (map c_node vs)) (us @ vs) = length vs"
proof (cases vs)
  case Nil
  have "dropWhile (\<lambda>c. Some (c_node c) \<noteq> None) us = []" by (simp add: dropWhile_eq_Nil_conv)
  then show ?thesis using Nil by (simp add: remaining_def)
next
  case (Cons c ws)
  have "\<forall>d\<in>set us. c_node d \<noteq> c_node c" using main_inv_nodes [OF assms] Cons by (auto simp: image_iff)
  then have "dropWhile (\<lambda>d. Some (c_node d) \<noteq> Some (c_node c)) (us @ vs) = vs"
    using Cons by (subst dropWhile_append2) auto
  then show ?thesis using Cons by (simp add: remaining_def)
qed

lemma remaining_next: "main_inv s (us @ c # vs) \<Longrightarrow> remaining (first (map c_node vs)) (us @ c # vs) = length vs"
  using remaining_mid [of s "us @ [c]" vs] by simp

section \<open>The main thread keeps it\<close>

text \<open>A new connection: its thread is linked to the node at the head of the list.\<close>

lemma started_inv:
  fixes S :: "'w whole" and os :: "nat \<Rightarrow> 'w os"
  assumes inv: "whole_inv mos S cs" and os: "calls_ok os" and i: "thr (cst S) i = None"
    and d: "main_inv s (d # cs)" "made mos [d]"
    and td: "tdatas s = (tdatas (mst S))(c_td d \<mapsto> \<lparr>mutexExit = m, cfd = c, complete = False, exit = False\<rparr>)"
  defines "S1 \<equiv> main_store S (Reaping (SLIST_FIRST (conns s) 0)) s"
  shows "whole_inv mos (start_thread i (c_td d) s S1) (d # cs)"
proof (cases "c_made d")
  case False
  have unmade: "start_thread i (c_td d) s S1 = S1"
    using main_inv_first [OF d(1)] d(1) False by (auto simp: main_inv_def conn_ok_def start_thread_def Let_def)
  have "manned S s cs"
  proof (rule manned_cong)
    show "manned S (mst S) cs" using inv by (simp add: whole_inv_def)
    show "map_option complete (tdatas s (c_td e)) = map_option complete (tdatas (mst S) (c_td e))"
      if "e \<in> set cs" for e using that d(1) td by (auto simp: main_inv_def image_iff)
  qed simp
  then have "manned S s (d # cs)" using False by (simp add: manned_def)
  moreover have "linked S (d # cs)" using inv by (auto simp: whole_inv_def linked_def)
  moreover have "made mos (d # cs)" using inv d(2) by (simp add: whole_inv_def)
  moreover have "at_node mos s (Reaping (SLIST_FIRST (conns s) 0)) (d # cs)"
    using main_inv_first [OF d(1)] by (auto intro: exI [of _ "[]"])
  ultimately have "whole_inv mos S1 (d # cs)" unfolding S1_def by (intro store_inv [OF inv os d(1)])
  then show ?thesis using unmade by simp
next
  case made: True
  let ?S = "start_thread i (c_td d) s S1"
  have "conn_ok s d" using d(1) by (simp add: main_inv_def)
  then have handle: "threads s (c_th d) = Some True" using made by (auto simp: conn_ok_def)
  have th: "the (node_thread (the (nodes s (the (SLIST_FIRST (conns s) 0))))) = c_th d"
    using main_inv_first [OF d(1)] d(1) by (auto simp: main_inv_def conn_ok_def)
  have thr: "thr (cst S1) = thr (cst S)" by (simp add: S1_def main_store_def)
  have world: "heap_inv (cst S1)" "mutex_inv (cst S1)"
    using world_inv [of "cst S" os] inv os by (simp_all add: whole_inv_def S1_def main_store_def)
  have "linked ?S (d # cs)" unfolding linked_def
  proof (intro allI impI)
    fix j p u
    assume j: "thr (cst ?S) j = Some (p, u)" "p \<noteq> Gone"
    show "\<exists>e\<in>set (d # cs). td_of ?S j = Some (c_td e) \<and> thread_at ?S (c_th e) = Some j"
    proof (cases "j = i")
      case True
      then show ?thesis using th handle by (simp add: start_thread_def Let_def)
    next
      case False
      then have "thr (cst S) j = Some (p, u)" using j(1) thr th handle by (simp add: start_thread_def Let_def)
      then obtain e where e: "e \<in> set cs" "td_of S j = Some (c_td e)" "thread_at S (c_th e) = Some j"
        using inv j(2) unfolding whole_inv_def linked_def by blast
      then have "c_th e \<noteq> c_th d" using d(1) unfolding main_inv_def by (metis distinct.simps(2) imageI list.set_map list.simps(9))
      then show ?thesis using e False th handle
        by (intro bexI [of _ e]) (simp_all add: start_thread_def Let_def S1_def main_store_def)
    qed
  qed
  moreover have "manned ?S s (d # cs)" unfolding manned_def
  proof (intro ballI impI)
    fix e
    assume e: "e \<in> set (d # cs)" "c_made e"
    show "\<exists>j p t. thread_at ?S (c_th e) = Some j \<and> td_of ?S j = Some (c_td e) \<and> thr (cst ?S) j = Some (p, t) \<and>
        (map_option complete (tdatas s (c_td e)) = Some True \<longrightarrow> p = Gone)"
    proof (cases "e = d")
      case True
      then show ?thesis using th td handle by (simp add: start_thread_def Let_def)
    next
      case False
      then have ne: "e \<in> set cs" "c_th e \<noteq> c_th d" "c_td e \<noteq> c_td d"
        using d(1) e(1) unfolding main_inv_def by (auto simp: image_iff)
      then obtain j p t where j: "thread_at S (c_th e) = Some j" "td_of S j = Some (c_td e)"
        "thr (cst S) j = Some (p, t)" "map_option complete (tdatas (mst S) (c_td e)) = Some True \<longrightarrow> p = Gone"
        using inv e(2) unfolding whole_inv_def manned_def by blast
      then have "j \<noteq> i" using i by auto
      then show ?thesis using j ne th thr td handle
        by (intro exI [of _ j] exI [of _ p] exI [of _ t]) (simp add: start_thread_def Let_def S1_def main_store_def)
    qed
  qed
  moreover have "finite (dom (thr (cst ?S)))"
    using inv thr th handle by (simp add: whole_inv_def start_thread_def Let_def)
  moreover have "\<exists>us vs. d # cs = us @ vs \<and> SLIST_FIRST (conns s) 0 = first (map c_node vs)"
    using main_inv_first [OF d(1)] by (intro exI [of _ "[]"] exI [of _ "d # cs"]) simp
  moreover have "made mos (d # cs)" using inv d(2) by (simp add: whole_inv_def)
  ultimately show ?thesis
    using d th handle spawn_inv [OF world os, of i "the (tdatas s (c_td d))", unfolded thr, OF i]
    by (simp add: whole_inv_def) (simp add: start_thread_def Let_def S1_def main_store_def)
qed

text \<open>Allocating the blocks of a connection fails only when the allocator does.\<close>

lemma new_connection_cases:
  assumes "main_inv s cs" "malloc_ok os"
  obtains (failed) e where "rbind (new_threadData os c s) (\<lambda>(t, s2). rbind (new_node os t ca s2) (\<lambda>s3. Inr (t, s3))) = Inl e"
      "out_of_resources os e"
  | (made) d s' where "rbind (new_threadData os c s) (\<lambda>(t, s2). rbind (new_node os t ca s2) (\<lambda>s3. Inr (t, s3))) =
      Inr (c_td d, s')" "main_inv s' (d # cs)" "made os [d]"
      "tdatas s' = (tdatas s)(c_td d \<mapsto> \<lparr>mutexExit = Some (c_mx d), cfd = c, complete = False, exit = False\<rparr>)"
proof (cases "new_threadData os c s")
  case (Inl e)
  then show thesis using failed new_threadData_fails [OF Inl finite_used [OF assms(1)]]
    by (simp add: out_of_resources_def)
next
  case (Inr ts)
  then obtain t s2 where t: "new_threadData os c s = Inr (t, s2)" by (cases ts) simp
  show thesis
  proof (cases "new_node os t ca s2")
    case (Inl e)
    have "finite (used s2)" using used_new_threadData [OF t] finite_used [OF assms(1)] by simp
    then show thesis using failed t Inl new_node_fails [OF Inl] by (simp add: out_of_resources_def)
  next
    case (Inr s3)
    then show thesis using made t new_connection_ok [OF assms t Inr] by auto
  qed
qed

lemma accept_inv:
  fixes S :: "'w whole" and os :: "nat \<Rightarrow> 'w os"
  assumes inv: "whole_inv mos S cs" and os: "calls_ok os" and m: "malloc_ok mos"
    and i: "thr (cst S) i = None"
  shows "\<exists>cs'. whole_inv mos (whole_accept mos i S) cs'"
proof -
  let ?s = "main_load S"
  obtain w a where a: "mo_accept mos (m_world ?s) (sfd ?s) = (w, a)" by fastforce
  let ?s1 = "?s\<lparr>m_world := w\<rparr>"
  have ln: "linked S cs" and mn: "manned S ?s1 cs" and md: "made mos cs" and mi: "main_inv ?s cs" "main_inv ?s1 cs"
    using inv by (simp_all add: whole_inv_def)
  have stop: "whole_inv mos (main_exit S (exit_failure (main_calls mos S) ?s1)) cs"
    unfolding main_exit_def exit_failure_def main_end.case by (rule store_inv [OF inv os _ md ln]) (use mi(2) mn in simp_all)
  show ?thesis
  proof (cases "graceful mos (m_world ?s)")
    case True
    have "whole_inv mos (S\<lparr>mpc := Asking (SLIST_FIRST (conns ?s) 0)\<rparr>) cs"
      using main_inv_first [OF mi(1)] by (intro move_inv [OF inv]) (auto intro: exI [of _ "[]"])
    then show ?thesis using True by (auto simp: whole_accept_def Let_def)
  next
    case False
    note accept = whole_accept_def [of mos i S, unfolded Let_def a prod.case if_not_P [OF False]]
    show ?thesis
    proof (cases a)
      case Would_block
      then show ?thesis using store_inv [OF inv os mi(2) md ln mn, of Accepting] accept by auto
    next
      case Accept_error
      then show ?thesis using stop accept by auto
    next
      case (Accepted c ca)
      show ?thesis
      proof (cases "mo_ntop mos w ca")
        case True
        show ?thesis using mi(2) m
        proof (cases rule: new_connection_cases [where c = c and ca = ca])
          case (failed e)
          then show ?thesis using accept Accepted True move_inv [OF inv, of "Failed e"] by auto
        next
          case (made d s')
          then have "tdatas s' = (tdatas (mst S))
              (c_td d \<mapsto> \<lparr>mutexExit = Some (c_mx d), cfd = c, complete = False, exit = False\<rparr>)"
            by (simp add: main_load_def)
          from started_inv [OF inv os i made(2,3) this] show ?thesis using accept Accepted True made(1) by auto
        qed
      qed (use stop accept Accepted in auto)
    qed
  qed
qed

text \<open>Asking a thread to exit sets its flag under the mutex, which nobody holds between two steps.\<close>

lemma asking_inv:
  fixes S :: "'w whole" and os :: "nat \<Rightarrow> 'w os"
  assumes inv: "whole_inv mos S (us @ c # vs)" and os: "calls_ok os"
    and behind: "\<forall>d\<in>set us. asked (mst S) d"
    and go: "go = (\<lambda>s'. case SLIST_NEXT (conns s') (Some (c_node c)) of Inl e \<Rightarrow> Failed e | Inr v \<Rightarrow> Asking v)"
    and run: "main_result S go (request_exit (c_node c) (main_load S)) = Some S'"
  shows "whole_inv mos S' (us @ c # vs) \<and> mpc S' = Asking (first (map c_node vs))"
proof -
  have mi: "main_inv (main_load S) (us @ c # vs)" and md: "made mos (us @ c # vs)" and ln: "linked S (us @ c # vs)"
    using inv by (simp_all add: whole_inv_def)
  from request_exit_ok [OF mi] obtain s' where
    s': "request_exit (c_node c) (main_load S) = Some (Inr s')" "main_inv s' (us @ c # vs)" "asked s' c"
      "\<forall>d. asked (main_load S) d \<longrightarrow> asked s' d"
      "\<forall>d. map_option complete (tdatas s' d) = map_option complete (tdatas (main_load S) d)" by blast
  have mn: "manned S s' (us @ c # vs)"
  proof (rule manned_cong)
    show "manned S (main_load S) (us @ c # vs)" using inv by (simp add: whole_inv_def)
    show "map_option complete (tdatas s' (c_td d)) = map_option complete (tdatas (main_load S) (c_td d))" for d
      using s'(5) by blast
  qed simp
  have next_node: "go s' = Asking (first (map c_node vs))" using main_inv_next [OF s'(2)] by (simp add: go)
  moreover have "\<exists>us' vs'. us @ c # vs = us' @ vs' \<and> first (map c_node vs) = first (map c_node vs') \<and>
      (\<forall>d\<in>set us'. asked s' d)"
    by (rule exI [of _ "us @ [c]"], rule exI [of _ vs]) (use s'(3,4) behind in \<open>auto simp: main_load_def asked_def\<close>)
  ultimately show ?thesis using store_inv [OF inv os s'(2) md ln mn, of "go s'"] run s'(1)
    by (auto simp: main_result_def) (simp add: main_store_def)
qed

text \<open>A node of the pass over the list is removed when its thread has set the flag, and kept otherwise.\<close>

lemma reaping_inv:
  fixes S :: "'w whole" and os :: "nat \<Rightarrow> 'w os"
  assumes inv: "whole_inv mos S (us @ c # vs)" and os: "calls_ok os"
    and run: "main_result S (\<lambda>s. Reaping (first (map c_node vs)))
      (reap_node (main_calls mos S) flag (c_node c) (main_load S)) = Some S'"
  shows "\<exists>cs'. whole_inv mos S' cs' \<and> main_left (mpc S') cs' \<le> (4, length vs)"
proof -
  let ?go = "\<lambda>s :: 'w main_state. Reaping (first (map c_node vs))"
  have mi: "main_inv (main_load S) (us @ c # vs)" and md: "made mos (us @ c # vs)" and ln: "linked S (us @ c # vs)"
    using inv by (simp_all add: whole_inv_def)
  have "conn_ok (main_load S) c" using mi by (simp add: main_inv_def)
  then have body: "reap_node (main_calls mos S) flag (c_node c) (main_load S) =
      (if flag (c_td c) then remove_node (main_calls mos S) (c_node c) (main_load S)
       else Some (Inr (main_load S)))"
    by (auto simp: conn_ok_def reap_node_def)
  show ?thesis
  proof (cases "flag (c_td c)")
    case True
    have "at_node mos s (?go s) (us @ vs)" for s by auto
    then consider "whole_inv mos S' (us @ c # vs)" "mpc S' = Failed Undefined"
      | "whole_inv mos S' (us @ vs)" "mpc S' = ?go (mst S)"
      using removing_inv [OF inv os, of ?go S'] run body True by auto
    then show ?thesis
    proof cases
      case 1
      then show ?thesis by (intro exI [of _ "us @ c # vs"]) simp
    next
      case 2
      then have "main_inv (mst S') (us @ vs)" by (simp add: whole_inv_def)
      from remaining_mid [OF this] 2 show ?thesis by (intro exI [of _ "us @ vs"]) simp
    qed
  next
    case False
    then have S': "S' = main_store S (Reaping (first (map c_node vs))) (main_load S)"
      using run body by (simp add: main_result_def)
    have "at_node mos (main_load S) (Reaping (first (map c_node vs))) (us @ c # vs)" unfolding at_node.simps
      by (rule exI [of _ "us @ [c]"], rule exI [of _ vs]) simp
    moreover have "manned S (main_load S) (us @ c # vs)" using inv by (simp add: whole_inv_def)
    ultimately have "whole_inv mos S' (us @ c # vs)" using store_inv [OF inv os mi md ln] S' by blast
    moreover have "main_left (mpc S') (us @ c # vs) \<le> (4, length vs)"
      using remaining_next [OF mi] S' by (simp add: main_store_def)
    ultimately show ?thesis by blast
  qed
qed

text \<open>
  A step of the main thread keeps the invariant and brings it nearer to its end, except for a new
  connection before the signal.
\<close>

lemma main_step_inv:
  fixes S :: "'w whole" and os :: "nat \<Rightarrow> 'w os"
  assumes inv: "whole_inv mos S cs" and os: "calls_ok os" and m: "malloc_ok mos"
    and i: "thr (cst S) i = None" and step: "main_step mos i S = Some S'"
  shows "\<exists>cs'. whole_inv mos S' cs' \<and>
    (main_left (mpc S') cs' < main_left (mpc S) cs \<or> mpc S = Accepting \<and> \<not> graceful mos (sh_world (cst S)))"
proof -
  have mi: "main_inv (main_load S) cs" "main_inv (mst S) cs" and at: "at_node mos (mst S) (mpc S) cs"
    using inv by (simp_all add: whole_inv_def)
  have node: "\<exists>c ws. vs = c # ws \<and> a = c_node c" if "Some a = first (map c_node vs)" for a vs
    using that by (cases vs) auto
  show ?thesis
  proof (cases "mpc S")
    case Accepting
    then show ?thesis using accept_inv [OF inv os m i] step
      by (cases "graceful mos (sh_world (cst S))") (auto simp: main_step_def whole_accept_def main_load_def Let_def)
  next
    case (Reaping v)
    show ?thesis
    proof (cases v)
      case None
      then show ?thesis using Reaping step move_inv [OF inv, of Accepting] by (auto simp: main_step_def)
    next
      case (Some a)
      obtain us vs where "cs = us @ vs" "Some a = first (map c_node vs)" using at Reaping Some by auto
      with node [of a vs] obtain c ws where c: "cs = us @ c # ws" "a = c_node c" by blast
      have "\<exists>cs'. whole_inv mos S' cs' \<and> main_left (mpc S') cs' \<le> (4, length ws)"
        by (rule reaping_inv [OF inv [unfolded c(1)] os])
          (use step main_inv_next [OF mi(1) [unfolded c(1)]] Reaping Some c in \<open>simp add: main_step_def Let_def\<close>)
      moreover have "main_left (mpc S) cs = (4, Suc (length ws))"
        using remaining_mid [OF mi(2) [unfolded c(1)]] Reaping Some c by simp
      moreover have "(4 :: nat, length ws) < (4, Suc (length ws))" by simp
      ultimately show ?thesis by (metis order_le_less_trans)
    qed
  next
    case (Asking v)
    then obtain us vs where v: "cs = us @ vs" "v = first (map c_node vs)" "\<forall>c\<in>set us. asked (mst S) c"
      using at by auto
    show ?thesis
    proof (cases v)
      case None
      then have "vs = []" using v(2) by (cases vs) simp_all
      then have "whole_inv mos (S\<lparr>mpc := Joining (SLIST_FIRST (conns (main_load S)) 0)\<rparr>) cs"
        using main_inv_first [OF mi(1)] v by (intro move_inv [OF inv]) simp
      then show ?thesis using Asking None step by (auto simp: main_step_def Let_def)
    next
      case (Some a)
      with v(2) node [of a vs] obtain c ws where c: "vs = c # ws" "a = c_node c" by auto
      from asking_inv [OF inv [unfolded v(1) c(1)] os v(3) HOL.refl, of S'] step Asking Some c
      have "whole_inv mos S' (us @ c # ws)" "mpc S' = Asking (first (map c_node ws))"
        by (auto simp: main_step_def Let_def)
      moreover have "main_left (Asking (first (map c_node ws))) (us @ c # ws) = (2, length ws)"
        "main_left (mpc S) cs = (2, Suc (length ws))"
        using remaining_next [of "mst S" us c ws] remaining_mid [of "mst S" us "c # ws"] mi(2) Asking v c by simp_all
      ultimately show ?thesis by fastforce
    qed
  next
    case (Joining v)
    show ?thesis
    proof (cases v)
      case None
      then have "cs = []" using at Joining by (cases cs) simp_all
      have "whole_inv mos (main_store S (Ended 0) (cleanup (main_calls mos S) (main_load S))) cs"
        by (rule store_inv [OF inv os]) (use mi inv \<open>cs = []\<close> in \<open>simp_all add: whole_inv_def\<close>)
      then show ?thesis using Joining None step by (auto simp: main_step_def main_store_def Let_def)
    next
      case (Some a)
      obtain c ws where c: "cs = [] @ c # ws" "a = c_node c" using at Joining Some node [of a cs] by auto
      have "main_result S (\<lambda>s. Joining (first (map c_node ws)))
          (remove_node (main_calls mos S) (c_node c) (main_load S)) = Some S'"
        using step main_inv_next [OF mi(1) [unfolded c(1)]] Joining Some c by (simp add: main_step_def Let_def)
      from removing_inv [OF inv [unfolded c(1)] os this] at Joining c(1)
      consider "whole_inv mos S' (c # ws)" "mpc S' = Failed Undefined"
        | "whole_inv mos S' ws" "mpc S' = Joining (first (map c_node ws))" by auto
      then show ?thesis
      proof cases
        case 1
        then show ?thesis using Joining c(1) by (intro exI [of _ "c # ws"]) simp
      next
        case 2
        then show ?thesis using Joining c(1) by (intro exI [of _ ws]) simp
      qed
    qed
  qed (use step in \<open>simp_all add: main_step_def\<close>)
qed

section \<open>The connection threads keep it\<close>

text \<open>A block is made on the thread data of the thread's connection; it keeps the mutex free.\<close>

lemma conn_step_block:
  fixes S :: "'w whole" and os :: "nat \<Rightarrow> 'w os"
  assumes inv: "whole_inv mos S cs" and step: "conn_step os i S = Some S'"
  obtains c td p t p' t' where "c \<in> set cs" "td_of S i = Some (c_td c)" "thread_at S (c_th c) = Some i"
    and "tdatas (mst S) (c_td c) = Some td" "thr (cst S) i = Some (p, t)" "\<not> over p"
    and "thread_step ((os i)\<lparr>poll_exit := \<lambda>w. exit td\<rparr>) p ((load (cst S) t)\<lparr>threadData := td, exit_mutex := False\<rparr>)
      = Some (p', t')"
    and "client ((load (cst S) t)\<lparr>threadData := td, exit_mutex := False\<rparr>) t'"
    and "complete (threadData t') = complete td \<or> p' = Gone"
    and "S' = S\<lparr>cst := store (cst S) i (p', t'),
      mst := (mst S)\<lparr>tdatas := (tdatas (mst S))(c_td c \<mapsto> threadData t')\<rparr>\<rparr>"
proof -
  obtain p t where t: "thr (cst S) i = Some (p, t)" "\<not> over p"
    using step by (auto simp: conn_step_def split: option.splits if_splits)
  then have "p \<noteq> Gone" by auto
  then obtain c where c: "c \<in> set cs" "td_of S i = Some (c_td c)" "thread_at S (c_th c) = Some i"
    using inv t(1) unfolding whole_inv_def linked_def by blast
  have "conn_ok (mst S) c" using inv c(1) by (simp add: whole_inv_def main_inv_def)
  then obtain td where td: "tdatas (mst S) (c_td c) = Some td" "mutexExit td = Some (c_mx c)"
    "mutexes (mst S) (c_mx c) = Some False" by (auto simp: conn_ok_def)
  let ?t = "(load (cst S) t)\<lparr>threadData := td, exit_mutex := False\<rparr>"
  from step t c(2) td obtain p' t' where
    run: "thread_step ((os i)\<lparr>poll_exit := \<lambda>w. exit td\<rparr>) p ?t = Some (p', t')"
    and S': "S' = S\<lparr>cst := store (cst S) i (p', t'),
      mst := (mst S)\<lparr>tdatas := (tdatas (mst S))(c_td c \<mapsto> threadData t'),
                     mutexes := (mutexes (mst S))(c_mx c \<mapsto> exit_mutex t')\<rparr>\<rparr>"
    by (auto simp: conn_step_def conn_block_def split: option.splits)
  from thread_step_client [OF run] have cl: "client ?t t'" "complete (threadData t') = complete td \<or> p' = Gone"
    by (auto simp: working_def)
  then have "(mutexes (mst S))(c_mx c \<mapsto> exit_mutex t') = mutexes (mst S)"
    using td(3) by (simp add: fun_upd_idem client_def)
  then have "S' = S\<lparr>cst := store (cst S) i (p', t'),
      mst := (mst S)\<lparr>tdatas := (tdatas (mst S))(c_td c \<mapsto> threadData t')\<rparr>\<rparr>"
    using S' by simp
  from that [OF c td(1) t run cl this] show thesis .
qed

lemma conn_step_inv:
  fixes S :: "'w whole" and os :: "nat \<Rightarrow> 'w os"
  assumes inv: "whole_inv mos S cs" and os: "calls_ok os" and step: "conn_step os i S = Some S'"
  shows "whole_inv mos S' cs"
  using inv step
proof (cases rule: conn_step_block)
  case (1 c td p t p' t')
  let ?s = "(mst S)\<lparr>tdatas := (tdatas (mst S))(c_td c \<mapsto> threadData t')\<rparr>"
  have cl: "mutexExit (threadData t') = mutexExit td" "cfd (threadData t') = cfd td"
    "exit (threadData t') = exit td"
    using 1(8) by (simp_all add: client_def)
  have inv': "main_inv (mst S) cs" "heap_inv (cst S)" "mutex_inv (cst S)" "finite (dom (thr (cst S)))"
    using inv by (simp_all add: whole_inv_def)
  have "main_inv ?s cs" by (rule main_inv_td [OF inv'(1) 1(4) cl(1,2)])
  moreover have "linked S' cs" unfolding linked_def
  proof (intro allI impI)
    fix j q u
    assume "thr (cst S') j = Some (q, u)" "q \<noteq> Gone"
    then show "\<exists>d\<in>set cs. td_of S' j = Some (c_td d) \<and> thread_at S' (c_th d) = Some j"
      using inv 1 unfolding whole_inv_def linked_def by (cases "j = i") auto
  qed
  moreover have "manned S' ?s cs" unfolding manned_def
  proof (intro ballI impI)
    fix d
    assume d: "d \<in> set cs" "c_made d"
    then obtain j q u where j: "thread_at S (c_th d) = Some j" "td_of S j = Some (c_td d)"
      "thr (cst S) j = Some (q, u)" "map_option complete (tdatas (mst S) (c_td d)) = Some True \<longrightarrow> q = Gone"
      using inv unfolding whole_inv_def manned_def by blast
    show "\<exists>j p t. thread_at S' (c_th d) = Some j \<and> td_of S' j = Some (c_td d) \<and> thr (cst S') j = Some (p, t) \<and>
        (map_option complete (tdatas ?s (c_td d)) = Some True \<longrightarrow> p = Gone)"
    proof (cases "j = i")
      case True
      then have "c_td d = c_td c" "q = p" using j 1(2,5) by simp_all
      moreover have "\<not> complete td" using j(4) 1(4,6) calculation by auto
      ultimately show ?thesis using j True 1(9,10) by auto
    next
      case False
      have "inj_on c_th (set cs)" "inj_on c_td (set cs)" using inv'(1) by (simp_all add: main_inv_def distinct_map)
      then have "c_td d \<noteq> c_td c" using False j(1) d(1) 1(1,3) by (auto simp: inj_on_eq_iff)
      then show ?thesis using j False 1(10) by auto
    qed
  qed
  moreover have "at_node mos ?s (mpc S) cs"
  proof (rule at_node_cong)
    show "at_node mos (mst S) (mpc S) cs" using inv by (simp add: whole_inv_def)
    show "asked ?s d" if "asked (mst S) d" for d
      using that 1(4) cl(3) by (auto simp: asked_def)
  qed
  ultimately show ?thesis using block_inv [OF inv'(2,3) os 1(5,7)] inv inv'(4) 1(10)
    by (simp add: whole_inv_def)
qed

lemma outside_inv:
  fixes S :: "'w whole" and os :: "nat \<Rightarrow> 'w os"
  assumes inv: "whole_inv mos S cs" and os: "calls_ok os"
  shows "whole_inv mos (S\<lparr>cst := (cst S)\<lparr>sh_world := w\<rparr>\<rparr>) cs"
proof -
  have "linked (S\<lparr>cst := (cst S)\<lparr>sh_world := w\<rparr>\<rparr>) cs = linked S cs"
    "manned (S\<lparr>cst := (cst S)\<lparr>sh_world := w\<rparr>\<rparr>) (mst S) cs = manned S (mst S) cs"
    by (simp_all add: linked_def manned_def)
  then show ?thesis using inv world_inv [of "cst S" os w] os by (simp add: whole_inv_def)
qed

section \<open>Reachable states\<close>

lemma start_inv:
  assumes "whole_start mos S"
  shows "whole_inv mos S []"
proof -
  obtain args s0 where s0: "no_blocks s0" "main_setup mos args s0 = Stopped (mst S)"
    using assms by (auto simp: whole_start_def)
  with main_setup_ok [OF s0(1), of mos args] have "main_inv (mst S) []" by auto
  moreover have "thr (cst S) = Map.empty" "mpc S = Accepting" "\<not> sh_mutex (cst S)"
    using assms by (auto simp: whole_start_def idle_def)
  ultimately show ?thesis
    by (simp add: whole_inv_def linked_def manned_def heap_inv_def mutex_inv_def in_critical_def)
qed

lemma whole_reachable_inv:
  fixes os :: "nat \<Rightarrow> 'w os"
  assumes "whole_reachable os mos env S" "calls_ok os" "malloc_ok mos"
  shows "\<exists>cs. whole_inv mos S cs"
  using assms(1)
proof (induction rule: whole_reachable.induct)
  case (start S)
  then show ?case using start_inv by blast
next
  case (step S a S')
  then obtain cs where inv: "whole_inv mos S cs" by blast
  from step.hyps(2) show ?case
  proof (cases rule: whole_step.cases)
    case (main i)
    then show ?thesis using main_step_inv [OF inv assms(2,3)] by blast
  next
    case (conn i)
    then show ?thesis using conn_step_inv [OF inv assms(2)] by blast
  next
    case (outside w)
    then show ?thesis using outside_inv [OF inv assms(2), of w] by blast
  qed
qed

section \<open>A run\<close>

text \<open>A client connects and sends nothing; then the signal comes.\<close>

definition whole_os :: "(nat \<times> int list) os" where
  "whole_os =
     \<lparr>os_calloc = chunk_calloc, os_realloc = chunk_realloc, os_recv = (\<lambda>w s n. (w, Some [])),
      os_send = (\<lambda>w s bs. (w, int (length bs))), os_open = (\<lambda>w. (w, 4)), os_close = (\<lambda>w f. w),
      os_write = (\<lambda>w f bs. (w, int (length bs))), os_read = (\<lambda>w f n. (w, Some [])),
      os_lseek = (\<lambda>w f n p. (w, 0)), os_ioctl = (\<lambda>w f a. (w, 0)), poll_exit = (\<lambda>w. False)\<rparr>"

lemma whole_os_ok: "calls_ok (\<lambda>i. whole_os)"
  using chunk_alloc [of whole_os] by (auto simp: calls_ok_def recv_ok_def read_ok_def whole_os_def)

definition whole_mos :: "(nat \<times> int list) main_os" where
  "whole_mos = demo_os\<lparr>graceful := (\<lambda>(n, fs). 1 \<le> n)\<rparr>"

lemma whole_mos_ok: "malloc_ok whole_mos" "malloc_succeeds whole_mos" "create_succeeds whole_mos"
  using demo_malloc demo_joins(2)
  by (simp_all add: whole_mos_def malloc_ok_def malloc_succeeds_def create_succeeds_def)

definition whole_first :: "(nat \<times> int list) whole" where
  "whole_first =
     \<lparr>mst = demo_start\<lparr>sfd := 3, conns := SLIST_INIT (conns demo_start) 0\<rparr>,
      cst = \<lparr>sh_world = (0, []), sh_mem = Map.empty, sh_mutex = False, sh_fd = -1, thr = Map.empty\<rparr>,
      mpc = Accepting, td_of = Map.empty, thread_at = Map.empty\<rparr>"

lemma whole_first_start: "whole_start whole_mos whole_first"
proof -
  have "main_setup whole_mos [] demo_start = Stopped (mst whole_first)"
    by (simp add: main_setup_def whole_first_def whole_mos_def demo_os_def demo_start_def Let_def)
  then show ?thesis using demo_start_empty
    by (auto simp: whole_start_def idle_def) (auto simp: whole_first_def demo_start_def)
qed

text \<open>A schedule: steps of the main thread, and of thread 0.\<close>

fun plays :: "bool list \<Rightarrow> (nat \<times> int list) whole \<Rightarrow> (nat \<times> int list) whole option" where
  "plays [] S = Some S"
| "plays (b # bs) S =
     (case (if b then (if thr (cst S) 0 = None then main_step whole_mos 0 S
                       else if thr (cst S) 1 = None then main_step whole_mos 1 S else None)
            else if ended (mpc S) then None else conn_step (\<lambda>i. whole_os) 0 S) of
        None \<Rightarrow> None
      | Some S' \<Rightarrow> plays bs S')"

lemma plays_reachable:
  "plays bs S = Some S' \<Longrightarrow> whole_reachable (\<lambda>i. whole_os) whole_mos (=) S \<Longrightarrow>
    whole_reachable (\<lambda>i. whole_os) whole_mos (=) S'"
proof (induction bs arbitrary: S)
  case (Cons b bs)
  then obtain S1 where S1: "plays bs S1 = Some S'"
    "(if b then (if thr (cst S) 0 = None then main_step whole_mos 0 S
                 else if thr (cst S) 1 = None then main_step whole_mos 1 S else None)
      else if ended (mpc S) then None else conn_step (\<lambda>i. whole_os) 0 S) = Some S1"
    by (auto split: option.splits)
  then have "\<exists>a. whole_step (\<lambda>i. whole_os) whole_mos (=) a S S1"
    by (auto split: if_splits intro: whole_step.main whole_step.conn)
  then show ?case using Cons.IH [OF S1(1)] Cons.prems(2) whole_reachable.step by blast
qed simp

lemmas main_run_defs = main_step_def whole_accept_def main_load_def main_store_def main_result_def main_calls_def
  whole_mos_def demo_os_def whole_first_def demo_start_def slist_defs new_threadData_def new_node_def
  used_def start_thread_def fresh_thread_def reap_node_def request_exit_def remove_node_def free_block_def
  cleanup_def returned_def deref_def SLIST_REMOVE_def

lemmas conn_run_defs = conn_step_def conn_block_def load_def store_def start_message_def whole_os_def
  chunk_calloc_def ref_fresh_def kBufferStartLength_def exit_check_def freeBuffers_def free_def

lemma first_free [simp]: "find (\<lambda>a. True) [0..<64] = Some (0::nat)"
  by (simp add: upt_rec)

text \<open>
  The thread is asked to exit before its first step; the main thread waits in \<open>pthread_join\<close> until it
  has returned, and releases its blocks only then.
\<close>

lemma whole_waits: "plays [True, True, True, True, True, True, True] whole_first = None"
  by (simp add: main_run_defs Let_def)

lemma whole_ends:
  "\<exists>S. plays [True, True, True, True, True, True, False, False, True, True] whole_first = Some S \<and>
     mpc S = Ended 0 \<and> thr (cst S) 0 \<noteq> None \<and> sh_world (cst S) = (1, [7, 3])"
  by (simp add: main_run_defs conn_run_defs Let_def)

section \<open>Properties\<close>



end
