(* ===== verification/Device_File.thy ===== *)
theory Device_File
  imports Server_Exchange Driver_Seek
begin

text \<open>
  The driver behind the server's file descriptors. The file layer of the kernel is not part of the
  repository; this theory instantiates the server's environment with the behaviour its
  documentation gives: a file descriptor has a position, system calls on it reach
  the driver through \<open>aesd_fops\<close>, error codes become -1, and at most \<open>MAX_RW_COUNT\<close> bytes are
  transferred at a time. The driver's refinement lemmas then discharge the interface
  \<open>echo_device\<close>, and the server's reply is a theorem about server and driver together.
\<close>

section \<open>The environment\<close>

record devworld =
  dw_state :: kstate
  dw_files :: "int \<rightharpoonup> file_t"
  dw_next :: int
  dw_input :: "bytes list"
  dw_sent :: "int \<Rightarrow> bytes"
  dw_exit :: bool

definition MAX_RW_COUNT :: nat where
  "MAX_RW_COUNT = 2147479552"

definition vfs_open :: "file_operations \<Rightarrow> devworld \<Rightarrow> devworld \<times> int" where
  "vfs_open fops w =
     (let (fl, rc) = fop_open fops \<lparr>i_cdev = Aesd_device\<rparr> \<lparr>f_pos = 0, private_data = Null_dev\<rparr>
      in (w\<lparr>dw_files := (dw_files w)(dw_next w \<mapsto> fl), dw_next := dw_next w + 1\<rparr>, dw_next w))"

definition vfs_close :: "file_operations \<Rightarrow> devworld \<Rightarrow> int \<Rightarrow> devworld" where
  "vfs_close fops w f = w\<lparr>dw_files := (dw_files w)(f := None)\<rparr>"

definition result_int :: "u64 result \<Rightarrow> int" where
  "result_int r = (case r of Inl e \<Rightarrow> -1 | Inr n \<Rightarrow> sint n)"

definition vfs_write ::
  "kernel \<Rightarrow> file_operations \<Rightarrow> devworld \<Rightarrow> int \<Rightarrow> bytes \<Rightarrow> devworld \<times> int" where
  "vfs_write K fops w f bs =
     (case dw_files w f of
        None \<Rightarrow> (w, -1)
      | Some fl \<Rightarrow>
          let (s, fp, r) = fop_write fops K (dw_state w) (Some fl) (Some bs)
                             (of_nat (min (length bs) MAX_RW_COUNT)) (Some (f_pos fl));
              pos = (case fp of None \<Rightarrow> f_pos fl | Some p \<Rightarrow> p)
          in (w\<lparr>dw_state := s, dw_files := (dw_files w)(f \<mapsto> fl\<lparr>f_pos := pos\<rparr>)\<rparr>, result_int r))"

definition vfs_read ::
  "kernel \<Rightarrow> file_operations \<Rightarrow> devworld \<Rightarrow> int \<Rightarrow> nat \<Rightarrow> devworld \<times> bytes option" where
  "vfs_read K fops w f n =
     (case dw_files w f of
        None \<Rightarrow> (w, None)
      | Some fl \<Rightarrow>
          let (s, fp, out, r) = fop_read fops K (dw_state w) (Some fl) (Some 0)
                                  (of_nat (min n MAX_RW_COUNT)) (Some (f_pos fl));
              pos = (case fp of None \<Rightarrow> f_pos fl | Some p \<Rightarrow> p)
          in (w\<lparr>dw_state := s, dw_files := (dw_files w)(f \<mapsto> fl\<lparr>f_pos := pos\<rparr>)\<rparr>,
              case r of Inl e \<Rightarrow> None | Inr k \<Rightarrow> Some (take (unat k) out)))"

text \<open>\<open>junk\<close> is the value the driver's uninitialised variable happens to have in this call.\<close>

definition vfs_lseek ::
  "kernel \<Rightarrow> u64 \<Rightarrow> file_operations \<Rightarrow> devworld \<Rightarrow> int \<Rightarrow> int \<Rightarrow> origin \<Rightarrow> devworld \<times> int" where
  "vfs_lseek K junk fops w f off org =
     (case dw_files w f of
        None \<Rightarrow> (w, -1)
      | Some fl \<Rightarrow>
          (case fop_llseek fops K junk (dw_state w) fl (word_of_int off) org of
             None \<Rightarrow> (w, -1)
           | Some (s, fl', r) \<Rightarrow>
               (w\<lparr>dw_state := s, dw_files := (dw_files w)(f \<mapsto> fl')\<rparr>, result_int r)))"

definition vfs_ioctl ::
  "kernel \<Rightarrow> file_operations \<Rightarrow> devworld \<Rightarrow> int \<Rightarrow> aesd_seekto \<Rightarrow> devworld \<times> int" where
  "vfs_ioctl K fops w f arg =
     (case dw_files w f of
        None \<Rightarrow> (w, -1)
      | Some fl \<Rightarrow>
          let (s, fl', r) =
                fop_unlocked_ioctl fops K (dw_state w) fl (AESDCHAR_IOCSEEKTO K) arg
          in (w\<lparr>dw_state := s, dw_files := (dw_files w)(f \<mapsto> fl')\<rparr>, result_int r))"

text \<open>
  \<open>junk w\<close> is the value that the driver's uninitialised \<open>totalLength\<close> has in a call in the world \<open>w\<close>, and
  \<open>net w c bs\<close> says whether \<open>send\<close> on the connection \<open>c\<close> fails there, and after how many bytes; both are
  arbitrary.
\<close>

definition driver_os ::
  "kernel \<Rightarrow> (devworld \<Rightarrow> u64) \<Rightarrow> (devworld \<Rightarrow> int \<Rightarrow> bytes \<Rightarrow> nat option) \<Rightarrow> devworld os" where
  "driver_os K junk net =
     \<lparr>os_calloc = chunk_calloc,
      os_realloc = chunk_realloc,
      os_recv = (\<lambda>w c n. case dw_input w of
                   [] \<Rightarrow> (w, Some [])
                 | bs # bss \<Rightarrow> (w\<lparr>dw_input := bss\<rparr>, Some (take n bs))),
      os_send = (\<lambda>w c bs. case net w c bs of
                   None \<Rightarrow> (w\<lparr>dw_sent := (dw_sent w)(c := dw_sent w c @ bs)\<rparr>, int (length bs))
                 | Some m \<Rightarrow> (w\<lparr>dw_sent := (dw_sent w)(c := dw_sent w c @ take m bs)\<rparr>, -1)),
      os_open = vfs_open aesd_fops,
      os_close = vfs_close aesd_fops,
      os_write = vfs_write K aesd_fops,
      os_read = vfs_read K aesd_fops,
      os_lseek = (\<lambda>w. vfs_lseek K (junk w) aesd_fops w),
      os_ioctl = vfs_ioctl K aesd_fops,
      poll_exit = dw_exit\<rparr>"

text \<open>
  The sizes that \<open>lseek\<close> reports usably, whatever the uninitialised variable holds: as an \<open>off_t\<close> not
  negative, and as an \<open>int\<close> neither 0 nor -1. Without the error (\<open>junk\<close> 0) these are all sizes below
  \<open>2 ^ 31\<close>.
\<close>

definition reports :: "(devworld \<Rightarrow> u64) \<Rightarrow> nat \<Rightarrow> bool" where
  "reports junk n \<longleftrightarrow> n < 2 ^ 63 \<and>
     (\<forall>w. let r = sint (junk w + of_nat n) in 0 \<le> r \<and> to_int r \<noteq> 0 \<and> to_int r \<noteq> -1)"

section \<open>What the files show\<close>

definition dw_good :: "devworld \<Rightarrow> bool" where
  "dw_good w \<longleftrightarrow>
     dev_inv (dw_state w) \<and> (\<forall>f fl. dw_files w f = Some fl \<longrightarrow> private_data fl = Aesd_device)"

definition dw_dev :: "devworld \<Rightarrow> dev_view" where
  "dw_dev w = view (dw_state w)"

definition dw_fpos :: "devworld \<Rightarrow> int \<Rightarrow> nat option" where
  "dw_fpos w f = map_option (\<lambda>fl. unat (f_pos fl)) (dw_files w f)"

text \<open>
  The conditions under which the driver's file is the device the server expects: the kernel keeps
  its contracts, no signal interrupts the driver, and copies into the server's buffers succeed.
\<close>

definition quiet :: "kernel \<Rightarrow> bool" where
  "quiet K \<longleftrightarrow> kernel_ok K \<and> \<not> interrupted K \<and> full_copies K"

lemma dw_goodD:
  "dw_good w \<Longrightarrow> mem_inv (dw_state w)" "dw_good w \<Longrightarrow> dev_inv (dw_state w)"
  "dw_good w \<Longrightarrow> dw_files w f = Some fl \<Longrightarrow> private_data fl = Aesd_device"
  by (auto simp: dw_good_def dev_inv_def)

lemma dw_fposE:
  assumes "dw_fpos w f = Some p"
  obtains fl where "dw_files w f = Some fl" "p = unat (f_pos fl)"
  using assms by (auto simp: dw_fpos_def)

lemmas dw_defs = driver_os_def dw_good_def dw_dev_def dw_fpos_def aesd_fops_def

lemma vfs_open_law:
  assumes "dw_good w" "vfs_open aesd_fops w = (w', f)"
  shows "dw_good w' \<and> dw_dev w' = dw_dev w \<and> dw_sent w' = dw_sent w \<and> dw_fpos w' f = Some 0"
  using assms by (auto simp: vfs_open_def dw_defs aesd_open_def Let_def split: if_splits)

lemma vfs_lseek_outcome:
  assumes K: "kernel_ok K" "\<not> interrupted K" and w: "dw_good w" "dw_files w f = Some fl"
  shows "vfs_lseek K junk aesd_fops w f off org =
    (case seek_target junk (dw_state w) fl (word_of_int off) org of
       None \<Rightarrow> (w, -1)
     | Some r \<Rightarrow> if sint r < 0 then (w, -1)
                 else (w\<lparr>dw_files := (dw_files w)(f \<mapsto> fl\<lparr>f_pos := r\<rparr>)\<rparr>, sint r))"
proof -
  have same: "w\<lparr>dw_files := (dw_files w)(f \<mapsto> fl)\<rparr> = w" using w(2) by (simp add: map_upd_triv)
  show ?thesis
    using aesd_llseek_outcome [OF K(1) dw_goodD(1) [OF w(1)] dw_goodD(3) [OF w], of junk "word_of_int off" org]
      K(2) w(2) same
    by (auto simp: vfs_lseek_def aesd_fops_def result_int_def split: option.splits)
qed

lemma vfs_lseek_frame:
  assumes K: "kernel_ok K" "\<not> interrupted K" and w: "dw_good w" "dw_fpos w f = Some p"
    and run: "vfs_lseek K junk aesd_fops w f off org = (w', r)"
  shows "dw_good w' \<and> dw_dev w' = dw_dev w \<and> dw_sent w' = dw_sent w \<and> dw_fpos w' f \<noteq> None"
proof -
  obtain fl where fl: "dw_files w f = Some fl" using w(2) by (rule dw_fposE)
  show ?thesis
    using vfs_lseek_outcome [OF K w(1) fl, of junk off org] run w fl
    by (auto simp: dw_good_def dw_dev_def dw_fpos_def split: option.splits if_splits)
qed

text \<open>Offsets and sizes that fit.\<close>

lemma unat_of_off: "0 \<le> off \<Longrightarrow> off < 2 ^ 63 \<Longrightarrow> unat (word_of_int off :: u64) = nat off"
  and sint_of_off: "0 \<le> off \<Longrightarrow> off < 2 ^ 63 \<Longrightarrow> sint (word_of_int off :: u64) = off"
proof -
  assume off: "0 \<le> off" "off < 2 ^ 63"
  then have "unat (of_nat (nat off) :: u64) = nat off" by (intro unat_u64_of_nat) simp
  moreover have "(of_nat (nat off) :: u64) = word_of_int off" using off(1) by simp
  ultimately show "unat (word_of_int off :: u64) = nat off" by metis
  with off sint_eq_unat [of "word_of_int off"] show "sint (word_of_int off :: u64) = off" by simp
qed

lemma to_int_small: "0 \<le> v \<Longrightarrow> v < 2 ^ 31 \<Longrightarrow> to_int v = v"
  by (simp add: to_int_def sint_uint uint_word_of_int signed_take_bit_int_eq_self)

lemma vfs_lseek_set:
  assumes "kernel_ok K" "\<not> interrupted K" "dw_good w" "dw_fpos w f = Some p" "0 \<le> off" "off < 2 ^ 63"
    and "vfs_lseek K junk aesd_fops w f off SEEK_SET = (w', r)"
  shows "dw_fpos w' f = Some (nat off)"
  using assms(4)
  by (rule dw_fposE)
    (use vfs_lseek_outcome [OF assms(1-3), of f _ junk off SEEK_SET] assms(5-7)
       unat_of_off [OF assms(5,6)] sint_of_off [OF assms(5,6)]
     in \<open>auto simp: seek_target_def dw_fpos_def\<close>)

lemma vfs_lseek_cur:
  assumes "kernel_ok K" "\<not> interrupted K" "dw_good w" "dw_fpos w f = Some p" "p < 2 ^ 63"
    and "vfs_lseek K junk aesd_fops w f 0 SEEK_CUR = (w', r)"
  shows "r = int p \<and> dw_fpos w' f = Some p"
  using assms(4)
  by (rule dw_fposE)
    (use vfs_lseek_outcome [OF assms(1-3), of f _ junk 0 SEEK_CUR] assms(5,6) sint_eq_unat
     in \<open>auto simp: seek_target_def dw_fpos_def\<close>)

lemma vfs_lseek_end:
  assumes "kernel_ok K" "\<not> interrupted K" "dw_good w" "dw_fpos w f = Some p"
    and c: "reports junk (length (concat (commands (dw_dev w))))"
    and run: "vfs_lseek K (junk w) aesd_fops w f 0 SEEK_END = (w', r)"
  shows "to_int r \<noteq> 0 \<and> to_int r \<noteq> -1"
proof -
  obtain fl where fl: "dw_files w f = Some fl" using assms(4) by (rule dw_fposE)
  let ?n = "length (concat (commands (dw_dev w)))"
  have "total_size (ring_of (dw_state w)) = of_nat ?n"
    unfolding dw_dev_def by (rule total_size_bytes [OF dw_goodD(1) [OF assms(3)]])
  then have "r = (if sint (junk w + of_nat ?n) < 0 then -1 else sint (junk w + of_nat ?n))"
    using vfs_lseek_outcome [OF assms(1-3) fl, of "junk w" 0 SEEK_END] run
    by (simp add: seek_target_def split: if_splits)
  moreover have "0 \<le> sint (junk w + of_nat ?n)" "to_int (sint (junk w + of_nat ?n)) \<noteq> 0"
    "to_int (sint (junk w + of_nat ?n)) \<noteq> -1"
    using c unfolding reports_def Let_def by blast+
  ultimately show ?thesis by simp
qed

lemma reports_zero: "0 < n \<Longrightarrow> n < 2 ^ 31 \<Longrightarrow> reports (\<lambda>w. 0) n"
  using sint_of_off [of "int n"] to_int_small [of "int n"] by (simp add: reports_def)

lemma vfs_ioctl_frame:
  assumes "kernel_ok K" "dw_good w" "dw_fpos w f = Some p" "vfs_ioctl K aesd_fops w f arg = (w', r)"
  shows "dw_good w' \<and> dw_dev w' = dw_dev w \<and> dw_sent w' = dw_sent w \<and> dw_fpos w' f \<noteq> None"
proof -
  obtain fl where fl: "dw_files w f = Some fl" using assms(3) by (rule dw_fposE)
  obtain s fl' res where run: "aesd_ioctl K (dw_state w) fl (AESDCHAR_IOCSEEKTO K) arg = (s, fl', res)"
    by (metis prod_cases3)
  have "s = dw_state w" by (rule ioctl_state [OF assms(1) dw_goodD(1) [OF assms(2)] run])
  moreover have "private_data fl' = private_data fl"
    using run by (auto simp: aesd_ioctl_def Let_def split: prod.splits if_splits sum.splits)
  ultimately show ?thesis
    using assms(2,4) fl run by (auto simp: vfs_ioctl_def dw_good_def dw_dev_def dw_fpos_def aesd_fops_def
        split: if_splits)
qed

lemma vfs_read_law:
  assumes K: "quiet K" and w: "dw_good w" "dw_fpos w f = Some p"
    and len: "length (concat (commands (dw_dev w))) < 2 ^ 63"
    and run: "vfs_read K aesd_fops w f n = (w', r)"
  shows "dw_good w' \<and> dw_dev w' = dw_dev w \<and> dw_sent w' = dw_sent w \<and>
    (\<exists>bs rest. r = Some bs \<and> length bs \<le> n \<and> dw_fpos w' f = Some (p + length bs) \<and>
       drop p (concat (commands (dw_dev w))) = bs @ rest \<and>
       (bs = [] \<longrightarrow> n = 0 \<or> length (concat (commands (dw_dev w))) \<le> p))"
proof -
  obtain fl where fl: "dw_files w f = Some fl" "p = unat (f_pos fl)" using w(2) by (rule dw_fposE)
  let ?c = "of_nat (min n MAX_RW_COUNT) :: u64" and ?cmds = "commands (dw_dev w)"
  have c: "unat ?c = min n MAX_RW_COUNT" by (rule unat_u64_of_nat) (simp add: MAX_RW_COUNT_def)
  obtain s fp bs res where
    rd: "aesd_read K (dw_state w) (Some fl) (Some 0) ?c (Some (f_pos fl)) = (s, fp, bs, res)"
    by (metis prod_cases4)
  from aesd_read_view [OF _ dw_goodD(1) [OF w(1)] dw_goodD(3) [OF w(1) fl(1)] _ rd] K obtain k where
    k: "s = dw_state w" "res = Inr k" "fp = Some (f_pos fl + k)"
      "bs = spec_read ?cmds p (min n MAX_RW_COUNT)" "unat k = length bs"
    by (auto simp: quiet_def dw_dev_def c fl(2))
  have r: "r = Some bs" and w': "w' = w\<lparr>dw_files := (dw_files w)(f \<mapsto> fl\<lparr>f_pos := f_pos fl + k\<rparr>)\<rparr>"
    using run rd fl(1) k by (auto simp: vfs_read_def aesd_fops_def)
  obtain rest where rest: "drop p (concat ?cmds) = bs @ rest"
    using spec_read_prefix [of p ?cmds] k(4) by metis
  have bound: "unat (f_pos fl) < 2 ^ LENGTH(64)" by (rule unsigned_less)
  have "p + length bs \<le> max p (length (concat ?cmds))"
    using arg_cong [OF rest, of length] by auto
  then have "unat (f_pos fl) + unat k < 2 ^ LENGTH(64)" using len k(5) fl(2) bound by auto
  then have "unat (f_pos fl + k) = p + length bs"
    using unat_add_small [of "f_pos fl" k] k(5) fl(2) by simp
  then have pos: "dw_fpos w' f = Some (p + length bs)" using w' by (simp add: dw_fpos_def)
  have at_end: "bs = [] \<longrightarrow> n = 0 \<or> length (concat ?cmds) \<le> p"
    using spec_read_nonempty [of p ?cmds "min n MAX_RW_COUNT"] k(4)
    by (cases "n = 0") (auto simp: MAX_RW_COUNT_def not_less [symmetric])
  have "length bs \<le> n" using spec_read_length [of ?cmds p "min n MAX_RW_COUNT"] k(4) by simp
  moreover have "dw_good w'" "dw_dev w' = dw_dev w" "dw_sent w' = dw_sent w"
    using w(1) w' fl(1) by (auto simp: dw_good_def dw_dev_def split: if_splits)
  ultimately show ?thesis using pos rest at_end r by blast
qed

lemma rw_count:
  assumes "bs \<noteq> []"
  shows "(of_nat (min (length bs) MAX_RW_COUNT) :: u64) \<noteq> 0"
    and "unat (of_nat (min (length bs) MAX_RW_COUNT) :: u64) < 2 ^ 63"
    and "unat (of_nat (min (length bs) MAX_RW_COUNT) :: u64) = min (length bs) MAX_RW_COUNT"
proof -
  show c: "unat (of_nat (min (length bs) MAX_RW_COUNT) :: u64) = min (length bs) MAX_RW_COUNT"
    by (rule unat_u64_of_nat) (simp add: MAX_RW_COUNT_def)
  then show "(of_nat (min (length bs) MAX_RW_COUNT) :: u64) \<noteq> 0"
    "unat (of_nat (min (length bs) MAX_RW_COUNT) :: u64) < 2 ^ 63"
    using assms by (auto simp: MAX_RW_COUNT_def unat_eq_0 [symmetric] simp del: unat_eq_0)
qed

lemma vfs_write_law:
  assumes K: "kernel_ok K" and w: "dw_good w" "dw_fpos w f = Some p"
    and run: "vfs_write K aesd_fops w f bs = (w', k)" "k \<noteq> -1" "bs \<noteq> []"
  shows "0 \<le> k \<and> k \<le> int (length bs) \<and> dw_good w' \<and> dw_sent w' = dw_sent w \<and>
    dw_fpos w' f \<noteq> None \<and> dw_dev w' = spec_write (dw_dev w) (take (nat k) bs)"
proof -
  obtain fl where fl: "dw_files w f = Some fl" using w(2) by (rule dw_fposE)
  let ?c = "of_nat (min (length bs) MAX_RW_COUNT) :: u64"
  have c: "unat ?c = min (length bs) MAX_RW_COUNT" and c0: "?c \<noteq> 0" "unat ?c < 2 ^ 63"
    by (rule rw_count [OF run(3)])+
  obtain s fp r where wr: "aesd_write K (dw_state w) (Some fl) (Some bs) ?c (Some (f_pos fl)) = (s, fp, r)"
    by (metis prod_cases3)
  note inv = dw_goodD(1,2) [OF w(1)]
  from K inv(1) dw_goodD(3) [OF w(1) fl] c0 wr show ?thesis
  proof (cases rule: aesd_write_outcome)
    case interrupted
    with run wr fl show ?thesis by (auto simp: vfs_write_def aesd_fops_def result_int_def)
  next
    case no_memory
    with run wr fl show ?thesis by (auto simp: vfs_write_def aesd_fops_def result_int_def)
  next
    case (accepted n a)
    have n: "unat n \<le> length bs" "unat n < 2 ^ 63"
      using accepted(4) c c0(2) by (auto simp: word_le_nat_alt)
    have k: "k = int (unat n)" "dw_state w' = s" "dw_sent w' = dw_sent w"
      "dw_fpos w' f \<noteq> None" "\<And>g gl. dw_files w' g = Some gl \<Longrightarrow> private_data gl = Aesd_device"
      using run(1) wr fl accepted(3) sint_eq_unat [OF n(2)] dw_goodD(3) [OF w(1)]
      by (auto simp: vfs_write_def aesd_fops_def result_int_def dw_fpos_def Let_def split: if_splits)
    have "view s = spec_write (view (dw_state w)) (take (unat n) bs)"
      using accepted(5) dev_inv_intact [OF inv(2)] by (simp add: write_effect_def)
    moreover have "0 \<le> k" "k \<le> int (length bs)" "nat k = unat n"
      using n(1) unfolding k(1) by (simp_all only: of_nat_le_iff nat_int of_nat_0_le_iff)
    ultimately show ?thesis
      using k(2-5) write_effect_dev_inv [OF inv(2) accepted(5)] by (simp add: dw_good_def dw_dev_def)
  qed
qed

text \<open>The position after a line was written to a fresh file: behind the stored command.\<close>

lemma vfs_write_pos:
  assumes K: "kernel_ok K" and w: "dw_good w" "dw_fpos w f = Some 0"
    and run: "vfs_write K aesd_fops w f bs = (w', k)" "k \<noteq> -1" "bs \<noteq> []"
    and line: "nl \<in> set (pending (dw_dev w) @ take (nat k) bs)"
    and len: "length (pending (dw_dev w)) + nat k < 2 ^ 64"
  shows "dw_fpos w' f = Some (length (pending (dw_dev w)) + nat k)"
proof -
  obtain fl where fl: "dw_files w f = Some fl" "f_pos fl = 0"
    using w(2) by (rule dw_fposE) (simp add: unat_eq_0)
  let ?c = "of_nat (min (length bs) MAX_RW_COUNT) :: u64"
  have c: "?c \<noteq> 0" "unat ?c < 2 ^ 63" by (rule rw_count [OF run(3)])+
  obtain s fp r where wr: "aesd_write K (dw_state w) (Some fl) (Some bs) ?c (Some (f_pos fl)) = (s, fp, r)"
    by (metis prod_cases3)
  note inv = dw_goodD(1,2) [OF w(1)]
  from K inv(1) dw_goodD(3) [OF w(1) fl(1)] c wr show ?thesis
  proof (cases rule: aesd_write_outcome)
    case interrupted
    with run wr fl show ?thesis by (auto simp: vfs_write_def aesd_fops_def result_int_def)
  next
    case no_memory
    with run wr fl show ?thesis by (auto simp: vfs_write_def aesd_fops_def result_int_def)
  next
    case (accepted n a)
    have "unat n < 2 ^ 63" using accepted(4) c(2) by (auto simp: word_le_nat_alt)
    then have k: "nat k = unat n"
      using run(1) wr fl accepted(3) sint_eq_unat
      by (auto simp: vfs_write_def aesd_fops_def result_int_def)
    have "fp = Some (entry_size (pending_of (dw_state w)) + n)"
      using accepted(5) dev_inv_intact [OF inv(2)] line fl(2) k
      by (auto simp: write_effect_def dw_dev_def)
    moreover have "unat (entry_size (pending_of (dw_state w))) = length (pending (dw_dev w))"
      unfolding pending_length [OF inv(2), symmetric] dw_dev_def
      using len by (intro unat_u64_of_nat) (simp add: dw_dev_def)
    then have "unat (entry_size (pending_of (dw_state w)) + n) = length (pending (dw_dev w)) + nat k"
      using len k by (subst unat_add_small) simp_all
    ultimately show ?thesis
      using run(1) wr fl by (auto simp: vfs_write_def aesd_fops_def dw_fpos_def)
  qed
qed

section \<open>The driver is the device the server expects\<close>

locale quiet_driver =
  fixes K :: kernel
    and junk :: "devworld \<Rightarrow> u64"
    and net :: "devworld \<Rightarrow> int \<Rightarrow> bytes \<Rightarrow> nat option"
  assumes quiet: "quiet K"
begin

lemma kernel: "kernel_ok K" "\<not> interrupted K"
  using quiet by (simp_all add: quiet_def)

end

sublocale quiet_driver \<subseteq> echo: echo_device "driver_os K junk net" dw_good dw_dev dw_fpos dw_sent
  "reports junk"
proof unfold_locales
  note os = driver_os_def
  show "alloc_ok (driver_os K junk net)" by (rule chunk_alloc) (simp_all add: os)
  show "dw_good w' \<and> dw_dev w' = dw_dev w \<and> dw_fpos w' = dw_fpos w \<and> dw_sent w' = dw_sent w"
    if "dw_good w" "os_calloc (driver_os K junk net) w h n = (w', q, h')" for w h n w' q h'
    using that by (auto simp: os chunk_calloc_def split: option.splits)
  show "dw_good w' \<and> dw_dev w' = dw_dev w \<and> dw_sent w' = dw_sent w \<and> dw_fpos w' f = Some 0"
    if "dw_good w" "os_open (driver_os K junk net) w = (w', f)" for w w' f
    using vfs_open_law [OF that(1)] that(2) by (simp add: os)
  show "dw_good (os_close (driver_os K junk net) w f) \<and>
      dw_dev (os_close (driver_os K junk net) w f) = dw_dev w \<and>
      dw_sent (os_close (driver_os K junk net) w f) = dw_sent w" if "dw_good w" for w f
    using that by (auto simp: os vfs_close_def dw_good_def dw_dev_def split: if_splits)
  show "0 \<le> k \<and> k \<le> int (length bs) \<and> dw_good w' \<and> dw_sent w' = dw_sent w \<and>
      dw_fpos w' f \<noteq> None \<and> dw_dev w' = spec_write (dw_dev w) (take (nat k) bs)"
    if "dw_good w" "dw_fpos w f = Some p" "os_write (driver_os K junk net) w f bs = (w', k)" "k \<noteq> -1"
      "bs \<noteq> []" for w f p bs w' k
    using vfs_write_law [OF kernel(1) that(1,2) _ that(4,5)] that(3) by (simp add: os)
  show "dw_good w' \<and> dw_dev w' = dw_dev w \<and> dw_sent w' = dw_sent w \<and> dw_fpos w' f \<noteq> None"
    if "dw_good w" "dw_fpos w f = Some p" "os_lseek (driver_os K junk net) w f off org = (w', r)"
    for w f p off org w' r
    using vfs_lseek_frame [OF kernel that(1,2)] that(3) by (simp add: os)
  show "dw_fpos w' f = Some (nat off)"
    if "dw_good w" "dw_fpos w f = Some p" "0 \<le> off" "off < 2 ^ 63"
      "os_lseek (driver_os K junk net) w f off SEEK_SET = (w', r)" for w f p off w' r
    using vfs_lseek_set [OF kernel that(1-4)] that(5) by (simp add: os)
  show "r = int p \<and> dw_fpos w' f = Some p"
    if "dw_good w" "dw_fpos w f = Some p" "p < 2 ^ 63"
      "os_lseek (driver_os K junk net) w f 0 SEEK_CUR = (w', r)" for w f p w' r
    using vfs_lseek_cur [OF kernel that(1-3)] that(4) by (simp add: os)
  show "to_int r \<noteq> 0 \<and> to_int r \<noteq> -1"
    if "dw_good w" "dw_fpos w f = Some p" "concat (commands (dw_dev w)) \<noteq> []"
      "reports junk (length (concat (commands (dw_dev w))))"
      "os_lseek (driver_os K junk net) w f 0 SEEK_END = (w', r)" for w f p w' r
    using vfs_lseek_end [OF kernel that(1,2,4)] that(5) by (simp add: os)
  show "dw_good w' \<and> dw_dev w' = dw_dev w \<and> dw_sent w' = dw_sent w \<and> dw_fpos w' f \<noteq> None"
    if "dw_good w" "dw_fpos w f = Some p" "os_ioctl (driver_os K junk net) w f arg = (w', 0)"
    for w f p arg w'
    using vfs_ioctl_frame [OF kernel(1) that(1,2)] that(3) by (simp add: os)
  show "dw_good w' \<and> dw_dev w' = dw_dev w \<and> dw_sent w' = dw_sent w \<and>
      (\<exists>bs rest. r' = Some bs \<and> length bs \<le> n \<and> dw_fpos w' f = Some (p + length bs) \<and>
         drop p (concat (commands (dw_dev w))) = bs @ rest \<and>
         (bs = [] \<longrightarrow> length (concat (commands (dw_dev w))) \<le> p))"
    if "dw_good w" "dw_fpos w f = Some p" "length (concat (commands (dw_dev w))) < 2 ^ 63"
      "p < 2 ^ 63" "0 < n" "os_read (driver_os K junk net) w f n = (w', r')" for w f p n w' r'
    using vfs_read_law [OF quiet that(1-3), of n w' r'] that(5,6) by (simp add: os)
  show "dw_good w' \<and> dw_dev w' = dw_dev w \<and> dw_fpos w' = dw_fpos w \<and> dw_sent w' c = dw_sent w c @ bs"
    if "dw_good w" "os_send (driver_os K junk net) w c bs = (w', k)" "k \<noteq> -1" for w c bs w' k
    using that by (auto simp: os dw_good_def dw_dev_def dw_fpos_def split: option.splits)
  show "n < 2 ^ 63" if "reports junk n" for n using that by (simp add: reports_def)
qed

lemma quiet_reference: "quiet reference_kernel"
proof -
  have "\<not> interrupted reference_kernel" "full_copies reference_kernel"
    by (auto simp: full_copies_def interrupted_def reference_kernel_def ref_copy_to_user_def)
  then show ?thesis by (simp add: quiet_def)
qed

text \<open>The reference environment: the variable happens to be 0, and every \<open>send\<close> succeeds.\<close>

abbreviation no_junk :: "devworld \<Rightarrow> u64" where
  "no_junk \<equiv> (\<lambda>w. 0)"

abbreviation sends :: "devworld \<Rightarrow> int \<Rightarrow> bytes \<Rightarrow> nat option" where
  "sends \<equiv> (\<lambda>w c bs. None)"

interpretation ref: quiet_driver reference_kernel no_junk sends
  by unfold_locales (rule quiet_reference)

context quiet_driver
begin

lemma send_fails: "echo.send_failed c \<Longrightarrow> \<exists>w bs. net w c bs \<noteq> None"
  unfolding echo.send_failed_def by (auto simp: driver_os_def split: option.splits)

lemma calloc_succeeds: "ref_fresh h \<noteq> None \<Longrightarrow> \<not> echo.calloc_failed h"
  unfolding echo.calloc_failed_def by (auto simp: driver_os_def chunk_calloc_def split: option.splits)

lemma line_answered:
  assumes "dw_good (world s)" "\<not> global_mutex s" "ready s str"
    and "take (length kIOCtrlStr) str \<noteq> kIOCtrlStr"
    and "os_open (driver_os K junk net) (world s) = (w, f)"
    and "os_write (driver_os K junk net) w f str = (w', n)" "n \<noteq> -1"
    and "dw_fpos w' f = Some p" "ioctlCmdRecv s \<longrightarrow> p < 2 ^ 63"
    and "v = spec_write (dw_dev (world s)) (take (nat n) str)"
    and "concat (commands v) \<noteq> []" "reports junk (length (concat (commands v)))"
    and "q = (if ioctlCmdRecv s then p else 0)"
    and "ref_fresh (mem s) \<noteq> None"
  shows "\<exists>r. exchange (driver_os K junk net) s = Some (Inr r) \<and>
    (case r of Continue s' \<Rightarrow>
       dw_sent (world s') (cfd (threadData s))
         = dw_sent (world s) (cfd (threadData s)) @ drop q (concat (commands v)) \<and>
       dw_dev (world s') = v \<and> dw_good (world s') \<and> \<not> global_mutex s' \<and>
       ioctlCmdRecv s' = ioctlCmdRecv s
     | Returned s' \<Rightarrow> complete (threadData s') \<and> (\<exists>w bs. net w (cfd (threadData s)) bs \<noteq> None)
     | Again s' \<Rightarrow> False)"
proof -
  from echo.exchange_line [OF assms(1-13)] obtain r where r:
    "exchange (driver_os K junk net) s = Some (Inr r)"
    "case r of Continue s' \<Rightarrow> echo.answered s v q (ioctlCmdRecv s) s'
     | Returned s' \<Rightarrow> complete (threadData s') \<and>
         (echo.send_failed (cfd (threadData s)) \<or> echo.calloc_failed (mem s))
     | Again s' \<Rightarrow> False"
    by blast
  show ?thesis
    by (rule exI [of _ r])
      (use r send_fails calloc_succeeds [OF assms(14)] in \<open>auto simp: echo.answered_def split: outcome.splits\<close>)
qed

text \<open>On a connection on which every \<open>send\<close> succeeds.\<close>

lemma line_answered_fully:
  assumes "dw_good (world s)" "\<not> global_mutex s" "ready s str"
    and "take (length kIOCtrlStr) str \<noteq> kIOCtrlStr"
    and "os_open (driver_os K junk net) (world s) = (w, f)"
    and "os_write (driver_os K junk net) w f str = (w', n)" "n \<noteq> -1"
    and "dw_fpos w' f = Some p" "ioctlCmdRecv s \<longrightarrow> p < 2 ^ 63"
    and "v = spec_write (dw_dev (world s)) (take (nat n) str)"
    and "concat (commands v) \<noteq> []" "reports junk (length (concat (commands v)))"
    and "q = (if ioctlCmdRecv s then p else 0)"
    and "ref_fresh (mem s) \<noteq> None" "\<And>w bs. net w (cfd (threadData s)) bs = None"
  shows "\<exists>s'. exchange (driver_os K junk net) s = Some (Inr (Continue s')) \<and>
    dw_sent (world s') (cfd (threadData s))
      = dw_sent (world s) (cfd (threadData s)) @ drop q (concat (commands v)) \<and>
    \<not> global_mutex s' \<and> ioctlCmdRecv s' = ioctlCmdRecv s"
proof -
  obtain r where "exchange (driver_os K junk net) s = Some (Inr r)"
    "case r of Continue s' \<Rightarrow>
       dw_sent (world s') (cfd (threadData s))
         = dw_sent (world s) (cfd (threadData s)) @ drop q (concat (commands v)) \<and>
       dw_dev (world s') = v \<and> dw_good (world s') \<and> \<not> global_mutex s' \<and>
       ioctlCmdRecv s' = ioctlCmdRecv s
     | Returned s' \<Rightarrow> complete (threadData s') \<and> (\<exists>w bs. net w (cfd (threadData s)) bs \<noteq> None)
     | Again s' \<Rightarrow> False"
    using line_answered [OF assms(1-14)] by blast
  then show ?thesis using assms(15) by (cases r) auto
qed

lemma seek_answered:
  assumes "dw_good (world s)" "\<not> global_mutex s" "ready s str"
    and "take (length kIOCtrlStr) str = kIOCtrlStr"
    and "parse_seekto (drop (length kIOCtrlStr) str) = Inr arg"
    and "os_open (driver_os K junk net) (world s) = (w, f)"
    and "os_ioctl (driver_os K junk net) w f arg = (w', 0)"
    and "dw_fpos w' f = Some p" "p < 2 ^ 63"
    and "concat (commands (dw_dev (world s))) \<noteq> []"
    and "reports junk (length (concat (commands (dw_dev (world s)))))"
    and "ref_fresh (mem s) \<noteq> None"
  shows "(\<exists>s'. exchange (driver_os K junk net) s = Some (Inr (Continue s')) \<and>
      dw_sent (world s') (cfd (threadData s))
        = dw_sent (world s) (cfd (threadData s)) @ drop p (concat (commands (dw_dev (world s)))) \<and>
      dw_dev (world s') = dw_dev (world s) \<and> dw_good (world s') \<and> \<not> global_mutex s' \<and> ioctlCmdRecv s') \<or>
    (exchange (driver_os K junk net) s = Some (Inl BadFree) \<or>
       (\<exists>s'. exchange (driver_os K junk net) s = Some (Inr (Returned s')) \<and> complete (threadData s'))) \<and>
    (\<exists>w bs. net w (cfd (threadData s)) bs \<noteq> None)"
proof -
  from echo.exchange_seek [OF assms(1-11)] obtain r where
    "exchange (driver_os K junk net) s = Some r"
    "case r of Inl e \<Rightarrow> e = BadFree \<and>
         (echo.send_failed (cfd (threadData s)) \<or> echo.calloc_failed (mem s))
     | Inr (Continue s') \<Rightarrow> echo.answered s (dw_dev (world s)) p True s'
     | Inr (Returned s') \<Rightarrow> complete (threadData s') \<and>
         (echo.send_failed (cfd (threadData s)) \<or> echo.calloc_failed (mem s))
     | Inr (Again s') \<Rightarrow> False"
    by blast
  with send_fails [of "cfd (threadData s)"] calloc_succeeds [OF assms(12)] show ?thesis
    by (cases r) (auto simp: echo.answered_def split: outcome.splits)
qed

end

section \<open>Server and driver together\<close>

text \<open>
  C6: the server echoes the device. A thread whose connection has had no seek command has received a line
  that is none either, the mutex is free, and the device accepts \<open>n\<close> bytes of the line. If the device
  then holds something and its size, added to the uninitialised variable of the driver, is
  reported usably, if the kernel neither interrupts the driver nor cuts its copies short and there is memory
  for the reply, then the thread always gets through its exchange: the line is
  stored, and the client is sent exactly the stored commands of the device, the new line included, in
  order and from the beginning, in as many reads as the driver needs, and the mutex is free again;
  or else a \<open>send\<close> on this connection has failed and the thread has returned.
\<close>

theorem server_echoes_device:
  assumes "quiet K" "dw_good (world s)" "\<not> global_mutex s" "ready s str" "\<not> ioctlCmdRecv s"
    and "take (length kIOCtrlStr) str \<noteq> kIOCtrlStr"
    and "os_open (driver_os K junk net) (world s) = (w, f)"
    and "os_write (driver_os K junk net) w f str = (w', n)" "n \<noteq> -1"
    and "v = spec_write (view (dw_state (world s))) (take (nat n) str)"
    and "concat (commands v) \<noteq> []" "reports junk (length (concat (commands v)))"
    and "ref_fresh (mem s) \<noteq> None"
  shows "\<exists>r. exchange (driver_os K junk net) s = Some (Inr r) \<and>
    (case r of Continue s' \<Rightarrow>
       dw_sent (world s') (cfd (threadData s))
         = dw_sent (world s) (cfd (threadData s)) @ concat (commands v) \<and>
       view (dw_state (world s')) = v \<and> dw_good (world s') \<and> \<not> global_mutex s'
     | Returned s' \<Rightarrow> complete (threadData s') \<and> (\<exists>w bs. net w (cfd (threadData s)) bs \<noteq> None)
     | Again s' \<Rightarrow> False)"
proof -
  have q: "quiet_driver K" using assms(1) by unfold_locales
  note w = vfs_open_law [OF assms(2)] and K = conjunct1 [OF assms(1) [unfolded quiet_def]]
  have "dw_good w" "dw_fpos w f = Some 0" using w assms(7) by (simp_all add: driver_os_def)
  moreover have "vfs_write K aesd_fops w f str = (w', n)" using assms(8) by (simp add: driver_os_def)
  moreover have "str \<noteq> []" using ready_string [OF assms(4)] by auto
  ultimately have "dw_fpos w' f \<noteq> None" using vfs_write_law [OF K _ _ _ assms(9)] by blast
  then obtain p where "dw_fpos w' f = Some p" by auto
  from quiet_driver.line_answered [OF q assms(2-4,6-9) this _ _ assms(11,12) _ assms(13), of 0] assms(5,10)
  obtain r where r: "exchange (driver_os K junk net) s = Some (Inr r)"
    "case r of Continue s' \<Rightarrow>
       dw_sent (world s') (cfd (threadData s))
         = dw_sent (world s) (cfd (threadData s)) @ drop 0 (concat (commands v)) \<and>
       dw_dev (world s') = v \<and> dw_good (world s') \<and> \<not> global_mutex s' \<and>
       ioctlCmdRecv s' = ioctlCmdRecv s
     | Returned s' \<Rightarrow> complete (threadData s') \<and> (\<exists>w bs. net w (cfd (threadData s)) bs \<noteq> None)
     | Again s' \<Rightarrow> False"
    by (auto simp: dw_dev_def)
  then show ?thesis by (intro exI [of _ r]) (auto simp: dw_dev_def split: outcome.splits)
qed

definition dw_example :: devworld where
  "dw_example = \<lparr>dw_state = state_example, dw_files = Map.empty, dw_next = 3, dw_input = [],
                 dw_sent = (\<lambda>c. []), dw_exit = False\<rparr>"

lemma dw_example_good: "dw_good dw_example"
  using dev_inv_example by (simp add: dw_good_def dw_example_def)

definition opened_example :: devworld where
  "opened_example = dw_example\<lparr>dw_files := [3 \<mapsto> file_example], dw_next := 4\<rparr>"

lemma dw_example_open: "os_open (driver_os K junk net) dw_example = (opened_example, 3)"
  by (simp add: driver_os_def vfs_open_def aesd_fops_def aesd_open_def dw_example_def
      opened_example_def file_example_def)

lemma dw_example_write:
  "snd (os_write (driver_os reference_kernel junk net) opened_example 3 (''ld'' @ [nl])) = 3"
  by (simp add: driver_os_def vfs_write_def aesd_fops_def opened_example_def dw_example_def
      MAX_RW_COUNT_def driver_eval result_int_def Let_def)

theorem server_echoes_device_witness:
  "\<exists>s'. exchange (driver_os reference_kernel no_junk sends) (message_example dw_example (''ld'' @ [nl]))
          = Some (Inr (Continue s')) \<and>
        dw_sent (world s') 5 = ''hi'' @ [nl] @ ''world'' @ [nl]"
proof -
  let ?s = "message_example dw_example (''ld'' @ [nl])"
  obtain w' where wr: "os_write (driver_os reference_kernel no_junk sends) opened_example 3 (''ld'' @ [nl]) = (w', 3)"
    using dw_example_write [of no_junk sends] by (metis prod.collapse)
  have r: "ready ?s (''ld'' @ [nl])" by (rule message_example_ready) (simp_all add: NUL_def)
  have s: "world ?s = dw_example" "cfd (threadData ?s) = 5" "\<not> ioctlCmdRecv ?s" "ref_fresh (mem ?s) \<noteq> None"
    by (simp_all add: message_example_def thread_example_def td_example_def ref_fresh_def upt_rec)
  let ?v = "spec_write (view (dw_state (world ?s))) (take (nat 3) (''ld'' @ [nl]))"
  have v: "concat (commands ?v) = ''hi'' @ [nl] @ ''world'' @ [nl]"
    unfolding s(1) by (simp add: dw_example_def view_example spec_write_def push_window_def)
  have pre: "dw_good (world ?s)" "take (length kIOCtrlStr) (''ld'' @ [nl]) \<noteq> kIOCtrlStr"
    "os_open (driver_os reference_kernel no_junk sends) (world ?s) = (opened_example, 3)" "(3 :: int) \<noteq> -1"
    unfolding s(1) using dw_example_good dw_example_open by (simp_all add: kIOCtrlStr_def)
  have size: "concat (commands ?v) \<noteq> []" "reports no_junk (length (concat (commands ?v)))"
    unfolding v by (simp_all add: reports_zero)
  from server_echoes_device [OF quiet_reference pre(1) message_example_free r s(3) pre(2,3) wr pre(4) HOL.refl
      size s(4)]
  obtain x where x: "exchange (driver_os reference_kernel no_junk sends) ?s = Some (Inr x)"
    "case x of Continue s' \<Rightarrow>
       dw_sent (world s') (cfd (threadData ?s))
         = dw_sent (world ?s) (cfd (threadData ?s)) @ concat (commands ?v) \<and>
       view (dw_state (world s')) = ?v \<and> dw_good (world s') \<and> \<not> global_mutex s'
     | Returned s' \<Rightarrow> complete (threadData s') \<and> (\<exists>w bs. sends w (cfd (threadData ?s)) bs \<noteq> None)
     | Again s' \<Rightarrow> False"
    by blast
  have "dw_sent (world ?s) (cfd (threadData ?s)) = []" unfolding s(1) by (simp add: dw_example_def)
  then show ?thesis using x s(2) v by (cases x) simp_all
qed

text \<open>
  C23: a seek command answers from the selected place. While the oldest command is in slot 0 (until
  the device has wrapped), a command \<open>AESDCHAR_IOCSEEKTO:X,Y\<close> for an existing command \<open>X\<close>
  and an offset \<open>Y\<close> inside it makes the server send the client everything from byte \<open>Y\<close> of
  command \<open>X\<close> to the end, the device is not changed, and the mutex is free again; or else a \<open>send\<close> on
  this connection has failed, and the thread has returned or freed a pointer that is none. This holds when the mutex
  was free, the kernel copies the arguments, neither interrupts the driver nor cuts
  its copies short, there is memory for the reply, and the device's size, added to the uninitialised variable
  of the driver, is reported usably.
\<close>

theorem server_answers_seek:
  assumes "quiet K" "dw_good (world s)" "\<not> global_mutex s" "ready s str"
    and "take (length kIOCtrlStr) str = kIOCtrlStr"
    and "parse_seekto (drop (length kIOCtrlStr) str) = Inr arg"
    and "fst (copy_struct_from_user K (write_cmd arg, write_cmd_offset arg)) = 0"
    and "out_offs (ring_of (dw_state (world s))) = 0"
    and "cmds = commands (view (dw_state (world s)))" "reports junk (length (concat cmds))"
    and "i = unat (write_cmd arg)" "i < length cmds"
    and "j = unat (write_cmd_offset arg)" "j < length (cmds ! i)"
    and "ref_fresh (mem s) \<noteq> None"
  shows "(\<exists>s'. exchange (driver_os K junk net) s = Some (Inr (Continue s')) \<and>
      dw_sent (world s') (cfd (threadData s))
        = dw_sent (world s) (cfd (threadData s))
            @ drop j (cmds ! i) @ concat (drop (Suc i) cmds) \<and>
      view (dw_state (world s')) = view (dw_state (world s)) \<and> \<not> global_mutex s' \<and> ioctlCmdRecv s') \<or>
    (exchange (driver_os K junk net) s = Some (Inl BadFree) \<or>
       (\<exists>s'. exchange (driver_os K junk net) s = Some (Inr (Returned s')) \<and> complete (threadData s'))) \<and>
    (\<exists>w bs. net w (cfd (threadData s)) bs \<noteq> None)"
proof -
  have q: "quiet_driver K" using assms(1) by unfold_locales
  have K: "kernel_ok K" "\<not> interrupted K" using assms(1) by (simp_all add: quiet_def)
  obtain w f where op: "os_open (driver_os K junk net) (world s) = (w, f)" by fastforce
  then have w: "dw_good w" "dw_state w = dw_state (world s)" "\<exists>fl. dw_files w f = Some fl"
    using vfs_open_law [OF assms(2)]
    by (auto simp: driver_os_def vfs_open_def aesd_fops_def aesd_open_def dw_fpos_def)
  then obtain fl where fl: "dw_files w f = Some fl" "private_data fl = Aesd_device"
    using dw_goodD(3) [OF w(1)] by blast
  have small: "length (concat (commands (view (dw_state (world s))))) < 2 ^ 64"
    using assms(9,10) by (simp add: reports_def)
  obtain f' where f': "aesd_ioctl K (dw_state w) fl (AESDCHAR_IOCSEEKTO K) arg = (dw_state w, f', Inr 0)"
    "unat (f_pos f') = length (concat (take i cmds)) + j"
    using ioctl_aligned [OF K dw_goodD(1) [OF assms(2)] fl(2) assms(7,8) small assms(11) _ assms(13)]
      assms(9,12,14) w(2) by auto
  have loc: "locate (map length cmds) (length (concat (take i cmds)) + j) = Some (i, j)"
    using assms(12,14) locate_SomeI [of i "map length cmds" j] by (simp add: length_concat_take)
  have ne: "concat cmds \<noteq> []" using assms(12,14) by (metis concat_eq_Nil_conv length_0_conv not_less_zero nth_mem)
  have bound: "length (concat (take i cmds)) + j < 2 ^ 63"
    using locate_None_iff [of "map length cmds" "length (concat (take i cmds)) + j"] loc assms(10)
    by (simp add: length_concat reports_def)
  let ?w = "w\<lparr>dw_files := (dw_files w)(f \<mapsto> f')\<rparr>"
  have "os_ioctl (driver_os K junk net) w f arg = (?w, 0)"
    using fl f'(1) by (simp add: driver_os_def vfs_ioctl_def aesd_fops_def result_int_def)
  moreover have "dw_fpos ?w f = Some (length (concat (take i cmds)) + j)"
    using f'(2) by (simp add: dw_fpos_def)
  ultimately show ?thesis
    using quiet_driver.seek_answered [OF q assms(2-6) op _ _ bound] assms(9,10,15) ne
      drop_concat_locate [OF loc]
    by (auto simp: dw_dev_def)
qed

theorem server_answers_seek_witness:
  "\<exists>s'. exchange (driver_os reference_kernel no_junk sends)
          (message_example dw_example (''AESDCHAR_IOCSEEKTO:0,1'' @ [nl])) = Some (Inr (Continue s')) \<and>
        dw_sent (world s') 5 = ''i'' @ [nl] \<and> ioctlCmdRecv s'"
proof -
  let ?str = "''AESDCHAR_IOCSEEKTO:0,1'' @ [nl]" and ?arg = "\<lparr>write_cmd = 0, write_cmd_offset = 1\<rparr>"
  let ?s = "message_example dw_example ?str"
  have r: "ready ?s ?str" by (rule message_example_ready) (simp_all add: NUL_def)
  have s: "world ?s = dw_example" "cfd (threadData ?s) = 5" "ref_fresh (mem ?s) \<noteq> None"
    by (simp_all add: message_example_def thread_example_def td_example_def ref_fresh_def upt_rec)
  have p: "take (length kIOCtrlStr) ?str = kIOCtrlStr"
    "parse_seekto (drop (length kIOCtrlStr) ?str) = Inr ?arg"
    by (simp_all add: kIOCtrlStr_def parse_seekto_def atoi_def isspace_def isdigit_def
        digits_value_def digit_value_def INT_MAX_def strchr_def)
  have c: "fst (copy_struct_from_user reference_kernel (write_cmd ?arg, write_cmd_offset ?arg)) = 0"
    "out_offs (ring_of (dw_state (world ?s))) = 0" "dw_good (world ?s)"
    using dw_example_good s(1) by (simp_all add: reference_kernel_def dw_example_def state_example_def)
  show ?thesis
    using server_answers_seek [OF quiet_reference c(3) message_example_free r p c(1,2) refl _ refl _ refl _ s(3),
        where junk = no_junk and net = sends] reports_zero s(1,2)
    by (auto simp: dw_example_def view_example)
qed

text \<open>
  the server never forgets a seek. After one seek command on a connection, the reply to every
  later line on it starts at the file position behind the written bytes instead of at the
  beginning, so the first bytes of the device, as many as the line has, are missing from
  the reply, although the file was opened anew.
\<close>

lemma seek_flag_never_reset:
  assumes "quiet K" "dw_good (world s)" "\<not> global_mutex s" "ready s str" "ioctlCmdRecv s"
    and "take (length kIOCtrlStr) str \<noteq> kIOCtrlStr"
    and "os_open (driver_os K junk net) (world s) = (w, f)"
    and "os_write (driver_os K junk net) w f str = (w', n)" "n \<noteq> -1"
    and "v = spec_write (view (dw_state (world s))) (take (nat n) str)"
    and "nl \<in> set (take (nat n) str)" "reports junk (length (concat (commands v)))"
    and "p = length (pending (view (dw_state (world s)))) + nat n" "p < 2 ^ 63"
    and "ref_fresh (mem s) \<noteq> None" "\<And>w bs. net w (cfd (threadData s)) bs = None"
  shows "\<exists>s'. exchange (driver_os K junk net) s = Some (Inr (Continue s')) \<and>
    dw_sent (world s') (cfd (threadData s))
      = dw_sent (world s) (cfd (threadData s)) @ drop p (concat (commands v)) \<and>
    ioctlCmdRecv s'"
proof -
  have q: "quiet_driver K" using assms(1) by unfold_locales
  have K: "kernel_ok K" using assms(1) by (simp add: quiet_def)
  have w: "dw_good w" "dw_fpos w f = Some 0" "dw_dev w = view (dw_state (world s))"
    using vfs_open_law [OF assms(2)] assms(7) by (auto simp: driver_os_def dw_dev_def)
  have wr: "vfs_write K aesd_fops w f str = (w', n)" "str \<noteq> []"
    using assms(8) ready_string [OF assms(4)] by (auto simp: driver_os_def)
  have pos: "dw_fpos w' f = Some p"
    using vfs_write_pos [OF K w(1,2) wr(1) assms(9) wr(2)] assms(11,13,14) w(3) by simp
  have "concat (commands v) \<noteq> []"
    using assms(10,11) by (auto simp: spec_write_def Let_def push_window_def take_last_def)
  moreover have "ioctlCmdRecv s \<longrightarrow> p < 2 ^ 63" "p = (if ioctlCmdRecv s then p else 0)"
    "v = spec_write (dw_dev (world s)) (take (nat n) str)"
    using assms(5,10,14) by (simp_all add: dw_dev_def)
  ultimately show ?thesis
    using quiet_driver.line_answered_fully [OF q assms(2-4,6-9) pos _ _ _ assms(12) _ assms(15,16), of p] assms(5)
    by auto
qed

lemma seek_flag_never_reset_witness:
  "\<exists>s'. exchange (driver_os reference_kernel no_junk sends)
          ((message_example dw_example (''ld'' @ [nl]))\<lparr>ioctlCmdRecv := True\<rparr>) = Some (Inr (Continue s')) \<and>
        dw_sent (world s') 5 = ''ld'' @ [nl] \<and> ioctlCmdRecv s'"
proof -
  let ?s = "(message_example dw_example (''ld'' @ [nl]))\<lparr>ioctlCmdRecv := True\<rparr>"
  obtain w' where wr: "os_write (driver_os reference_kernel no_junk sends) opened_example 3 (''ld'' @ [nl]) = (w', 3)"
    using dw_example_write [of no_junk sends] by (metis prod.collapse)
  have "ready (message_example dw_example (''ld'' @ [nl])) (''ld'' @ [nl])"
    by (rule message_example_ready) (simp_all add: NUL_def)
  then have r: "ready ?s (''ld'' @ [nl])" by (simp add: ready_def holds_buffers_def)
  have s: "world ?s = dw_example" "cfd (threadData ?s) = 5" "ioctlCmdRecv ?s"
    "ref_fresh (mem ?s) \<noteq> None" "\<not> global_mutex ?s"
    by (simp_all add: message_example_def thread_example_def td_example_def ref_fresh_def upt_rec)
  show ?thesis
    using seek_flag_never_reset [OF quiet_reference _ s(5) r s(3) _ _ wr _ refl _ _ refl]
      dw_example_good s(1,2,4) dw_example_open [of reference_kernel no_junk sends] reports_zero
    by (auto simp: kIOCtrlStr_def dw_example_def view_example spec_write_def push_window_def)
qed

text \<open>A read of no bytes.\<close>

lemma vfs_read_none:
  assumes "quiet K" "dw_good w" "dw_fpos w f = Some p"
  shows "\<exists>w'. vfs_read K aesd_fops w f 0 = (w', Some []) \<and> dw_sent w' = dw_sent w"
proof -
  obtain fl where fl: "dw_files w f = Some fl" using assms(3) by (rule dw_fposE)
  obtain s fp bs res where
    rd: "aesd_read K (dw_state w) (Some fl) (Some 0) 0 (Some (f_pos fl)) = (s, fp, bs, res)"
    by (metis prod_cases4)
  with aesd_read_view [OF _ dw_goodD(1) [OF assms(2)] dw_goodD(3) [OF assms(2) fl] _ rd] assms(1)
    spec_read_length [of "commands (view (dw_state w))" "unat (f_pos fl)" 0] fl
  show ?thesis by (auto simp: quiet_def vfs_read_def aesd_fops_def)
qed

text \<open>
  the uninitialised variable of the driver can silence the server. If the indeterminate
  value and the size of the device add up to 0 (modulo the width of the server's \<open>int\<close>), the server
  takes the device for empty: it stores the client's line and sends nothing back.
\<close>

lemma junk_silences_reply:
  assumes "quiet K" "dw_good (world s)" "\<not> global_mutex s" "ready s str" "\<not> ioctlCmdRecv s"
    and "take (length kIOCtrlStr) str \<noteq> kIOCtrlStr"
    and "os_open (driver_os K junk net) (world s) = (w, f)"
    and "os_write (driver_os K junk net) w f str = (w', n)" "n \<noteq> -1"
    and "v = spec_write (view (dw_state (world s))) (take (nat n) str)"
    and "r = junk w' + of_nat (length (concat (commands v)))" "0 \<le> sint r" "to_int (sint r) = 0"
    and "ref_fresh (mem s) \<noteq> None"
  shows "\<exists>s'. exchange (driver_os K junk net) s = Some (Inr (Continue s')) \<and>
    dw_sent (world s') = dw_sent (world s)"
proof -
  let ?os = "driver_os K junk net"
  have K: "kernel_ok K" "\<not> interrupted K" using assms(1) by (simp_all add: quiet_def)
  have w: "dw_good w" "dw_fpos w f = Some 0" "dw_dev w = view (dw_state (world s))"
    "dw_sent w = dw_sent (world s)"
    using vfs_open_law [OF assms(2)] assms(7) by (auto simp: driver_os_def dw_dev_def)
  have str: "string_at (mem s) (recvBuffer s) = Inr str" "str \<noteq> []"
    using ready_string [OF assms(4)] by auto
  have wr: "vfs_write K aesd_fops w f str = (w', n)" using assms(8) by (simp add: driver_os_def)
  from vfs_write_law [OF K(1) w(1,2) wr assms(9) str(2)] w(3) assms(10) obtain p where
    w': "dw_good w'" "dw_sent w' = dw_sent (world s)" "dw_dev w' = v" "dw_fpos w' f = Some p"
    using w(4) by auto
  then obtain fl where fl: "dw_files w' f = Some fl" by (auto elim: dw_fposE)
  define w2 where "w2 = w'\<lparr>dw_files := (dw_files w')(f \<mapsto> fl\<lparr>f_pos := r\<rparr>)\<rparr>"
  have "total_size (ring_of (dw_state w')) = of_nat (length (concat (commands v)))"
    using total_size_bytes [OF dw_goodD(1) [OF w'(1)]] w'(3) by (simp add: dw_dev_def)
  then have se: "vfs_lseek K (junk w') aesd_fops w' f 0 SEEK_END = (w2, sint r)"
    using vfs_lseek_outcome [OF K w'(1) fl, of "junk w'" 0 SEEK_END] assms(11,12)
    by (simp add: seek_target_def w2_def)
  obtain w3 x where ss: "vfs_lseek K (junk w2) aesd_fops w2 f 0 SEEK_SET = (w3, x)" by fastforce
  have w2: "dw_good w2" "dw_sent w2 = dw_sent (world s)" "\<exists>p. dw_fpos w2 f = Some p"
    using vfs_lseek_frame [OF K w'(1,4) se] w'(2) by auto
  then have w3: "dw_good w3" "dw_sent w3 = dw_sent (world s)" "\<exists>p. dw_fpos w3 f = Some p"
    using vfs_lseek_frame [OF K _ _ ss] by auto
  obtain b where b: "ref_fresh (mem s) = Some b" using assms(14) by auto
  obtain w4 where rd: "vfs_read K aesd_fops w3 f 0 = (w4, Some [])" "dw_sent w4 = dw_sent w3"
    using vfs_read_none [OF assms(1) w3(1)] w3(3) by blast
  let ?s2 = "s\<lparr>global_mutex := True, global_fd := f, world := w'\<rparr>"
  let ?s3 = "?s2\<lparr>world := w3, mem := (mem s)(b \<mapsto> []), sendBuffer := Some b\<rparr>"
  have "position_reply ?os ?s2 = Inr (Continue ?s3, 0)"
    using assms(5,13) se ss b
    by (simp add: position_reply_def driver_os_def chunk_calloc_def to_size_t_def Let_def)
  moreover have "echo_round ?os 0 ?s3 = Inr (Continue (?s3\<lparr>world := w4\<rparr>))"
    using rd(1) by (simp add: echo_round_def driver_os_def to_size_t_def put_bytes_def)
  then have "echo_loop ?os 0 ?s3 = Some (Inr (Continue (?s3\<lparr>world := w4\<rparr>)))"
    by (subst echo_loop.simps) simp
  moreover have "write_command ?os (s\<lparr>global_mutex := True, world := w, global_fd := f\<rparr>) str = Inr (Continue ?s2)"
    using assms(8,9) by (simp add: write_command_def)
  ultimately have "exchange ?os s = Some (Inr (Continue
      (?s3\<lparr>world := os_close ?os w4 f, global_mutex := False\<rparr>)))"
    using exchange_eq [OF assms(3) str(1) assms(7) refl] assms(6) by (simp add: reply_def)
  then show ?thesis using rd(2) w3(2) by (auto simp: driver_os_def vfs_close_def)
qed

lemma junk_silences_reply_witness:
  "\<exists>s'. exchange (driver_os reference_kernel (\<lambda>w. -9) sends) (message_example dw_example (''ld'' @ [nl]))
          = Some (Inr (Continue s')) \<and> dw_sent (world s') 5 = []"
proof -
  let ?s = "message_example dw_example (''ld'' @ [nl])"
  obtain w' where wr: "os_write (driver_os reference_kernel (\<lambda>w. -9) sends) opened_example 3 (''ld'' @ [nl]) = (w', 3)"
    using dw_example_write [of "\<lambda>w. -9" sends] by (metis prod.collapse)
  have r: "ready ?s (''ld'' @ [nl])" by (rule message_example_ready) (simp_all add: NUL_def)
  have s: "world ?s = dw_example" "\<not> ioctlCmdRecv ?s" "ref_fresh (mem ?s) \<noteq> None"
    by (simp_all add: message_example_def thread_example_def td_example_def ref_fresh_def upt_rec)
  show ?thesis
    using junk_silences_reply [OF quiet_reference _ message_example_free r s(2) _ _ wr _ refl refl]
      dw_example_good s(1,3) dw_example_open [of reference_kernel "\<lambda>w. -9" sends]
    by (auto simp: kIOCtrlStr_def dw_example_def view_example spec_write_def push_window_def to_int_def)
qed
end
