(* ===== verification/Server_Service.thy ===== *)
theory Server_Service
  imports Server_Heap Device_File
begin

text \<open>
  The abstract service that the server and its device give to all clients together: a sequence of
  atomic exchanges, each of one thread with one line. The detailed server, with its threads
  interleaved block by block, is simulated by it.
\<close>

section \<open>The service\<close>

text \<open>The device, what was sent on each connection, and the threads that have had a seek command.\<close>

record service =
  sv_dev :: dev_view
  sv_sent :: "int \<Rightarrow> bytes"
  sv_seeked :: "nat set"

text \<open>
  An exchange of thread \<open>i\<close> on connection \<open>c\<close> with the line \<open>str\<close>. A line that is no seek command is
  written to the device, as far as the device accepts it, and everything the device holds is sent;
  from the beginning, unless the thread has had a seek command before. A seek command leaves the
  device alone and is answered from some position. \<open>U n\<close> says that the size of a device of \<open>n\<close> bytes is
  reported usably; if it is not, the answer may be nothing at all.
\<close>

definition send_from :: "service \<Rightarrow> int \<Rightarrow> nat \<Rightarrow> service" where
  "send_from A c q = A\<lparr>sv_sent := (sv_sent A)(c := sv_sent A c @ drop q (concat (commands (sv_dev A))))\<rparr>"

definition size_of :: "dev_view \<Rightarrow> nat" where
  "size_of v = length (concat (commands v))"

inductive exchanged :: "(nat \<Rightarrow> bool) \<Rightarrow> nat \<times> int \<times> bytes \<Rightarrow> service \<Rightarrow> service \<Rightarrow> bool" for U where
  line: "take (length kIOCtrlStr) str \<noteq> kIOCtrlStr \<Longrightarrow> nl \<in> set str \<Longrightarrow> n \<le> length str \<Longrightarrow>
    v = spec_write (sv_dev A) (take n str) \<Longrightarrow>
    (i \<notin> sv_seeked A \<Longrightarrow> q = 0 \<or> \<not> U (size_of v) \<and> q = size_of v) \<Longrightarrow>
    exchanged U (i, c, str) A (send_from (A\<lparr>sv_dev := v\<rparr>) c q)"
| seek: "take (length kIOCtrlStr) str = kIOCtrlStr \<Longrightarrow> nl \<in> set str \<Longrightarrow>
    exchanged U (i, c, str) A (send_from (A\<lparr>sv_seeked := insert i (sv_seeked A)\<rparr>) c q)"

text \<open>The device holds more bytes than an \<open>off_t\<close> can count, which no memory does.\<close>

definition big :: "service \<Rightarrow> bool" where
  "big A \<longleftrightarrow> 2 ^ 63 \<le> size_of (sv_dev A)"

text \<open>A run of the service, with its exchanges in order.\<close>

inductive service_run ::
  "(nat \<Rightarrow> bool) \<Rightarrow> service \<Rightarrow> (nat \<times> int \<times> bytes) list \<Rightarrow> service \<Rightarrow> bool" for U where
  none: "service_run U A [] A"
| snoc: "service_run U A es B \<Longrightarrow> exchanged U e B C \<Longrightarrow> service_run U A (es @ [e]) C"

text \<open>
  The detailed server with its history: the lines with which threads have started an exchange, in the
  order in which they did, which is the order in which they took the mutex.
\<close>

definition taken :: "nat option \<Rightarrow> 'w server \<Rightarrow> (nat \<times> int \<times> bytes) list" where
  "taken l S =
     (case l of
        None \<Rightarrow> []
      | Some i \<Rightarrow>
          (case thr S i of
             Some (In_command, t) \<Rightarrow>
               (case string_at (sh_mem S) (recvBuffer t) of
                  Inl e \<Rightarrow> []
                | Inr str \<Rightarrow> [(i, cfd (threadData t), str)])
           | _ \<Rightarrow> []))"

inductive server_history ::
  "(nat \<Rightarrow> 'w os) \<Rightarrow> ('w \<Rightarrow> 'w \<Rightarrow> bool) \<Rightarrow> 'w server \<Rightarrow> (nat \<times> int \<times> bytes) list \<Rightarrow> 'w server \<Rightarrow> bool"
  for os env S0 where
  start: "server_history os env S0 [] S0"
| step: "server_history os env S0 es S \<Longrightarrow> server_step os env l S S' \<Longrightarrow>
    server_history os env S0 (es @ taken l S) S'"

lemma server_history_run: "server_history os env S0 es S \<Longrightarrow> server_run os env (\<lambda>l. True) S0 S"
  by (induction rule: server_history.induct) (auto intro: server_run.intros)

lemma server_run_history: "server_run os env (\<lambda>l. True) S0 S \<Longrightarrow> \<exists>es. server_history os env S0 es S"
  by (induction rule: server_run.induct) (auto intro: server_history.intros)

text \<open>An exchange without an interruption is one line of the history.\<close>

lemma history_block:
  assumes "server_history os env S0 es S" "thr S i = Some (p, t)" "load S t = t"
    and "thread_step (os i) p t = Some x"
  shows "server_history os env S0 (es @ taken (Some i) S) (store S i x)"
  using server_history.step [OF assms(1) server_step.run [OF assms(2)]] assms(3,4) by simp

lemma store_store [simp]: "store (store S i x) i y = store S i y"
  by (simp add: store_def Let_def)

lemma history_next:
  assumes "server_history os env S0 es (store S i (p, t))" "thread_step (os i) p t = Some x"
  shows "server_history os env S0 (es @ taken (Some i) (store S i (p, t))) (store S i x)"
proof -
  have "load (store S i (p, t)) t = t" by (simp add: load_def store_def)
  from history_block [OF assms(1) _ this assms(2)] show ?thesis by simp
qed

lemma echo_history:
  "echo_loop o1 n t = Some r \<Longrightarrow> r = Inr (Continue t') \<Longrightarrow> o1 = os i \<Longrightarrow> thr S i = Some (In_echo n, t) \<Longrightarrow>
    load S t = t \<Longrightarrow> server_history os env S0 es S \<Longrightarrow> server_history os env S0 es (store S i (In_close, t'))"
proof (induction o1 n t r arbitrary: S rule: echo_loop.raw_induct [rotated, consumes 1, case_names 1])
  case (1 loop o1 n t r)
  note block = history_block [OF 1(7,5,6)]
  have none: "taken (Some i) S = []" using 1(5) by (simp add: taken_def)
  show ?case
  proof (cases "\<exists>t1. echo_round o1 n t = Inr (Again t1)")
    case True
    then obtain t1 where t1: "echo_round o1 n t = Inr (Again t1)" by blast
    then have "server_history os env S0 es (store S i (In_echo n, t1))"
      using block 1(4) none by fastforce
    moreover have "load (store S i (In_echo n, t1)) t1 = t1" by (simp add: load_def store_def)
    ultimately show ?thesis
      using 1(1) [of o1 n t1 r "store S i (In_echo n, t1)"] 1(2-4) t1 by simp
  next
    case False
    then have "echo_round o1 n t = Inr (Continue t')" using 1(2,3) by (auto split: sum.splits outcome.splits)
    then show ?thesis using block [where x = "(In_close, t')"] 1(4) none by simp
  qed
qed

lemma exchange_history:
  assumes hist: "server_history os env S0 es S" and t: "thr S i = Some (At_lock, t)" "load S t = t"
    and ex: "exchange (os i) t = Some (Inr (Continue t'))" "string_at (mem t) (recvBuffer t) = Inr str"
  shows "server_history os env S0 (es @ [(i, cfd (threadData t), str)]) (store S i (At_start, t'))"
proof -
  obtain w f where o: "os_open (os i) (world t) = (w, f)" by fastforce
  let ?t1 = "t\<lparr>global_mutex := True, world := w, global_fd := f\<rparr>"
  have m: "\<not> global_mutex t" using ex(1) by (auto simp: exchange_def split: if_splits)
  then have "server_history os env S0 es (store S i (In_command, ?t1))"
    using history_block [OF hist t] t(1) o by (simp add: taken_def)
  note h1 = history_next [OF this]
  have run: "obind (Some (command_block (os i) ?t1)) (\<lambda>r. case r of Continue u \<Rightarrow> reply (os i) u | _ \<Rightarrow> Some (Inr r))
      = Some (Inr (Continue t'))"
    using ex m o by (simp add: exchange_def command_block_def Let_def)
  then obtain t2 where t2: "command_block (os i) ?t1 = Inr (Continue t2)" "reply (os i) t2 = Some (Inr (Continue t'))"
    using no_again(3) [of "os i" ?t1]
    by (cases "command_block (os i) ?t1"; cases "projr (command_block (os i) ?t1)") auto
  then have "server_history os env S0 (es @ [(i, cfd (threadData t), str)]) (store S i (In_position, t2))"
    using h1 [of "(In_position, t2)"] ex(2) by (simp add: taken_def)
  note h2 = history_next [OF this]
  obtain t3 n t4 where t3: "position_reply (os i) t2 = Inr (Continue t3, n)"
    "echo_loop (os i) n t3 = Some (Inr (Continue t4))"
    "t' = t4\<lparr>world := os_close (os i) (world t4) (global_fd t4), global_mutex := False\<rparr>"
    using t2(2) no_again(4) [of "os i" t2]
    by (auto simp: reply_def obind_def split: option.splits sum.splits outcome.splits prod.splits)
  then have "server_history os env S0 (es @ [(i, cfd (threadData t), str)]) (store S i (In_echo n, t3))"
    using h2 [of "(In_echo n, t3)"] by (simp add: taken_def)
  moreover have "load (store S i (In_echo n, t3)) t3 = t3" by (simp add: load_def store_def)
  ultimately have "server_history os env S0 (es @ [(i, cfd (threadData t), str)]) (store S i (In_close, t4))"
    using echo_history [of "os i" n t3 _ t4 os i "store S i (In_echo n, t3)"] t3(2) by simp
  from history_next [OF this] t3(3) show ?thesis by (simp add: taken_def)
qed

section \<open>What a block keeps of the thread\<close>

text \<open>Before the mutex, \<open>ioctlCmdRecv\<close> stays as it is.\<close>

definition flag_kept :: "'w thread \<Rightarrow> 'w thread outcome result \<Rightarrow> bool" where
  "flag_kept t r \<longleftrightarrow>
     (\<forall>t'. r = Inr (Continue t') \<or> r = Inr (Again t') \<longrightarrow> ioctlCmdRecv t' = ioctlCmdRecv t)"

lemma flag_kept_simps [simp]:
  "flag_kept t (Inl e)" "flag_kept t (Inr (Returned t'))"
  "flag_kept t (Inr (Continue t')) = (ioctlCmdRecv t' = ioctlCmdRecv t)"
  "flag_kept t (Inr (Again t')) = (ioctlCmdRecv t' = ioctlCmdRecv t)"
  by (auto simp: flag_kept_def)

lemma return_complete_flag [simp]: "flag_kept t (return_complete u)"
  by (cases "freeBuffers (mem u) (recvBuffer u) (sendBuffer u)") (auto simp: return_complete_def)

lemma check_newline_flag: "ioctlCmdRecv u = ioctlCmdRecv t \<Longrightarrow> flag_kept t (check_newline u)"
  by (cases "put_bytes (mem u) (recvBuffer u) (bufferSize u - 1) [NUL]";
      cases "string_at (projr (put_bytes (mem u) (recvBuffer u) (bufferSize u - 1) [NUL])) (recvBuffer u)")
    (auto simp: check_newline_def)

lemma start_message_flag: "flag_kept t (start_message os t)"
  by (auto simp: start_message_def Let_def split: prod.splits)

lemma grow_buffer_flag: "ioctlCmdRecv u = ioctlCmdRecv t \<Longrightarrow> flag_kept t (grow_buffer os u)"
  by (auto simp: grow_buffer_def Let_def intro!: check_newline_flag split: prod.splits option.splits)

lemma recv_round_flag: "flag_kept t (recv_round os t)"
proof -
  obtain w r where r: "os_recv os (world t) (cfd (threadData t)) (nat (bufferSize t - bufferIndex t - 1)) = (w, r)"
    by fastforce
  show ?thesis
  proof (cases "poll_exit os (world t)")
    case True
    then show ?thesis
      by (cases "freeBuffers (mem t) (recvBuffer t) (sendBuffer t)") (auto simp: recv_round_eq)
  next
    case False
    show ?thesis
    proof (cases r)
      case (Some bs)
      then show ?thesis using False r
        by (cases "put_bytes (mem t) (recvBuffer t) (bufferIndex t) bs")
          (auto simp: recv_round_eq Let_def intro!: check_newline_flag grow_buffer_flag)
    qed (use False r in \<open>simp add: recv_round_eq Let_def\<close>)
  qed
qed

lemma exit_check_flag: "flag_kept t (exit_check os t)"
  by (cases rule: exit_check_cases [of os t]) (simp_all add: recv_round_flag)

lemma receive_flag: "flag_kept t (receive os t)"
  unfolding receive_round by (rule recv_round_flag)

lemma block_end_flag:
  "flag_kept t r \<Longrightarrow> block_end p q t r = (p', t') \<Longrightarrow> ioctlCmdRecv t' = ioctlCmdRecv t \<or> p' = Gone"
  by (cases "(p, q, t, r)" rule: block_end.cases) auto

section \<open>The interface\<close>

text \<open>
  \<open>shared_device\<close> is the device of \<open>echo_device\<close> as several threads share it: thread \<open>i\<close> makes its calls
  through \<open>os_of i\<close>. Allocation and \<open>recv\<close> do not touch the device, nothing but \<open>send\<close> sends, a failed
  \<open>send\<close> has sent a part, and reading behind the end gives nothing.
\<close>

locale shared_device =
  fixes os_of :: "nat \<Rightarrow> 'w os"
    and good :: "'w \<Rightarrow> bool"
    and dev :: "'w \<Rightarrow> dev_view"
    and fpos :: "'w \<Rightarrow> int \<Rightarrow> nat option"
    and sent :: "'w \<Rightarrow> int \<Rightarrow> bytes"
    and usable :: "nat \<Rightarrow> bool"
  assumes device: "echo_device (os_of i) good dev fpos sent usable"
    and silent_law: "silent (os_of i) (\<lambda>w. (good w, dev w, fpos w, sent w))"
    and bounded_calls: "recv_ok (os_of i)" "read_ok (os_of i)"
    and unsent_law: "good w \<Longrightarrow> fpos w f = Some p \<Longrightarrow> os_write (os_of i) w f bs = (w', k) \<Longrightarrow>
        sent w' = sent w"
    and any_read_law: "good w \<Longrightarrow> fpos w f = Some p \<Longrightarrow> length (concat (commands (dev w))) < 2 ^ 63 \<Longrightarrow>
        os_read (os_of i) w f n = (w', r') \<Longrightarrow>
        good w' \<and> dev w' = dev w \<and> sent w' = sent w \<and>
        (\<exists>bs rest. r' = Some bs \<and> length bs \<le> n \<and> fpos w' f = Some (p + length bs) \<and>
           drop p (concat (commands (dev w))) = bs @ rest \<and>
           (bs = [] \<longrightarrow> n = 0 \<or> length (concat (commands (dev w))) \<le> p))"
    and any_send_law: "good w \<Longrightarrow> os_send (os_of i) w c bs = (w', k) \<Longrightarrow>
        \<exists>m. sent w' = (sent w)(c := sent w c @ take m bs) \<and> (k \<noteq> -1 \<longrightarrow> length bs \<le> m)"

sublocale shared_device \<subseteq> each: echo_device "os_of i" good dev fpos sent usable for i
  by (rule device)

context shared_device
begin

abbreviation stored_bytes :: "'w \<Rightarrow> bytes" where
  "stored_bytes w \<equiv> concat (commands (dev w))"

text \<open>What thread \<open>i\<close> has done with the line \<open>str\<close> to the device before it positions it for the reply.\<close>

definition written :: "service \<Rightarrow> nat \<Rightarrow> bytes \<Rightarrow> bool \<Rightarrow> dev_view \<Rightarrow> bool" where
  "written A i str seeking v \<longleftrightarrow> nl \<in> set str \<and>
     (if take (length kIOCtrlStr) str = kIOCtrlStr then v = sv_dev A \<and> seeking
      else (seeking \<longrightarrow> i \<in> sv_seeked A) \<and> (\<exists>n \<le> length str. v = spec_write (sv_dev A) (take n str)))"

text \<open>
  The detailed state behind the state \<open>A\<close> of the service, while connection \<open>c\<close> still is to be sent
  \<open>owing\<close>, and \<open>es\<close> is the exchange that has been started but not made by the service: the device already
  holds its line when the thread positions the device, and the service makes its step there.
\<close>

fun stage ::
  "service \<Rightarrow> (nat \<times> int \<times> bytes) list \<Rightarrow> int \<Rightarrow> bytes \<Rightarrow> nat \<Rightarrow> pc \<Rightarrow> 'w thread \<Rightarrow> bool" where
  "stage A es c owing i In_command t \<longleftrightarrow>
     good (world t) \<and> dev (world t) = sv_dev A \<and> owing = [] \<and> es = [] \<and>
     fpos (world t) (global_fd t) \<noteq> None"
| "stage A es c owing i In_position t \<longleftrightarrow>
     good (world t) \<and> owing = [] \<and> fpos (world t) (global_fd t) \<noteq> None \<and>
     (\<exists>str. es = [(i, cfd (threadData t), str)] \<and> written A i str (ioctlCmdRecv t) (dev (world t)))"
| "stage A es c owing i (In_echo n) t \<longleftrightarrow>
     good (world t) \<and> dev (world t) = sv_dev A \<and> c = cfd (threadData t) \<and> es = [] \<and>
     length (stored_bytes (world t)) < 2 ^ 63 \<and>
     (\<exists>q. fpos (world t) (global_fd t) = Some q \<and>
        owing = (if to_size_t n = 0 then [] else drop q (stored_bytes (world t))))"
| "stage A es c owing i In_close t \<longleftrightarrow> good (world t) \<and> dev (world t) = sv_dev A \<and> owing = [] \<and> es = []"
| "stage A es c owing i p t \<longleftrightarrow> True"

text \<open>Where \<open>ioctlCmdRecv\<close> says that a seek command of the thread is part of the service's state.\<close>

fun settled :: "pc \<Rightarrow> bool" where
  "settled In_position = False"
| "settled Gone = False"
| "settled (Faulted e) = False"
| "settled p = True"

definition serves :: "'w server \<Rightarrow> (nat \<times> int \<times> bytes) list \<Rightarrow> service \<Rightarrow> bool" where
  "serves S es A \<longleftrightarrow>
     (\<exists>c owing.
        sv_sent A = (sent (sh_world S))(c := sent (sh_world S) c @ owing) \<and>
        (\<not> sh_mutex S \<longrightarrow> good (sh_world S) \<and> dev (sh_world S) = sv_dev A \<and> owing = [] \<and> es = []) \<and>
        length es \<le> 1 \<and>
        (\<forall>i p t. thr S i = Some (p, t) \<longrightarrow>
           stage A es c owing i p (load S t) \<and> (settled p \<longrightarrow> ioctlCmdRecv t \<longrightarrow> i \<in> sv_seeked A)))"

lemma stage_outside: "\<not> critical p \<Longrightarrow> stage A es c owing i p t"
  by (cases p) auto

lemma stage_cong:
  assumes "good (world t') = good (world t)" "dev (world t') = dev (world t)" "fpos (world t') = fpos (world t)"
    and "global_fd t' = global_fd t" "threadData t' = threadData t" "ioctlCmdRecv t' = ioctlCmdRecv t"
  shows "stage A es c owing i p t' = stage A es c owing i p t"
  using assms by (cases p) auto

lemma stage_echo_dev:
  "stage B es c owing i (In_echo n) t \<Longrightarrow> sv_dev A = sv_dev B \<Longrightarrow> stage A es c owing i (In_echo n) t"
  unfolding stage.simps by metis

lemma load_client [simp]: "threadData (load S t) = threadData t" "ioctlCmdRecv (load S t) = ioctlCmdRecv t"
  by (simp_all add: load_def)

lemma load_store [simp]: "load (store S i (p, t)) t = t"
  by (simp add: load_def store_def)

section \<open>The blocks with the mutex\<close>

abbreviation left_with :: "'w thread \<Rightarrow> pc \<Rightarrow> 'w thread \<Rightarrow> bool" where
  "left_with t p' t' \<equiv>
     (p' = Gone \<or> (\<exists>e. p' = Faulted e)) \<and> sent (world t') = sent (world t) \<and> global_mutex t' = global_mutex t"

lemma return_complete_left:
  "block_end p q t (return_complete u) = (p', t') \<Longrightarrow> sent (world u) = sent (world t) \<Longrightarrow>
    global_mutex u = global_mutex t \<Longrightarrow> left_with t p' t'"
  by (cases "freeBuffers (mem u) (recvBuffer u) (sendBuffer u)") (auto simp: return_complete_def)

lemma command_serves:
  assumes st: "stage A es c owing i In_command t" "ioctlCmdRecv t \<longrightarrow> i \<in> sv_seeked A"
    and ok: "thread_ok In_command t" and step: "thread_step (os_of i) In_command t = Some (p', t')"
  shows "\<exists>str. string_at (mem t) (recvBuffer t) = Inr str \<and>
    ((p' = In_position \<and> stage A [(i, cfd (threadData t), str)] c owing i In_position t' \<and>
      sent (world t') = sent (world t) \<and> global_mutex t' = global_mutex t) \<or> left_with t p' t')"
proof -
  obtain str where str: "ready t str" using ok by auto
  note s = ready_string [OF str] and h = ready_holds [OF str]
  obtain p where p: "fpos (world t) (global_fd t) = Some p" using st(1) by auto
  have g: "good (world t)" "dev (world t) = sv_dev A" "owing = []" using st(1) by auto
  have step': "block_end In_position In_command t (command_block (os_of i) t) = (p', t')" using step by simp
  have "(p' = In_position \<and> stage A [(i, cfd (threadData t), str)] c owing i In_position t' \<and>
      sent (world t') = sent (world t) \<and> global_mutex t' = global_mutex t) \<or> left_with t p' t'"
  proof (cases "take (length kIOCtrlStr) str = kIOCtrlStr")
    case True
    show ?thesis
    proof (cases "parse_seekto (drop (length kIOCtrlStr) str)")
      case (Inl e)
      then show ?thesis using step' s True by (auto simp: command_block_def seek_command_def Let_def)
    next
      case (Inr arg)
      obtain w k where io: "os_ioctl (os_of i) (world t) (global_fd t) arg = (w, k)" by fastforce
      obtain a where a: "recvBuffer t = Some (a, 0)" using h by (auto simp: holds_at_def)
      show ?thesis
      proof (cases "k = 0")
        case k: True
        have "good w \<and> dev w = dev (world t) \<and> sent w = sent (world t) \<and> fpos w (global_fd t) \<noteq> None"
          using each.ioctl_law [OF g(1) p] io k by blast
        moreover have "written A i str True (dev (world t))" using g(2) True s by (auto simp: written_def)
        ultimately show ?thesis using step' s True Inr io k g(3)
          by (auto simp: command_block_def seek_command_def Let_def)
      next
        case k: False
        have "freeBuffers (mem t) (Some (a, length kIOCtrlStr)) (sendBuffer t) = Inl BadFree"
          by (simp add: freeBuffers_def free_def kIOCtrlStr_def)
        then show ?thesis using step' s True Inr io k a
          by (auto simp: command_block_def seek_command_def return_complete_def Let_def)
      qed
    qed
  next
    case False
    obtain w k where wr: "os_write (os_of i) (world t) (global_fd t) str = (w, k)" by fastforce
    have cb: "command_block (os_of i) t =
        (if k = -1 then return_complete (t\<lparr>world := w\<rparr>) else Inr (Continue (t\<lparr>world := w\<rparr>)))"
      using s False wr by (simp add: command_block_def write_command_def)
    note snt = unsent_law [OF g(1) p wr]
    show ?thesis
    proof (cases "k = -1")
      case True
      then show ?thesis using return_complete_left [of _ _ t "t\<lparr>world := w\<rparr>" p' t'] step' cb snt by auto
    next
      case k: False
      have "str \<noteq> []" using s by auto
      from each.write_law [OF g(1) p wr k this] have w: "0 \<le> k" "k \<le> int (length str)" "good w"
        "fpos w (global_fd t) \<noteq> None" "dev w = spec_write (dev (world t)) (take (nat k) str)" by blast+
      have "written A i str (ioctlCmdRecv t) (dev w)"
        unfolding written_def using False s st(2) w(1,2,5) g(2)
        by (auto intro!: exI [of _ "nat k"])
      then show ?thesis using step' cb k w snt g(3) by auto
    qed
  qed
with s show ?thesis by blast
qed

text \<open>What the service does when the device is positioned for the reply.\<close>

lemma written_exchanged:
  assumes "written A i str seeking v" and "seeking \<or> q = 0 \<or> \<not> usable (size_of v) \<and> q = size_of v"
  shows "\<exists>A'. exchanged usable (i, c, str) A A' \<and> sv_dev A' = v \<and> sv_seeked A \<subseteq> sv_seeked A' \<and>
    (seeking \<longrightarrow> i \<in> sv_seeked A') \<and> sv_sent A' = (sv_sent A)(c := sv_sent A c @ drop q (concat (commands v)))"
proof (cases "take (length kIOCtrlStr) str = kIOCtrlStr")
  case True
  then have v: "nl \<in> set str" "v = sv_dev A" using assms(1) by (auto simp: written_def)
  note e = exchanged.seek [OF True v(1), of usable i c A q]
  show ?thesis by (rule exI, rule conjI [OF e]) (use v in \<open>auto simp: send_from_def\<close>)
next
  case False
  then obtain n where n: "n \<le> length str" "v = spec_write (sv_dev A) (take n str)" "seeking \<longrightarrow> i \<in> sv_seeked A"
    "nl \<in> set str"
    using assms(1) by (auto simp: written_def)
  have "i \<notin> sv_seeked A \<Longrightarrow> q = 0 \<or> \<not> usable (size_of v) \<and> q = size_of v" using n(3) assms(2) by blast
  from False n(4,1,2) this have e: "exchanged usable (i, c, str) A (send_from (A\<lparr>sv_dev := v\<rparr>) c q)"
    by (rule exchanged.line)
  show ?thesis by (rule exI, rule conjI [OF e]) (use n in \<open>auto simp: send_from_def\<close>)
qed

text \<open>
  Positioning: the seeks leave the device open and as it is. When the reported size cannot be used, the
  thread closes the device, releases the mutex and returns, or it replies with nothing.
\<close>

abbreviation gives_up :: "'w thread \<Rightarrow> pc \<Rightarrow> 'w thread \<Rightarrow> bool" where
  "gives_up t p' t' \<equiv> p' = Gone \<and> \<not> global_mutex t' \<and> good (world t') \<and> dev (world t') = dev (world t) \<and>
     sent (world t') = sent (world t) \<and> (stored_bytes (world t) = [] \<or> \<not> usable (size_of (dev (world t))))"

abbreviation positioned_at :: "nat \<Rightarrow> 'w thread \<Rightarrow> bool" where
  "positioned_at q t \<equiv> ioctlCmdRecv t \<or> q = 0 \<or> \<not> usable (size_of (dev (world t))) \<and> q = size_of (dev (world t))"

lemma position_serves:
  assumes st: "stage A es c owing i In_position t"
    and small: "length (stored_bytes (world t)) < 2 ^ 63"
    and step: "thread_step (os_of i) In_position t = Some (p', t')"
  shows "(\<exists>q n. p' = In_echo n \<and> positioned_at q t \<and>
      stage (A\<lparr>sv_dev := dev (world t)\<rparr>) [] (cfd (threadData t)) (drop q (stored_bytes (world t))) i p' t' \<and>
      sent (world t') = sent (world t) \<and> global_mutex t' = global_mutex t \<and>
      ioctlCmdRecv t' = ioctlCmdRecv t) \<or> gives_up t p' t' \<or> left_with t p' t'"
proof -
  let ?os = "os_of i" and ?f = "global_fd t"
  define s1 offset where "s1 = (if ioctlCmdRecv t
      then t\<lparr>world := fst (os_lseek ?os (world t) ?f 0 SEEK_CUR)\<rparr> else t)"
    and "offset = (if ioctlCmdRecv t then snd (os_lseek ?os (world t) ?f 0 SEEK_CUR) else 0)"
  obtain p where p: "fpos (world t) ?f = Some p" using st by auto
  have g: "good (world t)" using st by simp
  have s1: "good (world s1)" "dev (world s1) = dev (world t)" "sent (world s1) = sent (world t)"
    "fpos (world s1) ?f \<noteq> None"
    using g p each.seek_law [OF g p, of i 0 SEEK_CUR]
    by (cases "os_lseek ?os (world t) ?f 0 SEEK_CUR"; auto simp: s1_def)+
  then obtain p1 where p1: "fpos (world s1) ?f = Some p1" by blast
  obtain w2 e where e: "os_lseek ?os (world s1) ?f 0 SEEK_END = (w2, e)" by fastforce
  have w2: "good w2" "dev w2 = dev (world t)" "sent w2 = sent (world t)" "fpos w2 ?f \<noteq> None"
    using each.seek_law [OF s1(1) p1 e] s1 by simp_all
  then obtain p2 where p2: "fpos w2 ?f = Some p2" by blast
  let ?e = "to_int e" and ?v = "dev (world t)"
  have unusable: "?e = 0 \<or> ?e = -1 \<Longrightarrow> stored_bytes (world t) = [] \<or> \<not> usable (size_of ?v)"
    using each.seek_end_law [OF s1(1) p1 _ _ e] s1(2) by (auto simp: size_of_def)
  obtain w3 x where se: "os_lseek ?os w2 ?f offset SEEK_SET = (w3, x)" by fastforce
  have w3: "good w3" "dev w3 = dev (world t)" "sent w3 = sent (world t)" "fpos w3 ?f \<noteq> None"
    using each.seek_law [OF w2(1) p2 se] w2 by simp_all
  then obtain q where q: "fpos w3 ?f = Some q" by blast
  have q0: "ioctlCmdRecv t \<or> q = 0"
    using each.seek_set_law [OF w2(1) p2 _ _ se] q by (cases "ioctlCmdRecv t") (simp_all add: offset_def)
  obtain w4 b h where c: "os_calloc ?os w3 (mem t) (to_size_t ?e) = (w4, b, h)" by (metis prod_cases3)
  have w4: "good w4" "dev w4 = dev (world t)" "sent w4 = sent (world t)" "fpos w4 ?f = Some q"
    using each.calloc_law [OF w3(1) c] w3 q by simp_all
  let ?u = "s1\<lparr>world := w4, mem := h, sendBuffer := b\<rparr>"
  let ?z = "s1\<lparr>world := os_close ?os w2 ?f, global_mutex := False\<rparr>"
  have u: "global_fd s1 = ?f" "mem s1 = mem t" "global_mutex ?u = global_mutex t"
    "ioctlCmdRecv ?u = ioctlCmdRecv t" "threadData ?u = threadData t" "global_fd ?u = ?f"
    by (simp_all add: s1_def)
  have eq: "position_reply ?os t =
      (if ?e = -1 then rbind (return_complete ?z) (\<lambda>r. Inr (r, ?e))
       else if b = None then rbind (return_complete ?u) (\<lambda>r. Inr (r, ?e)) else Inr (Continue ?u, ?e))"
    using e se c by (auto simp: position_reply_def s1_def offset_def Let_def split: prod.splits)
  consider (closed) "?e = -1" | (nomem) "?e \<noteq> -1" "b = None" | (goes) "?e \<noteq> -1" "b \<noteq> None" by blast
  then show ?thesis
  proof cases
    case closed
    have z: "good (world ?z)" "dev (world ?z) = ?v" "sent (world ?z) = sent (world t)"
      using each.close_law [OF w2(1), of i ?f] w2 by simp_all
    show ?thesis
    proof (cases "freeBuffers (mem ?z) (recvBuffer ?z) (sendBuffer ?z)")
      case (Inl err)
      then show ?thesis using step eq closed by (auto simp: return_complete_def)
    next
      case (Inr h')
      then have "p' = Gone" "global_mutex t' = False" "world t' = world ?z"
        using step eq closed by (auto simp: return_complete_def)
      then show ?thesis using z unusable closed by simp
    qed
  next
    case nomem
    then show ?thesis using step eq w4(3) u(3)
      by (cases "freeBuffers (mem ?u) (recvBuffer ?u) (sendBuffer ?u)") (auto simp: return_complete_def)
  next
    case goes
    then have t': "p' = In_echo ?e" "t' = ?u" using step eq by auto
    define q' where "q' = (if to_size_t ?e = 0 then size_of ?v else q)"
    have "positioned_at q' t"
    proof (cases "to_size_t ?e = 0")
      case True
      then have "?e = 0" using to_size_t_pos [of e] by auto
      then have "stored_bytes (world t) = [] \<or> \<not> usable (size_of ?v)" using unusable by blast
      then show ?thesis using True by (auto simp: q'_def size_of_def)
    qed (use q0 in \<open>auto simp: q'_def\<close>)
    moreover have "stage (A\<lparr>sv_dev := ?v\<rparr>) [] (cfd (threadData t)) (drop q' (stored_bytes (world t))) i p' t'"
      unfolding t' using w4 u small by (auto simp: q'_def size_of_def)
    ultimately show ?thesis using t' w4 u by (intro disjI1 exI [of _ q'] exI [of _ ?e]) simp
  qed
qed

text \<open>A round of the echo loop sends the next bytes of what is owed.\<close>

lemma echo_serves:
  assumes st: "stage A es c owing i (In_echo n) t"
    and step: "thread_step (os_of i) (In_echo n) t = Some (p', t')"
  shows "\<exists>m. sent (world t') = (sent (world t))(c := sent (world t) c @ take m owing) \<and>
    global_mutex t' = global_mutex t \<and>
    (p' = Gone \<or> (\<exists>e. p' = Faulted e) \<or>
     stage A es c (drop m owing) i p' t' \<and> critical p' \<and> settled p' \<and> ioctlCmdRecv t' = ioctlCmdRecv t)"
proof -
  obtain q where q: "fpos (world t) (global_fd t) = Some q"
    "owing = (if to_size_t n = 0 then [] else drop q (stored_bytes (world t)))"
    and g: "good (world t)" "dev (world t) = sv_dev A" "c = cfd (threadData t)"
    "length (stored_bytes (world t)) < 2 ^ 63" "es = []"
    using st by auto
  obtain w r where c: "os_read (os_of i) (world t) (global_fd t) (to_size_t n) = (w, r)" by fastforce
  from any_read_law [OF g(1) q(1) g(4) c] obtain bs rst where
    r: "good w" "dev w = dev (world t)" "sent w = sent (world t)" "r = Some bs"
    "fpos w (global_fd t) = Some (q + length bs)" "drop q (stored_bytes (world t)) = bs @ rst"
    "bs = [] \<Longrightarrow> to_size_t n = 0 \<or> length (stored_bytes (world t)) \<le> q" "length bs \<le> to_size_t n"
    by blast
  have owed: "bs \<noteq> [] \<Longrightarrow> owing = bs @ rst" using q(2) r(6,8) by (cases bs) auto
  let ?b = "map_option (\<lambda>a. (a, 0)) (sendBuffer t)"
  show ?thesis
  proof (cases "put_bytes (mem t) ?b 0 bs")
    case (Inl e)
    then have "p' = Faulted e" "t' = t" using step c r(4) by (auto simp: echo_round_def)
    then show ?thesis by (intro exI [of _ 0]) simp
  next
    case h: (Inr h)
    show ?thesis
    proof (cases "bs = []")
      case True
      then have "owing = []" using r(7) [OF True] q(2) by auto
      moreover have "p' = In_close" "t' = t\<lparr>world := w, mem := h\<rparr>"
        using step c r(4) h True by (auto simp: echo_round_def)
      ultimately show ?thesis using r g by (intro exI [of _ 0]) simp
    next
      case False
      obtain blk where blk: "block_from h ?b = Inr blk" "take (length bs) blk = bs"
        using h by (auto simp: put_bytes_def block_from_def Let_def split: option.splits if_splits)
      obtain w' k where s: "os_send (os_of i) w c bs = (w', k)" by fastforce
      let ?t = "t\<lparr>mem := h, world := w'\<rparr>"
      have er: "echo_round (os_of i) n t = (if k = -1 then return_complete ?t else Inr (Again ?t))"
        using c r(4) h False blk s g(3) by (simp add: echo_round_def Let_def)
      obtain m where m: "sent w' = (sent w)(c := sent w c @ take m bs)" "k \<noteq> -1 \<Longrightarrow> length bs \<le> m"
        using any_send_law [OF r(1) s] by blast
      show ?thesis
      proof (cases "k = -1")
        case True
        then have quits: "(p', t') = (Gone, t') \<and> world t' = w' \<and> global_mutex t' = global_mutex t \<or>
            (\<exists>e. p' = Faulted e) \<and> t' = t"
          using er step by (cases "freeBuffers h (recvBuffer t) (sendBuffer t)") (auto simp: return_complete_def)
        note owed = owed [OF \<open>bs \<noteq> []\<close>]
        from quits show ?thesis
        proof
          assume "(p', t') = (Gone, t') \<and> world t' = w' \<and> global_mutex t' = global_mutex t"
          then show ?thesis using m(1) r(3) owed by (intro exI [of _ "min m (length bs)"]) (simp add: min_def)
        next
          assume "(\<exists>e. p' = Faulted e) \<and> t' = t"
          then show ?thesis by (intro exI [of _ 0]) simp
        qed
      next
        case False
        note w' = each.send_law [OF r(1) s False]
        have "p' = In_echo n" "t' = ?t" using er False step by auto
        moreover have "rst = drop (q + length bs) (stored_bytes (world t))"
          using arg_cong [OF r(6), of "drop (length bs)"] by (simp add: add.commute)
        moreover have "to_size_t n \<noteq> 0" using r(8) \<open>bs \<noteq> []\<close> by (cases bs) auto
        ultimately show ?thesis using w' r g m False owed [OF \<open>bs \<noteq> []\<close>]
          by (intro exI [of _ "length bs"]) simp
      qed
    qed
  qed
qed

section \<open>The simulation\<close>

lemma serves_update:
  assumes alone: "\<And>j q u. j \<noteq> i \<Longrightarrow> thr S j = Some (q, u) \<Longrightarrow> \<not> critical q" and sv: "serves S es A"
    and new: "sv_sent A' = (sent (world t'))(c := sent (world t') c @ owing)" "sv_seeked A \<subseteq> sv_seeked A'"
      "\<not> global_mutex t' \<Longrightarrow> good (world t') \<and> dev (world t') = sv_dev A' \<and> owing = [] \<and> es' = []"
      "length es' \<le> 1" "stage A' es' c owing i p' t'"
      "settled p' \<Longrightarrow> ioctlCmdRecv t' \<Longrightarrow> i \<in> sv_seeked A'"
  shows "serves (store S i (p', t')) es' A'"
proof -
  have others: "stage A' es' c owing j q (load (store S i (p', t')) u) \<and>
      (settled q \<longrightarrow> ioctlCmdRecv u \<longrightarrow> j \<in> sv_seeked A')"
    if "j \<noteq> i" "thr S j = Some (q, u)" for j q u
  proof -
    have "\<not> critical q" using alone [OF that] .
    then show ?thesis using sv that(2) new(2) stage_outside unfolding serves_def by blast
  qed
  show ?thesis unfolding serves_def
  proof (intro exI conjI allI impI)
    show "sv_sent A' = (sent (sh_world (store S i (p', t'))))
        (c := sent (sh_world (store S i (p', t'))) c @ owing)" using new(1) by simp
    fix j q u
    assume j: "thr (store S i (p', t')) j = Some (q, u)"
    show "stage A' es' c owing j q (load (store S i (p', t')) u)"
      using j others new(5) by (cases "j = i") auto
    show "j \<in> sv_seeked A'" if "settled q" "ioctlCmdRecv u"
      using j that others new(6) by (cases "j = i") auto
  qed (use new(3,4) in auto)
qed

lemma outside_flag:
  assumes "thread_step os p t = Some (p', t')" "p = At_start \<or> p = At_recv \<or> p = In_recv"
  shows "ioctlCmdRecv t' = ioctlCmdRecv t \<or> p' = Gone"
proof -
  have "block_end At_recv At_start t (start_message os t) = (p', t') \<or>
      block_end In_recv At_recv t (exit_check os t) = (p', t') \<or>
      block_end At_lock At_recv t (receive os t) = (p', t')"
    using assms by auto
  then show ?thesis
    using block_end_flag [OF start_message_flag, of At_recv At_start t os p' t']
      block_end_flag [OF exit_check_flag, of In_recv At_recv t os p' t']
      block_end_flag [OF receive_flag, of At_lock At_recv t os p' t'] by auto
qed

text \<open>A step that leaves the device, the descriptor and the mutex alone.\<close>

lemma serves_frame:
  assumes sv: "serves S es A"
    and same: "good (sh_world S') = good (sh_world S)" "dev (sh_world S') = dev (sh_world S)"
      "fpos (sh_world S') = fpos (sh_world S)" "sent (sh_world S') = sent (sh_world S)"
      "sh_mutex S' = sh_mutex S" "sh_fd S' = sh_fd S"
    and thr: "\<And>j q u. thr S' j = Some (q, u) \<Longrightarrow> thr S j = Some (q, u) \<or>
      \<not> critical q \<and> (settled q \<longrightarrow> ioctlCmdRecv u \<longrightarrow> j \<in> sv_seeked A)"
  shows "serves S' es A"
proof -
  obtain c owing where A: "sv_sent A = (sent (sh_world S))(c := sent (sh_world S) c @ owing)"
    "\<not> sh_mutex S \<longrightarrow> good (sh_world S) \<and> dev (sh_world S) = sv_dev A \<and> owing = [] \<and> es = []" "length es \<le> 1"
    "\<And>i p t. thr S i = Some (p, t) \<Longrightarrow>
      stage A es c owing i p (load S t) \<and> (settled p \<longrightarrow> ioctlCmdRecv t \<longrightarrow> i \<in> sv_seeked A)"
    using sv unfolding serves_def by blast
  have "stage A es c owing j q (load S' u) \<and> (settled q \<longrightarrow> ioctlCmdRecv u \<longrightarrow> j \<in> sv_seeked A)"
    if "thr S' j = Some (q, u)" for j q u
    using thr [OF that]
  proof
    assume "thr S j = Some (q, u)"
    then show ?thesis using A(4) stage_cong [of "load S' u" "load S u"] same by simp
  qed (use stage_outside in blast)
  then show ?thesis unfolding serves_def using A(1-3) same by (intro exI [of _ c] exI [of _ owing]) simp
qed

text \<open>
  A step of the server is a step of the service or none; the exchange of a thread is started in the
  history before the service makes it.
\<close>

lemma taken_other:
  assumes "l = Some i \<Longrightarrow> thr S i = Some (p, t) \<and> p \<noteq> In_command" "l = None \<or> l = Some i"
  shows "taken l S = []"
  using assms by (cases p) (auto simp: taken_def)

lemma serves_step:
  assumes step: "server_step os_of env l S S'" and sv: "serves S es A"
    and mi: "mutex_inv S" and hi: "heap_inv S"
    and env: "\<And>w w'. env w w' \<Longrightarrow> (good w', dev w', fpos w', sent w') = (good w, dev w, fpos w, sent w)"
  shows "serves S' (es @ taken l S) A \<or>
    (\<exists>e A'. es = [e] \<and> taken l S = [] \<and> exchanged usable e A A' \<and>
       (serves S' [] A' \<or> big A' \<and> \<not> length (stored_bytes (sh_world S)) < 2 ^ 63))"
  using step
proof (cases rule: server_step.cases)
  case (spawn i td)
  then have "serves S' es A" by (intro serves_frame [OF sv]) (auto simp: fresh_thread_def split: if_splits)
  then show ?thesis using spawn(1) by (simp add: taken_def)
next
  case (outside w)
  then have "serves S' es A" using env [OF outside(3)] by (intro serves_frame [OF sv]) auto
  then show ?thesis using outside(1) by (simp add: taken_def)
next
  case (run i p t x)
  obtain p' t' where x: "x = (p', t')" by fastforce
  note st = run(4) [unfolded x] and S' = run(2) [unfolded x]
  obtain c owing where A: "sv_sent A = (sent (sh_world S))(c := sent (sh_world S) c @ owing)"
    "\<not> sh_mutex S \<Longrightarrow> good (sh_world S) \<and> dev (sh_world S) = sv_dev A \<and> owing = [] \<and> es = []"
    "stage A es c owing i p (load S t)" "settled p \<Longrightarrow> ioctlCmdRecv t \<Longrightarrow> i \<in> sv_seeked A" "length es \<le> 1"
    using sv run(3) unfolding serves_def by blast
  have ok: "thread_ok p (load S t)" using hi run(3) unfolding heap_inv_def by blast
  have m: "sh_mutex S" if "critical p"
    using mi run(3) that unfolding mutex_inv_def in_critical_def by blast
  have alone: "\<not> critical q" if "critical p \<or> \<not> sh_mutex S" "j \<noteq> i" "thr S j = Some (q, u)" for j q u
    using mi run(3) that unfolding mutex_inv_def in_critical_def by blast
  note update = serves_update [OF alone sv]
  have none: "taken l S = []" if "p \<noteq> In_command"
    using run(1,3) that by (intro taken_other [of _ i _ p t]) auto
  have frame: "serves S' es A" if p: "p = At_start \<or> p = At_recv \<or> p = In_recv"
  proof -
    note o = outside_step [OF st p silent_law]
    have "ioctlCmdRecv t' = ioctlCmdRecv t \<or> p' = Gone" using outside_flag [OF st p] by simp
    then have "settled p' \<longrightarrow> ioctlCmdRecv t' \<longrightarrow> i \<in> sv_seeked A" using A(4) p by auto
    then show ?thesis unfolding S' using o by (intro serves_frame [OF sv]) (auto simp: keeps_def split: if_splits)
  qed
  show ?thesis
  proof (cases p)
    case At_lock
    obtain w f where o: "os_open (os_of i) (sh_world S) = (w, f)" by fastforce
    have free: "\<not> sh_mutex S" using st At_lock by (simp split: if_splits)
    have t': "p' = In_command" "t' = (load S t)\<lparr>global_mutex := True, world := w, global_fd := f\<rparr>"
      using st At_lock free o by auto
    have "good w \<and> dev w = sv_dev A \<and> sent w = sent (sh_world S) \<and> fpos w f \<noteq> None"
      using each.open_law [OF _ o] A(2) [OF free] by auto
    then have "serves S' es A" unfolding S' using A(1,4) A(2) [OF free] t' free At_lock
      by (intro update [where c = c and owing = owing]) simp_all
    then show ?thesis using none At_lock by simp
  next
    case In_command
    have crit: "critical p" using In_command by simp
    from command_serves [OF A(3) [unfolded In_command] _ ok [unfolded In_command] st [unfolded In_command]]
    obtain str where str: "string_at (sh_mem S) (recvBuffer t) = Inr str"
      and "(p' = In_position \<and> stage A [(i, cfd (threadData t), str)] c owing i In_position t' \<and>
          sent (world t') = sent (sh_world S) \<and> global_mutex t' = sh_mutex S) \<or> left_with (load S t) p' t'"
      using A(4) In_command by auto
    then consider (goes) "p' = In_position" "stage A [(i, cfd (threadData t), str)] c owing i In_position t'"
      "sent (world t') = sent (sh_world S)" "global_mutex t'"
    | (leaves) "left_with (load S t) p' t'"
      using m [OF crit] by blast
    then have "serves S' [(i, cfd (threadData t), str)] A"
    proof cases
      case goes
      then show ?thesis unfolding S' using A(1) crit
        by (intro update [where c = c and owing = owing]) simp_all
    next
      case leaves
      then show ?thesis unfolding S' using A(1) crit m [OF crit] stage_outside
        by (intro update [where c = c and owing = owing]) auto
    qed
    moreover have "taken l S = [(i, cfd (threadData t), str)]" "es = []"
      using run(1,3) In_command str A(3) by (simp_all add: taken_def)
    ultimately show ?thesis by simp
  next
    case In_position
    let ?w = "sh_world S" and ?c = "cfd (threadData t)"
    have crit: "critical p" using In_position by simp
    obtain str where w: "es = [(i, ?c, str)]" "written A i str (ioctlCmdRecv t) (dev ?w)" "owing = []"
      using A(3) In_position by auto
    show ?thesis
    proof (cases "length (stored_bytes ?w) < 2 ^ 63")
      case False
      have "ioctlCmdRecv t \<or> (0 :: nat) = 0 \<or> \<not> usable (size_of (dev ?w)) \<and> 0 = size_of (dev ?w)" by simp
      from written_exchanged [OF w(2) this, of ?c] obtain A' where
        "exchanged usable (i, ?c, str) A A'" "sv_dev A' = dev ?w" by blast
      with False w(1) none In_position show ?thesis by (auto simp: big_def size_of_def)
    next
      case True
      have small: "length (stored_bytes (world (load S t))) < 2 ^ 63" using True by simp
      from position_serves [OF A(3) [unfolded In_position] small st [unfolded In_position]]
      consider (goes) q n where "p' = In_echo n"
          "stage (A\<lparr>sv_dev := dev (world (load S t))\<rparr>) [] (cfd (threadData (load S t)))
             (drop q (stored_bytes (world (load S t)))) i p' t'"
          "positioned_at q (load S t)" "sent (world t') = sent (world (load S t))"
          "global_mutex t' = global_mutex (load S t)" "ioctlCmdRecv t' = ioctlCmdRecv (load S t)"
        | (gives_up) "gives_up (load S t) p' t'"
        | (leaves) "left_with (load S t) p' t'"
        by blast
      then show ?thesis
      proof cases
        case goes
        have "ioctlCmdRecv t \<or> q = 0 \<or> \<not> usable (size_of (dev ?w)) \<and> q = size_of (dev ?w)"
          using goes(3) by simp
        from written_exchanged [OF w(2) this, of ?c] obtain A' where A':
          "exchanged usable (i, ?c, str) A A'" "sv_dev A' = dev ?w" "sv_seeked A \<subseteq> sv_seeked A'"
          "ioctlCmdRecv t \<longrightarrow> i \<in> sv_seeked A'"
          "sv_sent A' = (sv_sent A)(?c := sv_sent A ?c @ drop q (stored_bytes ?w))" by blast
        have "serves S' [] A'" unfolding S'
        proof (rule update [where c = ?c and owing = "drop q (stored_bytes ?w)"])
          have "sv_sent A = sent ?w" using A(1) w(3) by simp
          then show "sv_sent A' = (sent (world t'))(?c := sent (world t') ?c @ drop q (stored_bytes ?w))"
            unfolding A'(5) goes(4) by simp
          show "stage A' [] ?c (drop q (stored_bytes ?w)) i p' t'"
            using stage_echo_dev [OF goes(2) [unfolded goes(1) load_simps load_client], of A'] A'(2)
            unfolding goes(1) load_simps by (simp del: stage.simps)
        qed (use A'(3,4) goes(5,6) crit m [OF crit] in simp_all)
        with A'(1) w(1) none In_position show ?thesis by blast
      next
        case gives_up
        define q where "q = (if stored_bytes ?w = [] then 0 else size_of (dev ?w))"
        have "ioctlCmdRecv t \<or> q = 0 \<or> \<not> usable (size_of (dev ?w)) \<and> q = size_of (dev ?w)"
          using gives_up by (auto simp: q_def)
        from written_exchanged [OF w(2) this, of ?c] obtain A' where A':
          "exchanged usable (i, ?c, str) A A'" "sv_dev A' = dev ?w" "sv_seeked A \<subseteq> sv_seeked A'"
          "sv_sent A' = (sv_sent A)(?c := sv_sent A ?c @ drop q (stored_bytes ?w))" by blast
        have "drop q (stored_bytes ?w) = []" by (simp add: q_def size_of_def)
        then have "sv_sent A' = sent ?w" using A(1) A'(4) w(3) by simp
        then have "serves S' [] A'" unfolding S' using gives_up A'(2,3) crit
          by (intro update [where c = ?c and owing = "[]"]) auto
        with A'(1) w(1) none In_position show ?thesis by blast
      next
        case leaves
        then have "serves S' es A" unfolding S' using A(1,5) crit m [OF crit] stage_outside
          by (intro update [where c = c and owing = owing]) auto
        then show ?thesis using none In_position by simp
      qed
    qed
  next
    case (In_echo n)
    have crit: "critical p" using In_echo by simp
    from echo_serves [OF A(3) [unfolded In_echo] st [unfolded In_echo]] obtain k where k:
      "sent (world t') = (sent (sh_world S))(c := sent (sh_world S) c @ take k owing)" "global_mutex t'"
      "p' = Gone \<or> (\<exists>e. p' = Faulted e) \<or>
       stage A es c (drop k owing) i p' t' \<and> critical p' \<and> settled p' \<and> ioctlCmdRecv t' = ioctlCmdRecv t"
      using m [OF crit] by auto
    have "serves S' es A" unfolding S'
      by (rule update [where c = c and owing = "drop k owing"])
        (use A(1,4,5) k crit In_echo stage_outside in auto)
    then show ?thesis using none In_echo by simp
  next
    case In_close
    have crit: "critical p" using In_close by simp
    have t': "p' = At_start"
      "t' = (load S t)\<lparr>world := os_close (os_of i) (sh_world S) (sh_fd S), global_mutex := False\<rparr>"
      using st In_close by auto
    have "good (world t') \<and> dev (world t') = sv_dev A \<and> sent (world t') = sent (sh_world S) \<and> owing = [] \<and> es = []"
      using each.close_law [of "sh_world S" i "sh_fd S"] A(3) In_close t' by auto
    then have "serves S' es A" unfolding S' using A(1,4) crit t' In_close
      by (intro update [where c = c and owing = owing]) simp_all
    then show ?thesis using none In_close by simp
  qed (use frame none st in simp_all)
qed

lemma serves_initial:
  "idle S0 \<Longrightarrow> good (sh_world S0) \<Longrightarrow>
    serves S0 [] \<lparr>sv_dev = dev (sh_world S0), sv_sent = sent (sh_world S0), sv_seeked = {}\<rparr>"
  unfolding serves_def by (intro exI [of _ 0] exI [of _ "[]"]) (simp add: idle_def)

text \<open>
  A history of the server from an idle state is a run of the service, up to the exchange that is being
  made; until the device holds more than an \<open>off_t\<close> can count.
\<close>

lemma history_serves:
  assumes hist: "server_history os_of env S0 es S"
    and S0: "idle S0" "good (sh_world S0)"
    and env: "\<And>w w'. env w w' \<Longrightarrow> (good w', dev w', fpos w', sent w') = (good w, dev w, fpos w, sent w)"
  shows "\<exists>es1 es2 A. es = es1 @ es2 \<and>
    service_run usable \<lparr>sv_dev = dev (sh_world S0), sv_sent = sent (sh_world S0), sv_seeked = {}\<rparr> es1 A \<and>
    (serves S es2 A \<or> big A)"
  using hist
proof (induction rule: server_history.induct)
  case start
  show ?case using serves_initial [OF S0] service_run.none by fastforce
next
  case (step es S l S')
  obtain es1 es2 A where A: "es = es1 @ es2"
    "service_run usable \<lparr>sv_dev = dev (sh_world S0), sv_sent = sent (sh_world S0), sv_seeked = {}\<rparr> es1 A"
    "serves S es2 A \<or> big A" using step.IH by blast
  have run: "server_run os_of env (\<lambda>l. True) S0 S" using server_history_run [OF step.hyps(1)] .
  have inv: "mutex_inv S" "heap_inv S"
    using mutex_inv_run [OF run] heap_inv_run [OF run] S0 bounded_calls each.alloc
    by (auto simp: idle_def mutex_inv_def in_critical_def heap_inv_def)
  show ?case
  proof (cases "serves S es2 A")
    case False
    with A have "es @ taken l S = es1 @ (es2 @ taken l S)" "big A" by auto
    with A(2) show ?thesis by blast
  next
    case True
    from serves_step [OF step.hyps(2) True inv env] show ?thesis
    proof
      assume "serves S' (es2 @ taken l S) A"
      with A(1,2) show ?thesis by (intro exI [of _ es1] exI [of _ "es2 @ taken l S"] exI [of _ A]) simp
    next
      assume "\<exists>e A'. es2 = [e] \<and> taken l S = [] \<and> exchanged usable e A A' \<and>
        (serves S' [] A' \<or> big A' \<and> \<not> length (stored_bytes (sh_world S)) < 2 ^ 63)"
      then obtain e A' where e: "es2 = [e]" "taken l S = []" "exchanged usable e A A'" "serves S' [] A' \<or> big A'" by blast
      with A(1) have "es @ taken l S = (es1 @ [e]) @ []" by simp
      with service_run.snoc [OF A(2) e(3)] e(4) show ?thesis by blast
    qed
  qed
qed

end

end
