(* ===== verification/Device_Service.thy ===== *)
theory Device_Service
  imports Server_Service Server_Concurrent
begin

text \<open>
  Server and driver together, with any number of connection threads in any interleaving: the driver
  satisfies the interface \<open>shared_device\<close>, and the whole is a service that makes one
  exchange after the other.
\<close>

section \<open>The driver is the device the threads share\<close>

text \<open>The system calls of thread \<open>i\<close>; \<open>stop i\<close> says whether the thread is asked to exit.\<close>

definition driver_threads ::
  "kernel \<Rightarrow> (devworld \<Rightarrow> u64) \<Rightarrow> (devworld \<Rightarrow> int \<Rightarrow> bytes \<Rightarrow> nat option) \<Rightarrow>
   (nat \<Rightarrow> devworld \<Rightarrow> bool) \<Rightarrow> nat \<Rightarrow> devworld os" where
  "driver_threads K junk net stop i = (driver_os K junk net)\<lparr>poll_exit := stop i\<rparr>"

lemma driver_threads_calls [simp]:
  "os_calloc (driver_threads K junk net stop i) = chunk_calloc" "os_realloc (driver_threads K junk net stop i) = chunk_realloc"
  "os_recv (driver_threads K junk net stop i) = os_recv (driver_os K junk net)"
  "os_send (driver_threads K junk net stop i) = os_send (driver_os K junk net)"
  "os_open (driver_threads K junk net stop i) = os_open (driver_os K junk net)"
  "os_close (driver_threads K junk net stop i) = os_close (driver_os K junk net)"
  "os_write (driver_threads K junk net stop i) = vfs_write K aesd_fops"
  "os_read (driver_threads K junk net stop i) = vfs_read K aesd_fops"
  "os_lseek (driver_threads K junk net stop i) = (\<lambda>w. vfs_lseek K (junk w) aesd_fops w)"
  "os_ioctl (driver_threads K junk net stop i) = os_ioctl (driver_os K junk net)"
  by (simp_all add: driver_threads_def driver_os_def)

lemma poll_calls:
  "os_calloc (os\<lparr>poll_exit := e\<rparr>) = os_calloc os" "os_realloc (os\<lparr>poll_exit := e\<rparr>) = os_realloc os"
  "os_recv (os\<lparr>poll_exit := e\<rparr>) = os_recv os" "os_send (os\<lparr>poll_exit := e\<rparr>) = os_send os"
  "os_open (os\<lparr>poll_exit := e\<rparr>) = os_open os" "os_close (os\<lparr>poll_exit := e\<rparr>) = os_close os"
  "os_write (os\<lparr>poll_exit := e\<rparr>) = os_write os" "os_read (os\<lparr>poll_exit := e\<rparr>) = os_read os"
  "os_lseek (os\<lparr>poll_exit := e\<rparr>) = os_lseek os" "os_ioctl (os\<lparr>poll_exit := e\<rparr>) = os_ioctl os"
  by simp_all

lemma echo_device_poll:
  "echo_device os good dev fpos sent usable \<Longrightarrow>
    echo_device (os\<lparr>poll_exit := e\<rparr>) good dev fpos sent usable"
  unfolding echo_device_def alloc_ok_def poll_calls .

lemma aesd_read_count:
  assumes "kernel_ok K" "aesd_read K s filp buf count fpos = (s', fp, out, r)"
  shows "length out \<le> unat count"
proof (cases "out = []")
  case False
  then obtain h a off n b where n: "in_block h a off n" "copy_to_user K h a off n = (b, out)" "n \<le> count"
    using assms(2) by (auto simp: aesd_read_def Let_def split: option.splits prod.splits if_splits sum.splits)
  obtain p blk where "a = Some p" "h p = Some blk" "unat off + unat n \<le> length blk"
    using n(1) by (auto simp: in_block_def split: option.splits)
  then have "out = take (unat n - unat b) (drop (unat off) blk)"
    using n(2) assms(1) unfolding kernel_ok_def copy_to_user_ok_def by blast
  then show ?thesis using n(3) by (simp add: word_le_nat_alt)
qed simp

lemma vfs_read_bounded:
  assumes "kernel_ok K" "vfs_read K aesd_fops w f n = (w', Some bs)"
  shows "length bs \<le> n"
proof -
  obtain fl where fl: "dw_files w f = Some fl" using assms(2) by (cases "dw_files w f") (auto simp: vfs_read_def)
  let ?c = "of_nat (min n MAX_RW_COUNT) :: u64"
  obtain s fp out r where
    rd: "aesd_read K (dw_state w) (Some fl) (Some 0) ?c (Some (f_pos fl)) = (s, fp, out, r)"
    by (metis prod_cases4)
  then obtain k where k: "r = Inr k" "bs = take (unat k) out"
    using assms(2) fl by (cases r) (auto simp: vfs_read_def aesd_fops_def)
  have "length out \<le> unat ?c" by (rule aesd_read_count [OF assms(1) rd])
  moreover have "unat ?c = min n MAX_RW_COUNT" by (rule unat_u64_of_nat) (simp add: MAX_RW_COUNT_def)
  ultimately show ?thesis using k(2) by (simp add: min.coboundedI1)
qed

lemma vfs_write_sent: "vfs_write K fops w f bs = (w', k) \<Longrightarrow> dw_sent w' = dw_sent w"
  by (auto simp: vfs_write_def Let_def split: option.splits prod.splits)

sublocale quiet_driver \<subseteq> shared: shared_device "driver_threads K junk net stop" dw_good dw_dev dw_fpos dw_sent
    "reports junk" for stop
proof (rule shared_device.intro)
  show "echo_device (driver_threads K junk net stop i) dw_good dw_dev dw_fpos dw_sent (reports junk)" for i
    unfolding driver_threads_def by (rule echo_device_poll [OF echo.echo_device_axioms])
  show "silent (driver_threads K junk net stop i) (\<lambda>w. (dw_good w, dw_dev w, dw_fpos w, dw_sent w))" for i
    by (auto simp: silent_def chunk_calloc_def chunk_realloc_def driver_os_def dw_good_def dw_dev_def
        dw_fpos_def fun_eq_iff Let_def split: option.splits list.splits)
  show "recv_ok (driver_threads K junk net stop i)" for i
    by (auto simp: recv_ok_def driver_os_def split: list.splits)
  show "read_ok (driver_threads K junk net stop i)" for i
    using vfs_read_bounded [OF kernel(1)] by (auto simp: read_ok_def)
  show "dw_sent w' = dw_sent w" if "os_write (driver_threads K junk net stop i) w f bs = (w', k)" for i w f bs w' k
    using vfs_write_sent that by simp
  show "dw_good w' \<and> dw_dev w' = dw_dev w \<and> dw_sent w' = dw_sent w \<and>
      (\<exists>bs rest. r' = Some bs \<and> length bs \<le> n \<and> dw_fpos w' f = Some (p + length bs) \<and>
         drop p (concat (commands (dw_dev w))) = bs @ rest \<and>
         (bs = [] \<longrightarrow> n = 0 \<or> length (concat (commands (dw_dev w))) \<le> p))"
    if "dw_good w" "dw_fpos w f = Some p" "length (concat (commands (dw_dev w))) < 2 ^ 63"
      "os_read (driver_threads K junk net stop i) w f n = (w', r')" for i w f p n w' r'
    using vfs_read_law [OF quiet that(1-3)] that(4) by simp
  show "\<exists>m. dw_sent w' = (dw_sent w)(c := dw_sent w c @ take m bs) \<and> (k \<noteq> -1 \<longrightarrow> length bs \<le> m)"
    if "os_send (driver_threads K junk net stop i) w c bs = (w', k)" for i w c bs w' k
    using that by (cases "net w c bs")
      (auto simp: driver_os_def intro: exI [of _ "length bs"])
qed

section \<open>An instance\<close>

text \<open>A client sends a line to a server whose device holds two.\<close>

definition line_server :: "devworld server" where
  "line_server = \<lparr>sh_world = dw_example\<lparr>dw_input := [''ld'' @ [nl]]\<rparr>, sh_mem = Map.empty, sh_mutex = False,
     sh_fd = 0, thr = Map.empty\<rparr>"

abbreviation ref_threads :: "nat \<Rightarrow> devworld os" where
  "ref_threads \<equiv> driver_threads reference_kernel no_junk sends (\<lambda>i. dw_exit)"

lemma ref_threads_driver: "ref_threads i = driver_os reference_kernel no_junk sends"
  by (simp add: driver_threads_def driver_os_def)

lemma line_received:
  "\<exists>t. server_history ref_threads (=) line_server [] (store line_server 0 (At_lock, t)) \<and>
     ready t (''ld'' @ [nl]) \<and> world t = dw_example \<and> \<not> global_mutex t \<and> \<not> ioctlCmdRecv t \<and>
     cfd (threadData t) = 5 \<and> ref_fresh (mem t) \<noteq> None"
proof -
  let ?blk = "''ld'' @ nl # replicate 125 NUL"
  let ?t0 = "fresh_thread line_server td_example"
  let ?t1 = "?t0\<lparr>mem := [0 \<mapsto> replicate 128 NUL], recvBuffer := Some (0, 0), bufferSize := 128, bufferIndex := 0\<rparr>"
  let ?t2 = "?t1\<lparr>world := dw_example, mem := [0 \<mapsto> ?blk], bufferIndex := 3\<rparr>"
  have "server_history ref_threads (=) line_server [] (store line_server 0 (At_start, ?t0))"
    using server_history.step [OF server_history.start server_step.spawn, of line_server 0 ref_threads "(=)" td_example]
    by (simp add: taken_def store_def fresh_thread_def line_server_def)
  note spawned = this
  have "start_message (ref_threads 0) ?t0 = Inr (Continue ?t1)"
    by (simp add: start_message_def chunk_calloc_def ref_fresh_def fresh_thread_def line_server_def
        kBufferStartLength_def upt_rec)
  then have "server_history ref_threads (=) line_server [] (store line_server 0 (At_recv, ?t1))"
    using history_next [OF spawned, of "(At_recv, ?t1)"] by (simp add: taken_def)
  note checked = history_next [OF this, of "(In_recv, ?t1)"]
  have no_exit: "poll_exit (ref_threads 0) (world ?t1) = False"
    by (simp add: driver_threads_def fresh_thread_def line_server_def dw_example_def)
  then have "exit_check (ref_threads 0) ?t1 = Inr (Continue ?t1)" by (simp add: exit_check_def)
  then have "server_history ref_threads (=) line_server [] (store line_server 0 (In_recv, ?t1))"
    using checked by (simp add: taken_def)
  note received = history_next [OF this, of "(At_lock, ?t2)"]
  have "receive (ref_threads 0) ?t1 = Inr (Continue ?t2)"
  proof -
    have r: "os_recv (ref_threads 0) (world ?t1) 5 127 = (dw_example, Some (''ld'' @ [nl]))"
      by (simp add: driver_os_def fresh_thread_def line_server_def dw_example_def)
    have p: "put_bytes [0 \<mapsto> replicate 128 NUL] (Some (0, 0)) 0 (''ld'' @ [nl]) = Inr [0 \<mapsto> ?blk]"
      by (simp add: put_bytes_def)
    have "?blk = (''ld'' @ nl # replicate 124 NUL) @ [NUL]" using replicate_add [of 124 1 NUL] by simp
    then have z: "put_bytes [0 \<mapsto> ?blk] (Some (0, 0)) 127 [NUL] = Inr [0 \<mapsto> ?blk]"
      by (simp add: put_bytes_def)
    have "string_at [0 \<mapsto> ?blk] (Some (0, 0)) = Inr (''ld'' @ [nl])"
      by (simp add: string_at_def block_from_def cstring_def NUL_def)
    then have "check_newline ?t2 = Inr (Continue ?t2)"
      using z by (simp add: check_newline_def strchr_None_iff)
    moreover have "cfd (threadData ?t1) = 5" by (simp add: fresh_thread_def td_example_def)
    ultimately show ?thesis using r p by (simp add: receive_def)
  qed
  then have "server_history ref_threads (=) line_server [] (store line_server 0 (At_lock, ?t2))"
    using received by (simp add: taken_def)
  moreover have "ready ?t2 (''ld'' @ [nl])"
    unfolding ready_def
    by (rule exI [of _ 0], rule exI [of _ ?blk]) (simp add: holds_buffers_def cstring_def NUL_def fresh_thread_def)
  ultimately show ?thesis
    by (intro exI [of _ ?t2]) (auto simp: fresh_thread_def line_server_def td_example_def
        ref_fresh_def upt_rec)
qed

text \<open>The line is answered, and the mutex is free again.\<close>

lemma line_answered_run:
  "\<exists>S. server_history ref_threads (=) line_server [(0, 5, ''ld'' @ [nl])] S \<and> \<not> sh_mutex S \<and>
     dw_sent (sh_world S) 5 = ''hi'' @ [nl] @ ''world'' @ [nl]"
proof -
  obtain t where t: "server_history ref_threads (=) line_server [] (store line_server 0 (At_lock, t))"
    "ready t (''ld'' @ [nl])" "world t = dw_example" "\<not> global_mutex t" "\<not> ioctlCmdRecv t"
    "cfd (threadData t) = 5" "ref_fresh (mem t) \<noteq> None"
    using line_received by blast
  obtain w' where wr: "os_write (driver_os reference_kernel no_junk sends) opened_example 3 (''ld'' @ [nl]) = (w', 3)"
    using dw_example_write [of no_junk sends] by (metis prod.collapse)
  let ?v = "spec_write (dw_dev dw_example) (''ld'' @ [nl])"
  have v: "concat (commands ?v) = ''hi'' @ [nl] @ ''world'' @ [nl]"
    by (simp add: dw_dev_def dw_example_def view_example spec_write_def push_window_def)
  obtain p where p: "dw_fpos w' 3 = Some p"
    using ref.echo.write_law [of opened_example 3 0 "''ld'' @ [nl]" w' 3] wr
      ref.echo.open_law [OF dw_example_good dw_example_open] by auto
  have sn: "dw_sent (world t) 5 = []" using t(3) by (simp add: dw_example_def)
  have pre: "dw_good (world t)" "take (length kIOCtrlStr) (''ld'' @ [nl]) \<noteq> kIOCtrlStr"
    "os_open (driver_os reference_kernel no_junk sends) (world t) = (opened_example, 3)" "(3 :: int) \<noteq> -1"
    "ioctlCmdRecv t \<longrightarrow> p < 2 ^ 63" "?v = spec_write (dw_dev (world t)) (take (nat 3) (''ld'' @ [nl]))"
    "concat (commands ?v) \<noteq> []" "reports no_junk (length (concat (commands ?v)))"
    using t(3,5) dw_example_good dw_example_open v by (simp_all add: kIOCtrlStr_def reports_zero)
  from ref.line_answered_fully [OF pre(1) t(4) t(2) pre(2,3) wr pre(4) p pre(5-8) HOL.refl t(7)]
  have "\<exists>s'. exchange (driver_os reference_kernel no_junk sends) t = Some (Inr (Continue s')) \<and>
      dw_sent (world s') 5 = ''hi'' @ [nl] @ ''world'' @ [nl] \<and> \<not> global_mutex s'"
    using t(5,6) sn v by auto
  then obtain s' where s': "exchange (ref_threads 0) t = Some (Inr (Continue s'))"
    "dw_sent (world s') 5 = ''hi'' @ [nl] @ ''world'' @ [nl]" "\<not> global_mutex s'"
    unfolding ref_threads_driver by blast
  have "load (store line_server 0 (At_lock, t)) t = t" by (simp add: load_def store_def)
  moreover have "string_at (mem t) (recvBuffer t) = Inr (''ld'' @ [nl])" using ready_string [OF t(2)] by blast
  ultimately have "server_history ref_threads (=) line_server [(0, 5, ''ld'' @ [nl])] (store line_server 0 (At_start, s'))"
    using exchange_history [OF t(1), of 0 t s'] s'(1) t(6) by simp
  with s'(2,3) show ?thesis by (intro exI [of _ "store line_server 0 (At_start, s')"]) simp
qed

section \<open>Properties\<close>

context quiet_driver
begin

lemma history_of_service:
  assumes "server_history (driver_threads K junk net stop) env S0 es S" "idle S0" "dw_good (sh_world S0)"
    and "\<And>w w'. env w w' \<Longrightarrow> dw_state w' = dw_state w \<and> dw_files w' = dw_files w \<and> dw_sent w' = dw_sent w"
  shows "\<exists>es1 es2 A. es = es1 @ es2 \<and>
    service_run (reports junk) \<lparr>sv_dev = dw_dev (sh_world S0), sv_sent = dw_sent (sh_world S0), sv_seeked = {}\<rparr> es1 A \<and>
    (big A \<or> length es2 \<le> 1 \<and>
     (\<exists>c missing. sv_sent A = (dw_sent (sh_world S))(c := dw_sent (sh_world S) c @ missing) \<and>
        (\<not> sh_mutex S \<longrightarrow> es2 = [] \<and> missing = [] \<and> dw_dev (sh_world S) = sv_dev A)))"
proof -
  have env: "(dw_good w', dw_dev w', dw_fpos w', dw_sent w') = (dw_good w, dw_dev w, dw_fpos w, dw_sent w)"
    if "env w w'" for w w'
    using assms(4) [OF that] by (simp add: dw_good_def dw_dev_def dw_fpos_def fun_eq_iff)
  have "\<exists>es1 es2 A. es = es1 @ es2 \<and>
      service_run (reports junk) \<lparr>sv_dev = dw_dev (sh_world S0), sv_sent = dw_sent (sh_world S0), sv_seeked = {}\<rparr> es1 A \<and>
      (shared.serves S es2 A \<or> big A)"
    by (rule shared.history_serves [OF assms(1-3)]) (rule env)
  then obtain es1 es2 A where A: "es = es1 @ es2"
    "service_run (reports junk) \<lparr>sv_dev = dw_dev (sh_world S0), sv_sent = dw_sent (sh_world S0), sv_seeked = {}\<rparr> es1 A"
    "shared.serves S es2 A \<or> big A" by blast
  from A(3) have big_or_served: "big A \<or> length es2 \<le> 1 \<and>
      (\<exists>c missing. sv_sent A = (dw_sent (sh_world S))(c := dw_sent (sh_world S) c @ missing) \<and>
      (\<not> sh_mutex S \<longrightarrow> es2 = [] \<and> missing = [] \<and> dw_dev (sh_world S) = sv_dev A))"
    unfolding shared.serves_def by blast
  show ?thesis
    by (rule exI [of _ es1], rule exI [of _ es2], rule exI [of _ A], rule conjI [OF A(1)], rule conjI [OF A(2)],
        rule big_or_served)
qed

end


text \<open>What the service does with one line.\<close>

lemma service_run_one:
  assumes "service_run U A [e] B"
  shows "exchanged U e A B"
  using assms by (cases rule: service_run.cases) (auto elim: service_run.cases)

lemma example_not_big:
  assumes "exchanged U (0, 5, ''ld'' @ [nl]) A B" "sv_dev A = view (dw_state dw_example)"
  shows "\<not> big B"
  using assms(1)
proof (cases rule: exchanged.cases)
  case (line n q)
  then have "n = 0 \<or> n = 1 \<or> n = 2 \<or> n = 3" by auto
  moreover have "sv_dev B = spec_write (view (dw_state dw_example)) (take n (''ld'' @ [nl]))"
    using line assms(2) by (simp add: send_from_def)
  ultimately show ?thesis
    by (elim disjE) (simp_all add: big_def size_of_def spec_write_def push_window_def dw_example_def view_example)
next
  case (seek q)
  then have "sv_dev B = view (dw_state dw_example)" using assms(2) by (simp add: send_from_def)
  then show ?thesis by (simp add: big_def size_of_def dw_example_def view_example)
qed


end
