(* ===== verification/Server_Liveness.thy ===== *)
theory Server_Liveness
  imports Device_Service "HOL-Library.Product_Lexorder"
begin

text \<open>
  How the server comes to rest: when all connection threads are asked to exit, in every fair
  execution all of them end, unless a thread has faulted, the mutex was lost, or a client keeps a thread waiting
  in \<open>recv\<close>. The progress measure is the lexicographic pair of the program points
  of all threads and the bytes that the thread in the echo loop still has to read.
\<close>

section \<open>Executions\<close>

text \<open>
  An infinite execution with its labels, and weak fairness to every thread; but a thread before \<open>recv\<close> need
  not go on while its call waits, that is, while \<open>waits w c\<close> says that nothing arrives on its connection.
\<close>

definition execution ::
  "(nat \<Rightarrow> 'w os) \<Rightarrow> ('w \<Rightarrow> 'w \<Rightarrow> bool) \<Rightarrow> (nat \<Rightarrow> nat option) \<Rightarrow> (nat \<Rightarrow> 'w server) \<Rightarrow> bool" where
  "execution os env l f \<longleftrightarrow> (\<forall>k. server_step os env (l k) (f k) (f (Suc k)))"

definition can_step :: "(nat \<Rightarrow> 'w os) \<Rightarrow> 'w server \<Rightarrow> nat \<Rightarrow> bool" where
  "can_step os S i \<longleftrightarrow> (\<exists>p t. thr S i = Some (p, t) \<and> thread_step (os i) p (load S t) \<noteq> None)"

definition kept_waiting :: "('w \<Rightarrow> int \<Rightarrow> bool) \<Rightarrow> 'w server \<Rightarrow> nat \<Rightarrow> bool" where
  "kept_waiting waits S i \<longleftrightarrow>
     (\<exists>t. thr S i = Some (In_recv, t) \<and> waits (sh_world S) (cfd (threadData t)))"

definition fair ::
  "(nat \<Rightarrow> 'w os) \<Rightarrow> ('w \<Rightarrow> int \<Rightarrow> bool) \<Rightarrow> (nat \<Rightarrow> nat option) \<Rightarrow> (nat \<Rightarrow> 'w server) \<Rightarrow> bool" where
  "fair os waits l f \<longleftrightarrow> (\<forall>i k. \<exists>j\<ge>k. \<not> can_step os (f j) i \<or> kept_waiting waits (f j) i \<or> l j = Some i)"

lemma execution_run: "execution os env l f \<Longrightarrow> server_run os env (\<lambda>l. True) (f 0) (f k)"
  by (induction k) (auto simp: execution_def intro: server_run.intros)

text \<open>A thread can make a step unless it is over or waits for the mutex.\<close>

lemma thread_step_None:
  "thread_step os p t = None \<longleftrightarrow> p = Gone \<or> (\<exists>e. p = Faulted e) \<or> p = At_lock \<and> global_mutex t"
  by (cases p) (auto split: prod.splits)

lemma can_step_iff:
  "can_step os S i \<longleftrightarrow> (\<exists>p t. thr S i = Some (p, t) \<and>
     p \<noteq> Gone \<and> (\<forall>e. p \<noteq> Faulted e) \<and> \<not> (p = At_lock \<and> sh_mutex S))"
  by (simp add: can_step_def thread_step_None)

text \<open>
  All threads are over, or wait for a mutex that nobody will release, or inside \<open>recv\<close>: \<open>idle_client i\<close>
  says that the client of thread \<open>i\<close> keeps it waiting there.
\<close>

definition at_rest :: "'w server \<Rightarrow> (nat \<Rightarrow> bool) \<Rightarrow> bool" where
  "at_rest S idle_client \<longleftrightarrow>
     (\<forall>i p t. thr S i = Some (p, t) \<longrightarrow> p = Gone \<or> (\<exists>e. p = Faulted e) \<or>
        p = At_lock \<and> mutex_lost S \<or> p = In_recv \<and> idle_client i)"

lemma stuck_at_rest:
  assumes "\<And>i. can_step os S i \<Longrightarrow> (\<exists>t. thr S i = Some (In_recv, t)) \<and> idle_client i"
  shows "at_rest S idle_client"
proof -
  have "\<not> in_critical S j" for j
  proof
    assume "in_critical S j"
    then obtain p t where p: "thr S j = Some (p, t)" "critical p" by (auto simp: in_critical_def)
    then have "can_step os S j" by (cases p) (auto simp: can_step_iff)
    with assms p show False by fastforce
  qed
  then show ?thesis using assms unfolding at_rest_def can_step_iff mutex_lost_def by fastforce
qed

section \<open>Progress of a thread\<close>

fun rank :: "pc \<Rightarrow> nat" where
  "rank At_lock = 7"
| "rank In_command = 6"
| "rank In_position = 5"
| "rank (In_echo n) = 4"
| "rank In_close = 3"
| "rank At_start = 2"
| "rank At_recv = 1"
| "rank In_recv = 8"
| "rank Gone = 0"
| "rank (Faulted e) = 0"

lemma block_end_rank:
  assumes "block_end go again t r = (p', t')" "rank go < n" "\<And>u. r \<noteq> Inr (Again u)" "0 < n"
  shows "rank p' < n"
  using assms by (cases "(go, again, t, r)" rule: block_end.cases) auto

lemma exit_check_exit:
  assumes "poll_exit os (world t)"
  shows "(\<exists>e. exit_check os t = Inl e) \<or> (\<exists>u. exit_check os t = Inr (Returned u))"
  using assms
  by (cases "freeBuffers (mem t) (recvBuffer t) (sendBuffer t)") (auto simp: exit_check_def)

text \<open>Asked to exit, a thread comes nearer to its end with every block but a round of the echo loop.\<close>

lemma step_rank:
  assumes step: "thread_step os p t = Some (p', t')" and exit: "poll_exit os (world t)"
  shows "rank p' < rank p \<or> (\<exists>n. p = In_echo n \<and> p' = In_echo n \<and> echo_round os n t = Inr (Again t'))"
proof (cases p)
  case At_start
  then show ?thesis using step block_end_rank [OF _ _ no_again(2)] by fastforce
next
  case At_recv
  then show ?thesis using step exit_check_exit [OF exit] by auto
next
  case In_recv
  then show ?thesis using step by (cases "receive os t"; cases "projr (receive os t)") auto
next
  case At_lock
  then show ?thesis using step by (auto split: if_splits prod.splits)
next
  case In_command
  then show ?thesis using step block_end_rank [OF _ _ no_again(3)] by fastforce
next
  case In_position
  then show ?thesis using step no_again(4) [of os t]
    by (cases "position_reply os t"; cases "fst (projr (position_reply os t))") (fastforce split: prod.splits)+
next
  case (In_echo n)
  then show ?thesis using step
    by (cases "echo_round os n t"; cases "projr (echo_round os n t)") auto
qed (use step in auto)

text \<open>What all threads have before them.\<close>

definition ranks :: "'w server \<Rightarrow> nat" where
  "ranks S = (\<Sum>i\<in>dom (thr S). rank (fst (the (thr S i))))"

lemma ranks_store:
  assumes "finite (dom (thr S))" "thr S i = Some (p, t)"
  shows "ranks (store S i (p', t')) + rank p = ranks S + rank p'"
proof -
  have d: "dom (thr (store S i (p', t'))) = dom (thr S)" "i \<in> dom (thr S)" using assms(2) by auto
  have "(\<Sum>j\<in>dom (thr S) - {i}. rank (fst (the (thr (store S i (p', t')) j)))) =
      (\<Sum>j\<in>dom (thr S) - {i}. rank (fst (the (thr S j))))"
    by (intro sum.cong) auto
  then show ?thesis unfolding ranks_def d(1)
    using assms d(2) sum.remove [of "dom (thr S)" i "\<lambda>j. rank (fst (the (thr (store S i (p', t')) j)))"]
      sum.remove [of "dom (thr S)" i "\<lambda>j. rank (fst (the (thr S j)))"]
    by auto
qed

lemma finite_threads_step: "server_step os env l S S' \<Longrightarrow> finite (dom (thr S)) \<Longrightarrow> finite (dom (thr S'))"
  by (induction rule: server_step.induct) (auto simp: store_def Let_def)

lemma finite_threads_run: "server_run os env L S S' \<Longrightarrow> finite (dom (thr S)) \<Longrightarrow> finite (dom (thr S'))"
  by (induction rule: server_run.induct) (auto intro: finite_threads_step)

section \<open>Coming to rest\<close>

context shared_device
begin

definition to_read :: "'w server \<Rightarrow> nat" where
  "to_read S = length (stored_bytes (sh_world S)) - (case fpos (sh_world S) (sh_fd S) of None \<Rightarrow> 0 | Some q \<Rightarrow> q)"

text \<open>A round of the echo loop that is not the last reads and sends at least a byte.\<close>

lemma echo_again:
  assumes w: "good (world t)" "fpos (world t) (global_fd t) = Some q" "length (stored_bytes (world t)) < 2 ^ 63"
    and again: "echo_round (os_of i) n t = Inr (Again t')"
  shows "\<exists>q'. fpos (world t') (global_fd t') = Some q' \<and> q < q' \<and> q' \<le> length (stored_bytes (world t)) \<and>
    dev (world t') = dev (world t)"
proof -
  obtain w1 r where c: "os_read (os_of i) (world t) (global_fd t) (to_size_t n) = (w1, r)" by fastforce
  from any_read_law [OF w c] obtain bs rst where
    r: "good w1" "dev w1 = dev (world t)" "r = Some bs" "fpos w1 (global_fd t) = Some (q + length bs)"
    "drop q (stored_bytes (world t)) = bs @ rst" by blast
  let ?b = "map_option (\<lambda>a. (a, 0)) (sendBuffer t)"
  obtain h where h: "put_bytes (mem t) ?b 0 bs = Inr h"
    using again c r(3) by (cases "put_bytes (mem t) ?b 0 bs") (auto simp: echo_round_def)
  have bs: "bs \<noteq> []" using again c r(3) h by (auto simp: echo_round_def)
  obtain blk where blk: "block_from h ?b = Inr blk"
    using again c r(3) h bs by (cases "block_from h ?b") (auto simp: echo_round_def Let_def)
  obtain w2 k where s: "os_send (os_of i) w1 (cfd (threadData t)) (take (length bs) blk) = (w2, k)" by fastforce
  have k: "k \<noteq> -1" "t' = t\<lparr>mem := h, world := w2\<rparr>"
    using again c r(3) h bs blk s no_again(1) by (auto simp: echo_round_def Let_def split: if_splits)
  have "q + length bs \<le> length (stored_bytes (world t))"
    using arg_cong [OF r(5), of length] bs by (cases bs) auto
  then show ?thesis using each.send_law [OF r(1) s k(1)] r(2,4) k(2) bs by simp
qed

lemma served_step:
  assumes step: "server_step os_of env l S S'" and served: "\<exists>es A. serves S es A"
    and inv: "mutex_inv S" "heap_inv S"
    and env: "\<And>w w'. env w w' \<Longrightarrow> (good w', dev w', fpos w', sent w') = (good w, dev w, fpos w, sent w)"
    and small: "length (stored_bytes (sh_world S)) < 2 ^ 63"
  shows "\<exists>es A. serves S' es A"
  using served serves_step [OF step _ inv env] small by blast

text \<open>The measure: a thread step makes it smaller, other steps leave it as it is or start a thread.\<close>

abbreviation ahead :: "'w server \<Rightarrow> nat \<times> nat" where
  "ahead S \<equiv> (ranks S, to_read S)"

lemma thread_step_ahead:
  assumes step: "server_step os_of env (Some i) S S'" and served: "\<exists>es A. serves S es A"
    and fin: "finite (dom (thr S))" and exit: "poll_exit (os_of i) (sh_world S)"
    and small: "length (stored_bytes (sh_world S)) < 2 ^ 63"
  shows "ahead S' < ahead S"
  using step
proof (cases rule: server_step.cases)
  case (run p t x)
  obtain p' t' where x: "x = (p', t')" by fastforce
  note ranks = ranks_store [OF fin run(2), of p' t']
  from step_rank [OF run(3) [unfolded x]] exit
  consider "rank p' < rank p"
    | n where "p = In_echo n" "p' = In_echo n" "echo_round (os_of i) n (load S t) = Inr (Again t')" by auto
  then show ?thesis
  proof cases
    case 1
    then show ?thesis using ranks run(1) x by simp
  next
    case 2
    obtain es A c owing where "stage A es c owing i p (load S t)"
      using served run(2) unfolding serves_def by blast
    then obtain q where q: "good (sh_world S)" "fpos (sh_world S) (sh_fd S) = Some q" using 2(1) by auto
    have "length (stored_bytes (world (load S t))) < 2 ^ 63" using small by simp
    with echo_again [OF _ _ this 2(3)] q obtain q' where
      "fpos (world t') (global_fd t') = Some q'" "q < q'" "q' \<le> length (stored_bytes (sh_world S))"
      "dev (world t') = dev (sh_world S)" by auto
    then have "to_read S' < to_read S" using q(2) run(1) x by (simp add: to_read_def)
    then show ?thesis using ranks run(1) x 2 by simp
  qed
qed


text \<open>
  Without new threads the measure never grows, so thread steps die out: an execution in which the
  threads are asked to exit and the device stays within an \<open>off_t\<close> has a last thread step.
\<close>

definition calm_env :: "('w \<Rightarrow> 'w \<Rightarrow> bool) \<Rightarrow> bool" where
  "calm_env env \<longleftrightarrow>
     (\<forall>w w'. env w w' \<longrightarrow> (good w', dev w', fpos w', sent w') = (good w, dev w, fpos w, sent w))"

lemma outside_ahead:
  assumes "server_step os_of env None S S'" "dom (thr S') = dom (thr S)" "calm_env env"
  shows "ahead S' = ahead S \<and> thr S' = thr S \<and> sh_mutex S' = sh_mutex S"
  using assms by (cases rule: server_step.cases) (auto simp: ranks_def to_read_def calm_env_def)

lemma execution_served:
  assumes ex: "execution os_of env l f" and S0: "idle (f 0)" "good (sh_world (f 0))" and env: "calm_env env"
    and small: "\<And>k. length (stored_bytes (sh_world (f k))) < 2 ^ 63"
  shows "mutex_inv (f k)" and "heap_inv (f k)" and "\<exists>es A. serves (f k) es A" and "finite (dom (thr (f k)))"
proof -
  have run: "server_run os_of env (\<lambda>l. True) (f 0) (f k)" for k using execution_run [OF ex] .
  have inv: "mutex_inv (f k) \<and> heap_inv (f k)" for k
    using mutex_inv_run [OF run [of k]] heap_inv_run [OF run [of k]] S0 bounded_calls each.alloc
    by (auto simp: idle_def mutex_inv_def in_critical_def heap_inv_def)
  then show "mutex_inv (f k)" "heap_inv (f k)" by blast+
  show "finite (dom (thr (f k)))"
    using finite_threads_run [OF run] S0 by (simp add: idle_def)
  show "\<exists>es A. serves (f k) es A"
  proof (induction k)
    case 0
    show ?case using serves_initial [OF S0] by blast
  next
    case (Suc k)
    have "server_step os_of env (l k) (f k) (f (Suc k))" using ex by (simp add: execution_def)
    from served_step [OF this Suc.IH _ _ _ small] inv env show ?case by (auto simp: calm_env_def)
  qed
qed

lemma thread_steps_end:
  assumes ex: "execution os_of env l f" and S0: "idle (f 0)" "good (sh_world (f 0))" and env: "calm_env env"
    and small: "\<And>k. length (stored_bytes (sh_world (f k))) < 2 ^ 63"
    and exit: "\<And>k i. N \<le> k \<Longrightarrow> poll_exit (os_of i) (sh_world (f k))"
    and closed: "\<And>k. N \<le> k \<Longrightarrow> dom (thr (f (Suc k))) = dom (thr (f k))"
  shows "\<exists>M\<ge>N. \<forall>k\<ge>M. l k = None"
proof -
  note inv = execution_served [OF ex S0 env small]
  have step: "server_step os_of env (l k) (f k) (f (Suc k))" for k using ex by (simp add: execution_def)
  have less: "ahead (f (Suc k)) < ahead (f k)" if "N \<le> k" "l k = Some i" for k i
    using thread_step_ahead [OF step [of k, unfolded that(2)] inv(3,4) exit [OF that(1)] small] .
  have le: "ahead (f (Suc k)) \<le> ahead (f k)" if "N \<le> k" for k
    using less [OF that] outside_ahead [OF _ closed [OF that] env] step [of k]
    by (cases "l k") (auto simp del: less_prod_simp less_eq_prod_simp)
  have mono: "ahead (f j) \<le> ahead (f k)" if "N \<le> k" "k \<le> j" for j k
    using that(2)
  proof (induction j rule: dec_induct)
    case (step j)
    then show ?case using le [of j] that(1) by (meson order_trans)
  qed simp
  have "\<exists>M\<ge>k. \<forall>j\<ge>M. l j = None" if "N \<le> k" for k
    using that
  proof (induction "ahead (f k)" arbitrary: k rule: less_induct)
    case less
    show ?case
    proof (cases "\<forall>j\<ge>k. l j = None")
      case False
      then obtain j i where j: "k \<le> j" "l j = Some i" by auto
      have "ahead (f (Suc j)) < ahead (f k)"
        using \<open>\<And>k i. N \<le> k \<Longrightarrow> l k = Some i \<Longrightarrow> ahead (f (Suc k)) < ahead (f k)\<close> [of j i] mono [of k j] j less.prems
        by (meson less_le_trans order_trans)
      from less.hyps [OF this] less.prems j(1) show ?thesis by (meson le_SucI order_trans)
    qed blast
  qed
  then show ?thesis by blast
qed


lemma comes_to_rest:
  assumes ex: "execution os_of env l f" and S0: "idle (f 0)" "good (sh_world (f 0))" and env: "calm_env env"
    and small: "\<And>k. length (stored_bytes (sh_world (f k))) < 2 ^ 63"
    and exit: "\<And>k i. N \<le> k \<Longrightarrow> poll_exit (os_of i) (sh_world (f k))"
    and closed: "\<And>k. N \<le> k \<Longrightarrow> dom (thr (f (Suc k))) = dom (thr (f k))"
    and fair: "fair os_of waits l f"
  shows "\<exists>M. \<forall>k\<ge>M. l k = None \<and> at_rest (f k) (\<lambda>i. \<forall>m. \<exists>j\<ge>m. kept_waiting waits (f j) i)"
proof -
  obtain M where M: "N \<le> M" "\<And>k. M \<le> k \<Longrightarrow> l k = None"
    using thread_steps_end [OF ex S0 env small exit closed] by blast
  have same: "thr (f j) = thr (f k) \<and> sh_mutex (f j) = sh_mutex (f k)" if "M \<le> k" "k \<le> j" for j k
    using that(2)
  proof (induction j rule: dec_induct)
    case (step j)
    have "server_step os_of env None (f j) (f (Suc j))" "N \<le> j"
      using ex M step.hyps that(1) unfolding execution_def by (metis le_trans)+
    from outside_ahead [OF this(1) closed [OF this(2)] env] step.IH show ?case by simp
  qed simp
  have "at_rest (f k) (\<lambda>i. \<forall>m. \<exists>j\<ge>m. kept_waiting waits (f j) i)" if k: "M \<le> k" for k
  proof (rule stuck_at_rest)
    fix i
    assume can: "can_step os_of (f k) i"
    have waiting: "\<exists>j\<ge>max m k. kept_waiting waits (f j) i" for m
    proof -
      obtain j where j: "max m k \<le> j" "\<not> can_step os_of (f j) i \<or> kept_waiting waits (f j) i \<or> l j = Some i"
        using fair unfolding fair_def by blast
      moreover have "l j = None" using M(2) [of j] j(1) k by simp
      moreover have "can_step os_of (f j) i" using can same [OF k, of j] j(1) by (simp add: can_step_iff)
      ultimately show ?thesis by auto
    qed
    from waiting [of k] obtain j where j: "k \<le> j" "kept_waiting waits (f j) i" by auto
    then have "\<exists>t. thr (f k) i = Some (In_recv, t)" using same [OF k j(1)] by (auto simp: kept_waiting_def)
    moreover have "\<forall>m. \<exists>j\<ge>m. kept_waiting waits (f j) i" using waiting by (meson max.boundedE)
    ultimately show "(\<exists>t. thr (f k) i = Some (In_recv, t)) \<and> (\<forall>m. \<exists>j\<ge>m. kept_waiting waits (f j) i)" by blast
  qed
  with M(2) show ?thesis by blast
qed

end

section \<open>Properties\<close>

context quiet_driver
begin

lemma shutdown_rests:
  assumes "execution (driver_threads K junk net stop) env l f" "fair (driver_threads K junk net stop) waits l f"
    and "idle (f 0)" "dw_good (sh_world (f 0))"
    and "\<And>w w'. env w w' \<Longrightarrow> dw_state w' = dw_state w \<and> dw_files w' = dw_files w \<and> dw_sent w' = dw_sent w"
    and "\<And>k. length (concat (commands (dw_dev (sh_world (f k))))) < 2 ^ 63"
    and "\<And>k i. N \<le> k \<Longrightarrow> stop i (sh_world (f k))"
    and "\<And>k. N \<le> k \<Longrightarrow> dom (thr (f (Suc k))) = dom (thr (f k))"
  shows "\<exists>M. \<forall>k\<ge>M. l k = None \<and> at_rest (f k) (\<lambda>i. \<forall>m. \<exists>j\<ge>m. kept_waiting waits (f j) i)"
proof (rule shared.comes_to_rest [OF assms(1,3,4) _ assms(6) _ assms(8,2)])
  show "shared.calm_env env"
    unfolding shared.calm_env_def using assms(5) by (auto simp: dw_good_def dw_dev_def dw_fpos_def fun_eq_iff)
  show "poll_exit (driver_threads K junk net stop i) (sh_world (f k))" if "N \<le> k" for k i
    using assms(7) [OF that] by (simp add: driver_threads_def)
qed

end


text \<open>A thread that is started in a server that shuts down, and ends with its first look at the request.\<close>

abbreviation exit_threads :: "nat \<Rightarrow> devworld os" where
  "exit_threads \<equiv> driver_threads reference_kernel no_junk sends (\<lambda>i w. True)"

definition exit_thread :: "devworld thread" where
  "exit_thread = fresh_thread line_server td_example"

definition exit_run :: "nat \<Rightarrow> devworld server" where
  "exit_run k =
     (let t1 = exit_thread\<lparr>mem := [0 \<mapsto> replicate 128 NUL], recvBuffer := Some (0, 0),
                           bufferSize := 128, bufferIndex := 0\<rparr>;
          t2 = t1\<lparr>mem := Map.empty, threadData := (threadData t1)\<lparr>complete := True\<rparr>, exit_mutex := False\<rparr>
      in if k = 0 then line_server
         else if k = 1 then store line_server 0 (At_start, exit_thread)
         else if k = 2 then store line_server 0 (At_recv, t1)
         else store line_server 0 (Gone, t2))"

definition exit_labels :: "nat \<Rightarrow> nat option" where
  "exit_labels k = (if k = 1 \<or> k = 2 then Some 0 else None)"

lemma exit_run_execution: "execution exit_threads (=) exit_labels exit_run"
  unfolding execution_def
proof
  fix k :: nat
  let ?t1 = "exit_thread\<lparr>mem := [0 \<mapsto> replicate 128 NUL], recvBuffer := Some (0, 0),
    bufferSize := 128, bufferIndex := 0\<rparr>"
  let ?t2 = "?t1\<lparr>mem := Map.empty, threadData := (threadData ?t1)\<lparr>complete := True\<rparr>, exit_mutex := False\<rparr>"
  have ld: "load (store line_server 0 (p, t)) t = t" for p t by (simp add: load_def store_def)
  consider "k = 0" | "k = 1" | "k = 2" | "3 \<le> k" by linarith
  then show "server_step exit_threads (=) (exit_labels k) (exit_run k) (exit_run (Suc k))"
  proof cases
    case 1
    have "store line_server 0 (At_start, exit_thread) = line_server\<lparr>thr := (thr line_server)(0 \<mapsto> (At_start, exit_thread))\<rparr>"
      by (simp add: store_def exit_thread_def fresh_thread_def line_server_def)
    then show ?thesis using 1 server_step.spawn [of line_server 0 exit_threads "(=)" td_example]
      by (simp add: exit_run_def exit_labels_def Let_def exit_thread_def line_server_def)
  next
    case 2
    have "start_message (exit_threads 0) exit_thread = Inr (Continue ?t1)"
      by (simp add: start_message_def chunk_calloc_def ref_fresh_def exit_thread_def fresh_thread_def
          line_server_def kBufferStartLength_def upt_rec)
    then show ?thesis
      using 2 server_step.run [of "store line_server 0 (At_start, exit_thread)" 0 At_start exit_thread exit_threads
          "(At_recv, ?t1)" "(=)"]
      by (simp add: exit_run_def exit_labels_def Let_def)
  next
    case 3
    have "exit_check (exit_threads 0) ?t1 = Inr (Returned ?t2)"
      by (simp add: exit_check_def driver_threads_def freeBuffers_def free_def exit_thread_def
          fresh_thread_def)
    then show ?thesis
      using 3 server_step.run [of "store line_server 0 (At_recv, ?t1)" 0 At_recv ?t1 exit_threads "(Gone, ?t2)" "(=)"]
      by (simp add: exit_run_def exit_labels_def Let_def)
  next
    case 4
    then have "exit_run (Suc k) = exit_run k" "exit_labels k = None"
      by (auto simp: exit_run_def exit_labels_def Let_def)
    then show ?thesis using server_step.outside [of "(=)" "exit_run k" "sh_world (exit_run k)" exit_threads] by simp
  qed
qed

lemma exit_run_fair: "fair exit_threads waits exit_labels exit_run"
  unfolding fair_def
proof (intro allI)
  fix i k
  have "\<not> can_step exit_threads (exit_run (max k 3)) i"
    by (auto simp: can_step_iff exit_run_def Let_def line_server_def split: if_splits)
  then show "\<exists>j\<ge>k. \<not> can_step exit_threads (exit_run j) i \<or> kept_waiting waits (exit_run j) i \<or>
      exit_labels j = Some i"
    by (intro exI [of _ "max k 3"]) simp
qed


end
