(* ===== verification/Server_Shutdown.thy ===== *)
theory Server_Shutdown
  imports Server_Whole_Safety Server_Liveness
begin

text \<open>
  The end of the whole server. After a termination signal the main thread leaves the accept loop, asks
  every connection thread to exit and joins them; in every fair execution the process ends, unless
  the thread that is joined cannot return, and the causes for that are listed.
\<close>

section \<open>Executions\<close>

text \<open>An infinite execution; a label \<open>None\<close> is a moment in which nothing happens.\<close>

definition whole_execution ::
  "(nat \<Rightarrow> 'w os) \<Rightarrow> 'w main_os \<Rightarrow> ('w \<Rightarrow> 'w \<Rightarrow> bool) \<Rightarrow> (nat \<Rightarrow> actor option) \<Rightarrow> (nat \<Rightarrow> 'w whole) \<Rightarrow> bool" where
  "whole_execution os mos env l f \<longleftrightarrow>
     (\<forall>k. case l k of None \<Rightarrow> f (Suc k) = f k | Some a \<Rightarrow> whole_step os mos env a (f k) (f (Suc k)))"

fun enabled :: "(nat \<Rightarrow> 'w os) \<Rightarrow> 'w main_os \<Rightarrow> 'w whole \<Rightarrow> actor \<Rightarrow> bool" where
  "enabled os mos S Main_thread = (\<exists>i. thr (cst S) i = None \<and> main_step mos i S \<noteq> None)"
| "enabled os mos S (Conn_thread i) = (\<not> ended (mpc S) \<and> conn_step os i S \<noteq> None)"
| "enabled os mos S Surroundings = False"

text \<open>
  \<open>recv\<close> need not return: \<open>waits w c\<close> says that it has nothing to return for socket \<open>c\<close> in world \<open>w\<close>,
  and a thread inside the call (\<open>kept_waiting\<close>) may then stay there. The other calls return.
\<close>

text \<open>Weak fairness to the main thread and to every connection thread that does not wait in \<open>recv\<close>.\<close>

definition whole_fair ::
  "(nat \<Rightarrow> 'w os) \<Rightarrow> 'w main_os \<Rightarrow> ('w \<Rightarrow> int \<Rightarrow> bool) \<Rightarrow> (nat \<Rightarrow> actor option) \<Rightarrow> (nat \<Rightarrow> 'w whole) \<Rightarrow> bool" where
  "whole_fair os mos waits l f \<longleftrightarrow>
     (\<forall>a k. \<exists>j\<ge>k. \<not> enabled os mos (f j) a \<or> l j = Some a \<or> (\<exists>i. a = Conn_thread i \<and> kept_waiting waits (cst (f j)) i))"

text \<open>A sequence in a well-order that never grows is constant from some point on.\<close>

lemma settles:
  fixes h :: "nat \<Rightarrow> 'a :: wellorder"
  assumes "\<And>k. N \<le> k \<Longrightarrow> h (Suc k) \<le> h k"
  shows "\<exists>M\<ge>N. \<forall>k\<ge>M. h k = h M"
proof -
  have mono: "h k \<le> h j" if "N \<le> j" "j \<le> k" for j k
    using that(2)
  proof (induction k rule: dec_induct)
    case (step k)
    then show ?case using assms [of k] that(1) by (meson order_trans)
  qed simp
  define m where "m = (LEAST x. x \<in> h ` {N..})"
  have "m \<in> h ` {N..}" unfolding m_def by (rule LeastI [of _ "h N"]) simp
  then obtain M where M: "N \<le> M" "h M = m" by auto
  have "h k = h M" if "M \<le> k" for k
  proof (rule antisym)
    show "h k \<le> h M" using mono [of M k] M(1) that by simp
    have "h k \<in> h ` {N..}" using M(1) that by simp
    then show "h M \<le> h k" unfolding M(2) m_def by (rule Least_le)
  qed
  with M(1) show ?thesis by blast
qed

section \<open>Steps\<close>

lemma whole_step_inv:
  fixes S :: "'w whole" and os :: "nat \<Rightarrow> 'w os"
  assumes inv: "whole_inv mos S cs" and os: "calls_ok os" and m: "malloc_ok mos"
    and step: "whole_step os mos env a S S'"
  shows "\<exists>cs'. whole_inv mos S' cs' \<and>
    (a \<noteq> Main_thread \<longrightarrow> cs' = cs \<and> mpc S' = mpc S \<and> thread_at S' = thread_at S) \<and>
    (a = Main_thread \<longrightarrow> main_left (mpc S') cs' < main_left (mpc S) cs \<or>
       mpc S = Accepting \<and> \<not> graceful mos (sh_world (cst S)))"
  using step
proof (cases rule: whole_step.cases)
  case (main i)
  then show ?thesis using main_step_inv [OF inv os m] by blast
next
  case (conn i)
  from inv conn(3) have "mpc S' = mpc S \<and> thread_at S' = thread_at S"
    by (cases rule: conn_step_block) simp
  then show ?thesis using conn conn_step_inv [OF inv os conn(3)] by blast
next
  case (outside w)
  then show ?thesis using outside_inv [OF inv os, of w] by (intro exI [of _ cs]) simp
qed

text \<open>The main thread always has a next step, except when it waits for a thread or has ended.\<close>

lemma main_result_None:
  "main_result S go r = None \<longleftrightarrow> r = None" "(\<exists>S'. main_result S go r = Some S') \<longleftrightarrow> (\<exists>x. r = Some x)"
  by (auto simp: main_result_def split: option.splits sum.splits)

lemma remove_returned:
  assumes "main_inv (main_load S) (us @ c # vs)"
    and "c_made c \<Longrightarrow> \<exists>i. thread_at S (c_th c) = Some i \<and> returned S i"
  shows "remove_node (main_calls mos S) (c_node c) (main_load S) \<noteq> None"
proof -
  have "conn_ok (main_load S) c" using assms(1) by (simp add: main_inv_def)
  then have "remove_node (main_calls mos S) (c_node c) (main_load S) = Some (Inl Undefined)" if "\<not> c_made c"
    using that by (auto simp: conn_ok_def remove_node_def)
  moreover have "\<not> unjoined (main_calls mos S) [c] (remove_node (main_calls mos S) (c_node c) (main_load S))"
    if "c_made c"
  proof -
    have "mo_join (main_calls mos S) w (c_th c) \<noteq> None" for w using assms(2) [OF that] by (auto simp: main_calls_def)
    then show ?thesis using that unfolding unjoined_def by auto
  qed
  ultimately show ?thesis using remove_node_ok [OF assms(1), of "main_calls mos S"] by (cases "c_made c") auto
qed

lemma main_enabled:
  assumes inv: "whole_inv mos S cs"
  obtains (goes) "enabled os mos S Main_thread" | (stopped) "ended (mpc S)"
  | (joining) c cs' i where "cs = c # cs'" "mpc S = Joining (Some (c_node c))" "thread_at S (c_th c) = Some i"
      "\<not> returned S i" "\<exists>x. thr (cst S) i = Some x"
proof -
  have mi: "main_inv (main_load S) cs" and at: "at_node mos (mst S) (mpc S) cs" and mn: "manned S (mst S) cs"
    using inv by (simp_all add: whole_inv_def)
  have "finite (dom (thr (cst S)))" using inv by (simp add: whole_inv_def)
  then obtain n where "n \<notin> dom (thr (cst S))" using ex_new_if_finite [OF infinite_UNIV_nat] by blast
  then have "thr (cst S) n = None" by (metis domIff)
  then have en: thesis if "main_step mos n S \<noteq> None" using that goes by auto
  have crew: "\<exists>i p t. thread_at S (c_th c) = Some i \<and> thr (cst S) i = Some (p, t) \<and>
      (map_option complete (tdatas (mst S) (c_td c)) = Some True \<longrightarrow> p = Gone)" if "c \<in> set cs" "c_made c" for c
    using mn that unfolding manned_def by blast
  have node: "\<exists>us c ws. cs = us @ c # ws \<and> a = c_node c"
    if "cs = us @ vs" "Some a = first (map c_node vs)" for us vs a
    using that by (cases vs) auto
  show thesis
  proof (cases "mpc S")
    case Accepting
    then show thesis using en by (simp add: main_step_def Let_def)
  next
    case (Reaping v)
    show thesis
    proof (cases v)
      case (Some a)
      then obtain us vs where "cs = us @ vs" "Some a = first (map c_node vs)" using at Reaping by auto
      from node [OF this] obtain us c ws where c: "cs = us @ c # ws" "a = c_node c" by blast
      have ok: "conn_ok (main_load S) c" using mi c by (simp add: main_inv_def)
      have "reap_node (main_calls mos S) (seen_complete (main_calls mos S) w) (c_node c) (main_load S) \<noteq> None" for w
      proof (cases "seen_complete (main_calls mos S) w (c_td c)")
        case True
        then have seen: "map_option complete (tdatas (mst S) (c_td c)) = Some True"
          by (auto simp: main_calls_def split: option.splits)
        have "\<exists>i. thread_at S (c_th c) = Some i \<and> returned S i" if "c_made c"
          using crew [OF _ that] seen c(1) by (auto simp: returned_def)
        from remove_returned [OF mi [unfolded c(1)] this] show ?thesis using True ok
          by (auto simp: conn_ok_def reap_node_def)
      qed (use ok in \<open>auto simp: conn_ok_def reap_node_def\<close>)
      then show thesis using Reaping Some c main_inv_next [OF mi [unfolded c(1)]]
        by (intro en) (auto simp: main_step_def main_result_None Let_def)
    qed (use Reaping en in \<open>simp add: main_step_def\<close>)
  next
    case (Asking v)
    show thesis
    proof (cases v)
      case (Some a)
      then obtain us vs where "cs = us @ vs" "Some a = first (map c_node vs)" using at Asking by auto
      from node [OF this] obtain us c ws where c: "cs = us @ c # ws" "a = c_node c" by blast
      from request_exit_ok [OF mi [unfolded c(1)]] have "request_exit (c_node c) (main_load S) \<noteq> None" by auto
      then show thesis using Asking Some c main_result_None by (intro en) (auto simp: main_step_def main_result_None Let_def)
    qed (use Asking en in \<open>simp add: main_step_def Let_def\<close>)
  next
    case (Joining v)
    show thesis
    proof (cases v)
      case (Some a)
      then obtain c ws where c: "cs = [] @ c # ws" "a = c_node c" using at Joining by (cases cs) auto
      show thesis
      proof (cases "c_made c \<longrightarrow> (\<exists>i. thread_at S (c_th c) = Some i \<and> returned S i)")
        case True
        then show thesis using Joining Some c main_inv_next [OF mi [unfolded c(1)]] main_result_None
            remove_returned [OF mi [unfolded c(1)]]
          by (intro en) (auto simp: main_step_def main_result_None Let_def)
      next
        case False
        then obtain i p t where "thread_at S (c_th c) = Some i" "thr (cst S) i = Some (p, t)" "\<not> returned S i"
          using crew [of c] c(1) by auto
        then show thesis using joining Joining Some c by simp
      qed
    qed (use Joining en in \<open>simp add: main_step_def Let_def\<close>)
  qed (use stopped in simp_all)
qed

text \<open>A connection thread that has not returned is not stuck, unless it waits for the mutex.\<close>

lemma conn_enabled:
  assumes inv: "whole_inv mos S cs" and t: "thr (cst S) i = Some (p, t)"
    and run: "\<not> ended (mpc S)" "\<not> over p" "\<not> (p = At_lock \<and> sh_mutex (cst S))"
  shows "enabled os mos S (Conn_thread i)"
proof -
  have "p \<noteq> Gone" using run(2) by auto
  then obtain c where c: "c \<in> set cs" "td_of S i = Some (c_td c)"
    using inv t unfolding whole_inv_def linked_def by blast
  have "conn_ok (mst S) c" using inv c(1) by (simp add: whole_inv_def main_inv_def)
  then obtain td where "tdatas (mst S) (c_td c) = Some td" "mutexExit td = Some (c_mx c)"
    "mutexes (mst S) (c_mx c) = Some False" by (auto simp: conn_ok_def)
  moreover have "thread_step os' p ((load (cst S) t)\<lparr>threadData := td', exit_mutex := b\<rparr>) \<noteq> None" for os' td' b
    using run(2,3) by (auto simp: thread_step_None over_def)
  ultimately show ?thesis using t c(2) run by (auto simp: conn_step_def conn_block_def split: option.splits)
qed

section \<open>The threads during the joins\<close>

definition pc_of :: "'w whole \<Rightarrow> nat \<Rightarrow> pc option" where
  "pc_of S i = map_option fst (thr (cst S) i)"

text \<open>
  All threads have been asked to exit: every block but a round of the echo loop brings a thread nearer
  to its end.
\<close>

lemma joining_step:
  fixes S :: "'w whole" and os :: "nat \<Rightarrow> 'w os"
  assumes inv: "whole_inv mos S cs" and pc: "mpc S = Joining v" and step: "whole_step os mos env a S S'"
    and a: "a \<noteq> Main_thread"
  shows "ranks (cst S') < ranks (cst S) \<or>
    (ranks (cst S') = ranks (cst S) \<and> pc_of S' = pc_of S \<and> sh_mutex (cst S') = sh_mutex (cst S) \<and>
     (\<forall>i. a = Conn_thread i \<longrightarrow> (\<exists>n. pc_of S i = Some (In_echo n))))"
  using step
proof (cases rule: whole_step.cases)
  case (conn i)
  from inv conn(3) show ?thesis
  proof (cases rule: conn_step_block)
    case (1 c td p t p' t')
    have "asked (mst S) c" using inv pc 1(1) by (simp add: whole_inv_def)
    then have "exit td" using 1(4) by (simp add: asked_def)
    let ?t = "(load (cst S) t)\<lparr>threadData := td, exit_mutex := False\<rparr>"
    have fin: "finite (dom (thr (cst S)))" using inv by (simp add: whole_inv_def)
    note ranks = ranks_store [OF fin 1(5), of p' t']
    from step_rank [OF 1(7)] \<open>exit td\<close>
    consider "rank p' < rank p" | n where "p = In_echo n" "p' = In_echo n" by auto
    then show ?thesis
    proof cases
      case 2
      have "global_mutex t' = sh_mutex (cst S)"
        using critical_step [OF 1(7)] 2 by (simp add: keeps_def)
      moreover have "pc_of S' = pc_of S" using 1(5,10) 2 by (auto simp: pc_of_def fun_eq_iff)
      ultimately show ?thesis using ranks 1(5,10) 2 conn(1) by (simp add: pc_of_def)
    qed (use ranks 1(10) in simp)
  qed
next
  case (outside w)
  then show ?thesis by (simp add: ranks_def pc_of_def fun_eq_iff)
qed (use a in simp)

section \<open>The execution after the signal\<close>

text \<open>The connections in the list at every moment.\<close>

lemma whole_trace:
  fixes f :: "nat \<Rightarrow> 'w whole" and os :: "nat \<Rightarrow> 'w os"
  assumes "whole_start mos (f 0)" "whole_execution os mos env l f" "calls_ok os" "malloc_ok mos"
  obtains g where "\<And>k. whole_inv mos (f k) (g k)"
    and "\<And>k. l k \<noteq> Some Main_thread \<Longrightarrow>
      g (Suc k) = g k \<and> mpc (f (Suc k)) = mpc (f k) \<and> thread_at (f (Suc k)) = thread_at (f k)"
    and "\<And>k. l k = Some Main_thread \<Longrightarrow>
      main_left (mpc (f (Suc k))) (g (Suc k)) < main_left (mpc (f k)) (g k) \<or>
      mpc (f k) = Accepting \<and> \<not> graceful mos (sh_world (cst (f k)))"
proof -
  let ?Q = "\<lambda>k cs cs'. (l k \<noteq> Some Main_thread \<longrightarrow>
      cs' = cs \<and> mpc (f (Suc k)) = mpc (f k) \<and> thread_at (f (Suc k)) = thread_at (f k)) \<and>
    (l k = Some Main_thread \<longrightarrow> main_left (mpc (f (Suc k))) cs' < main_left (mpc (f k)) cs \<or>
      mpc (f k) = Accepting \<and> \<not> graceful mos (sh_world (cst (f k))))"
  have "\<exists>g. \<forall>k. whole_inv mos (f k) (g k) \<and> ?Q k (g k) (g (Suc k))"
  proof (rule dependent_nat_choice)
    show "\<exists>cs. whole_inv mos (f 0) cs" using start_inv [OF assms(1)] by blast
  next
    fix cs k
    assume inv: "whole_inv mos (f k) cs"
    have step: "case l k of None \<Rightarrow> f (Suc k) = f k | Some a \<Rightarrow> whole_step os mos env a (f k) (f (Suc k))"
      using assms(2) by (simp add: whole_execution_def)
    show "\<exists>cs'. whole_inv mos (f (Suc k)) cs' \<and> ?Q k cs cs'"
    proof (cases "l k")
      case None
      then show ?thesis using inv step by auto
    next
      case (Some a)
      then have "whole_step os mos env a (f k) (f (Suc k))" using step by simp
      from whole_step_inv [OF inv assms(3,4) this] Some show ?thesis by auto
    qed
  qed
  then show thesis using that by blast
qed

text \<open>The causes for which a thread that has been asked to exit does not return.\<close>

definition stuck :: "('w \<Rightarrow> int \<Rightarrow> bool) \<Rightarrow> (nat \<Rightarrow> 'w whole) \<Rightarrow> nat \<Rightarrow> nat \<Rightarrow> bool" where
  "stuck waits f M i \<longleftrightarrow>
     (\<exists>e. \<forall>k\<ge>M. pc_of (f k) i = Some (Faulted e)) \<or>
     (\<exists>j n. \<forall>k\<ge>M. pc_of (f k) j = Some (In_echo n)) \<or>
     (\<forall>k\<ge>M. pc_of (f k) i = Some At_lock \<and> mutex_lost (cst (f k))) \<or>
     (\<forall>k\<ge>M. pc_of (f k) i = Some In_recv) \<and> (\<forall>k. \<exists>m\<ge>k. kept_waiting waits (cst (f m)) i)"

lemma frozen_thread:
  fixes f :: "nat \<Rightarrow> 'w whole"
  assumes inv: "\<And>k. M \<le> k \<Longrightarrow> whole_inv mos (f k) (g k) \<and> \<not> ended (mpc (f k))"
    and still: "\<And>k. M \<le> k \<Longrightarrow> pc_of (f k) = pc_of (f M) \<and> sh_mutex (cst (f k)) = sh_mutex (cst (f M))"
    and echo: "\<And>k i. M \<le> k \<Longrightarrow> l k = Some (Conn_thread i) \<Longrightarrow> \<exists>n. pc_of (f k) i = Some (In_echo n)"
    and fair: "whole_fair os mos waits l f"
    and i: "pc_of (f M) i = Some p" "p \<noteq> Gone"
  shows "stuck waits f M i"
proof -
  have moves: "(\<exists>n. q = In_echo n) \<or> q = In_recv \<and> (\<forall>k. \<exists>m\<ge>k. kept_waiting waits (cst (f m)) j)"
    if j: "pc_of (f M) j = Some q" "\<not> over q" "\<not> (q = At_lock \<and> sh_mutex (cst (f M)))" for j q
  proof (rule ccontr)
    assume no: "\<not> ?thesis"
    have en: "enabled os mos (f k) (Conn_thread j)" if k: "M \<le> k" for k
    proof -
      have "pc_of (f k) j = Some q" using still [OF k] j(1) by simp
      then obtain t where "thr (cst (f k)) j = Some (q, t)" by (auto simp: pc_of_def)
      then show ?thesis using conn_enabled inv [OF k] j(2,3) still [OF k] by metis
    qed
    have "q = In_recv \<Longrightarrow> \<exists>k. \<forall>m\<ge>k. \<not> kept_waiting waits (cst (f m)) j" using no by blast
    moreover have "q = In_recv" if "kept_waiting waits (cst (f m)) j" "M \<le> m" for m
    proof -
      have "pc_of (f m) j = Some In_recv" using that(1) by (auto simp: kept_waiting_def pc_of_def)
      then show ?thesis using still [OF that(2)] j(1) by simp
    qed
    ultimately obtain k where k: "\<And>m. k \<le> m \<Longrightarrow> M \<le> m \<Longrightarrow> \<not> kept_waiting waits (cst (f m)) j" by blast
    obtain m where m: "max k M \<le> m" "\<not> enabled os mos (f m) (Conn_thread j) \<or> l m = Some (Conn_thread j) \<or>
        (\<exists>i. Conn_thread j = Conn_thread i \<and> kept_waiting waits (cst (f m)) i)"
      using fair unfolding whole_fair_def by blast
    then have "l m = Some (Conn_thread j)" "M \<le> m" using en [of m] k [of m] by auto
    from echo [OF this(2,1)] still [OF this(2)] j(1) no show False by auto
  qed
  have same: "pc_of (f k) j = Some q" if "pc_of (f M) j = Some q" "M \<le> k" for k j q
    using still [OF that(2)] that(1) by simp
  have in_echo: "stuck waits f M i" if "pc_of (f M) j = Some (In_echo n)" for j n
    unfolding stuck_def using same [OF that] by blast
  show ?thesis
  proof (cases "\<exists>e. p = Faulted e")
    case True
    then show ?thesis using same [OF i(1)] unfolding stuck_def by blast
  next
    case False
    then have p: "\<not> over p" using i(2) by (simp add: over_def)
    show ?thesis
    proof (cases "p = At_lock \<and> sh_mutex (cst (f M))")
      case False
      from moves [OF i(1) p False] show ?thesis
        using in_echo i(1) same [OF i(1)] unfolding stuck_def by blast
    next
      case True
      show ?thesis
      proof (cases "\<exists>j q. pc_of (f M) j = Some q \<and> critical q")
        case True
        then obtain j q where j: "pc_of (f M) j = Some q" "critical q" by blast
        then have "\<not> over q" "q \<noteq> At_lock" "q \<noteq> In_recv" by (auto simp: over_def)
        with moves [OF j(1)] in_echo j(1) show ?thesis by blast
      next
        case no: False
        have "mutex_lost (cst (f k))" if k: "M \<le> k" for k
        proof -
          have "\<not> in_critical (cst (f k)) j" for j
          proof
            assume "in_critical (cst (f k)) j"
            then obtain q where "pc_of (f k) j = Some q" "critical q" by (auto simp: in_critical_def pc_of_def)
            then show False using still [OF k] no by auto
          qed
          then show ?thesis using still [OF k] True by (simp add: mutex_lost_def)
        qed
        then show ?thesis using same [OF i(1)] True unfolding stuck_def by blast
      qed
    qed
  qed
qed

text \<open>From the signal on the main thread makes only finitely many steps.\<close>

lemma main_settles:
  fixes f :: "nat \<Rightarrow> 'w whole"
  assumes others: "\<And>k. l k \<noteq> Some Main_thread \<Longrightarrow>
      g (Suc k) = g k \<and> mpc (f (Suc k)) = mpc (f k) \<and> thread_at (f (Suc k)) = thread_at (f k)"
    and main: "\<And>k. l k = Some Main_thread \<Longrightarrow>
      main_left (mpc (f (Suc k))) (g (Suc k)) < main_left (mpc (f k)) (g k) \<or>
      mpc (f k) = Accepting \<and> \<not> graceful mos (sh_world (cst (f k)))"
    and signal: "\<And>k. N \<le> k \<Longrightarrow> graceful mos (sh_world (cst (f k)))"
  obtains M where "N \<le> M" "\<And>k. M \<le> k \<Longrightarrow> l k \<noteq> Some Main_thread"
    and "\<And>k. M \<le> k \<Longrightarrow> g k = g M \<and> mpc (f k) = mpc (f M) \<and> thread_at (f k) = thread_at (f M)"
proof -
  let ?h = "\<lambda>k. main_left (mpc (f k)) (g k)"
  have less: "?h (Suc k) < ?h k" if "N \<le> k" "l k = Some Main_thread" for k
    using main [OF that(2)] signal [OF that(1)] by blast
  have "?h (Suc k) \<le> ?h k" if "N \<le> k" for k
    using less [OF that] others [of k] by (cases "l k = Some Main_thread") (simp_all add: order_less_imp_le)
  then obtain M where M: "N \<le> M" "\<And>k. M \<le> k \<Longrightarrow> ?h k = ?h M"
    using settles [of N ?h] by blast
  have quiet: "l k \<noteq> Some Main_thread" if "M \<le> k" for k
  proof
    assume "l k = Some Main_thread"
    from less [OF _ this] have "?h (Suc k) < ?h k" using that M(1) by simp
    then show False using M(2) [of k] M(2) [of "Suc k"] that by simp
  qed
  have "g k = g M \<and> mpc (f k) = mpc (f M) \<and> thread_at (f k) = thread_at (f M)" if "M \<le> k" for k
    using that
  proof (induction k rule: dec_induct)
    case (step k)
    then show ?case using others [OF quiet [OF step.hyps(1)]] by simp
  qed simp
  with M(1) quiet show thesis using that by blast
qed

text \<open>While the main thread waits in a join, the threads freeze, and the joined thread is stuck.\<close>

lemma joining_settles:
  fixes f :: "nat \<Rightarrow> 'w whole" and os :: "nat \<Rightarrow> 'w os"
  assumes ex: "whole_execution os mos env l f" and inv: "\<And>k. whole_inv mos (f k) (g k)"
    and joins: "\<And>k. M \<le> k \<Longrightarrow> l k \<noteq> Some Main_thread \<and> mpc (f k) = Joining v"
  obtains R where "M \<le> R"
    and "\<And>k. R \<le> k \<Longrightarrow> pc_of (f k) = pc_of (f R) \<and> sh_mutex (cst (f k)) = sh_mutex (cst (f R))"
    and "\<And>k i. R \<le> k \<Longrightarrow> l k = Some (Conn_thread i) \<Longrightarrow> \<exists>n. pc_of (f k) i = Some (In_echo n)"
proof -
  have step: "ranks (cst (f (Suc k))) < ranks (cst (f k)) \<or>
      (ranks (cst (f (Suc k))) = ranks (cst (f k)) \<and> pc_of (f (Suc k)) = pc_of (f k) \<and>
       sh_mutex (cst (f (Suc k))) = sh_mutex (cst (f k)) \<and>
       (\<forall>j. l k = Some (Conn_thread j) \<longrightarrow> (\<exists>n. pc_of (f k) j = Some (In_echo n))))" if k: "M \<le> k" for k
  proof -
    have "case l k of None \<Rightarrow> f (Suc k) = f k | Some a \<Rightarrow> whole_step os mos env a (f k) (f (Suc k))"
      using ex by (simp add: whole_execution_def)
    then show ?thesis using joining_step [OF inv] joins [OF k] by (cases "l k") auto
  qed
  have "ranks (cst (f (Suc k))) \<le> ranks (cst (f k))" if "M \<le> k" for k using step [OF that] by auto
  then obtain R where R: "M \<le> R" "\<And>k. R \<le> k \<Longrightarrow> ranks (cst (f k)) = ranks (cst (f R))"
    using settles [of M "\<lambda>k. ranks (cst (f k))"] by blast
  have calm: "pc_of (f (Suc k)) = pc_of (f k)" "sh_mutex (cst (f (Suc k))) = sh_mutex (cst (f k))"
    "l k = Some (Conn_thread j) \<Longrightarrow> \<exists>n. pc_of (f k) j = Some (In_echo n)" if "R \<le> k" for k j
    using step [of k] R(1) R(2) [of k] R(2) [of "Suc k"] that by auto
  have "pc_of (f k) = pc_of (f R) \<and> sh_mutex (cst (f k)) = sh_mutex (cst (f R))" if "R \<le> k" for k
    using that
  proof (induction k rule: dec_induct)
    case (step k)
    then show ?case using calm(1,2) [OF step.hyps(1)] by simp
  qed simp
  then show thesis using that R(1) calm(3) by blast
qed

lemma shutdown_ends_or_hangs:
  fixes f :: "nat \<Rightarrow> 'w whole" and os :: "nat \<Rightarrow> 'w os"
  assumes start: "whole_start mos (f 0)" and ex: "whole_execution os mos env l f" and fair: "whole_fair os mos waits l f"
    and os: "calls_ok os" "malloc_ok mos" and signal: "\<And>k. N \<le> k \<Longrightarrow> graceful mos (sh_world (cst (f k)))"
  shows "(\<exists>k. ended (mpc (f k))) \<or>
    (\<exists>M a i. (\<forall>k\<ge>M. mpc (f k) = Joining (Some a)) \<and> stuck waits f M i)"
proof -
  obtain g where inv: "\<And>k. whole_inv mos (f k) (g k)"
    and others: "\<And>k. l k \<noteq> Some Main_thread \<Longrightarrow>
      g (Suc k) = g k \<and> mpc (f (Suc k)) = mpc (f k) \<and> thread_at (f (Suc k)) = thread_at (f k)"
    and main: "\<And>k. l k = Some Main_thread \<Longrightarrow>
      main_left (mpc (f (Suc k))) (g (Suc k)) < main_left (mpc (f k)) (g k) \<or>
      mpc (f k) = Accepting \<and> \<not> graceful mos (sh_world (cst (f k)))"
    by (rule whole_trace [OF start ex os]) blast
  obtain M where "N \<le> M" and M: "\<And>k. M \<le> k \<Longrightarrow> l k \<noteq> Some Main_thread"
    "\<And>k. M \<le> k \<Longrightarrow> g k = g M \<and> mpc (f k) = mpc (f M) \<and> thread_at (f k) = thread_at (f M)"
    using main_settles [of l g f mos N thesis] others main signal that by blast
  have waiting: "\<exists>m\<ge>k. \<not> enabled os mos (f m) Main_thread" if k: "M \<le> k" for k
  proof -
    obtain m where "k \<le> m" "\<not> enabled os mos (f m) Main_thread \<or> l m = Some Main_thread"
      using fair unfolding whole_fair_def by blast
    then show ?thesis using M(1) [of m] k by auto
  qed
  show ?thesis
  proof (cases "ended (mpc (f M))")
    case False
    then have alive: "\<not> ended (mpc (f k))" if "M \<le> k" for k using M(2) [OF that] by simp
    have unreturned: "\<exists>m\<ge>k. \<exists>a i p t. mpc (f m) = Joining (Some a) \<and> thr (cst (f m)) i = Some (p, t) \<and> p \<noteq> Gone"
      if k: "M \<le> k" for k
    proof -
      obtain m where m: "k \<le> m" "\<not> enabled os mos (f m) Main_thread" using waiting [OF k] by auto
      show ?thesis
        by (cases rule: main_enabled [OF inv [of m], of os])
          (use m k alive [of m] in \<open>fastforce simp: returned_def\<close>)+
    qed
    obtain a where pc: "\<And>k. M \<le> k \<Longrightarrow> mpc (f k) = Joining (Some a)"
      using unreturned [of M] M(2) by (metis order_refl)
    obtain R where R: "M \<le> R"
      "\<And>k. R \<le> k \<Longrightarrow> pc_of (f k) = pc_of (f R) \<and> sh_mutex (cst (f k)) = sh_mutex (cst (f R))"
      "\<And>k i. R \<le> k \<Longrightarrow> l k = Some (Conn_thread i) \<Longrightarrow> \<exists>n. pc_of (f k) i = Some (In_echo n)"
      using joining_settles [OF ex inv, of M "Some a"] M(1) pc by blast
    obtain r i p t where r: "R \<le> r" "thr (cst (f r)) i = Some (p, t)" "p \<noteq> Gone"
      using unreturned [OF R(1)] by blast
    then have "pc_of (f r) i = Some p" by (simp add: pc_of_def)
    then have "pc_of (f R) i = Some p" using R(2) [OF r(1)] by simp
    moreover have "whole_inv mos (f k) (g k) \<and> \<not> ended (mpc (f k))" if "R \<le> k" for k
      using inv alive R(1) that by simp
    ultimately have "stuck waits f R i"
      using frozen_thread [of R mos f g l os waits i p] R(2,3) fair r(3) by blast
    moreover have "\<forall>k\<ge>R. mpc (f k) = Joining (Some a)" using pc R(1) by simp
    ultimately show ?thesis by blast
  qed blast
qed

section \<open>Runs\<close>

text \<open>A finite schedule of the small server as an execution that stops at its end.\<close>

definition run_state :: "bool list \<Rightarrow> nat \<Rightarrow> (nat \<times> int list) whole" where
  "run_state bs k = the (plays (take k bs) whole_first)"

definition run_label :: "bool list \<Rightarrow> nat \<Rightarrow> actor option" where
  "run_label bs k = (if k < length bs then Some (if bs ! k then Main_thread else Conn_thread 0) else None)"

lemma plays_append:
  "plays (as @ bs) S = (case plays as S of None \<Rightarrow> None | Some S' \<Rightarrow> plays bs S')"
  by (induction as arbitrary: S) (auto split: option.splits)

lemma plays_step:
  assumes "plays [b] S = Some S'"
  shows "whole_step (\<lambda>i. whole_os) whole_mos (=) (if b then Main_thread else Conn_thread 0) S S'"
  using assms by (auto split: option.splits if_splits intro: whole_step.main whole_step.conn)

lemma run_execution:
  assumes "plays bs whole_first = Some S"
  shows "whole_execution (\<lambda>i. whole_os) whole_mos (=) (run_label bs) (run_state bs)"
    and "run_state bs 0 = whole_first" and "length bs \<le> k \<Longrightarrow> run_state bs k = S"
proof -
  have prefix: "plays (take k bs) whole_first = Some (run_state bs k)" for k
    using assms plays_append [of "take k bs" "drop k bs" whole_first]
    by (auto simp: run_state_def split: option.splits)
  show "whole_execution (\<lambda>i. whole_os) whole_mos (=) (run_label bs) (run_state bs)"
    unfolding whole_execution_def
  proof
    fix k
    show "case run_label bs k of None \<Rightarrow> run_state bs (Suc k) = run_state bs k
      | Some a \<Rightarrow> whole_step (\<lambda>i. whole_os) whole_mos (=) a (run_state bs k) (run_state bs (Suc k))"
    proof (cases "k < length bs")
      case True
      have "plays [bs ! k] (run_state bs k) = Some (run_state bs (Suc k))"
        using prefix [of "Suc k"] prefix [of k] plays_append [of "take k bs" "[bs ! k]" whole_first]
        by (simp add: take_Suc_conv_app_nth [OF True] del: plays.simps)
      from plays_step [OF this] True show ?thesis by (simp add: run_label_def)
    qed (simp add: run_label_def run_state_def)
  qed
qed (use assms in \<open>simp_all add: run_state_def\<close>)

lemma run_fair:
  assumes "plays bs whole_first = Some S" and "\<And>i. main_step whole_mos i S = None"
    and "\<And>i. ended (mpc S) \<or> conn_step (\<lambda>i. whole_os) i S = None \<or> kept_waiting waits (cst S) i"
  shows "whole_fair (\<lambda>i. whole_os) whole_mos waits (run_label bs) (run_state bs)"
  unfolding whole_fair_def
proof (intro allI)
  fix a k
  have "run_state bs (max k (length bs)) = S" using run_execution(3) [OF assms(1)] by simp
  moreover have "\<not> enabled (\<lambda>i. whole_os) whole_mos S a \<or> (\<exists>i. a = Conn_thread i \<and> kept_waiting waits (cst S) i)"
    using assms(2,3) by (cases a) auto
  ultimately show "\<exists>j\<ge>k. \<not> enabled (\<lambda>i. whole_os) whole_mos (run_state bs j) a \<or> run_label bs j = Some a \<or>
      (\<exists>i. a = Conn_thread i \<and> kept_waiting waits (cst (run_state bs j)) i)"
    by (intro exI [of _ "max k (length bs)"]) auto
qed

text \<open>
  A client that is connected and sends nothing: its thread has seen no request to exit and is in
  \<open>recv\<close> when the signal comes, and the main thread waits for it in \<open>pthread_join\<close> for ever.
\<close>

abbreviation idle_schedule :: "bool list" where
  "idle_schedule \<equiv> [True, False, False, True, True, True, True, True]"

lemma idle_client_state:
  "\<exists>S. plays idle_schedule whole_first = Some S \<and> mpc S = Joining (Some 3) \<and>
     pc_of S 0 = Some In_recv \<and> (\<forall>i. i \<noteq> 0 \<longrightarrow> thr (cst S) i = None) \<and> sh_world (cst S) = (1, []) \<and> (\<forall>i. main_step whole_mos i S = None)"
  by (simp add: main_run_defs conn_run_defs pc_of_def Let_def)

lemma idle_client_blocks_shutdown:
  "\<exists>l f. whole_start whole_mos (f 0) \<and> whole_execution (\<lambda>i. whole_os) whole_mos (=) l f \<and>
     whole_fair (\<lambda>i. whole_os) whole_mos (\<lambda>w c. True) l f \<and>
     (\<forall>k\<ge>8. graceful whole_mos (sh_world (cst (f k))) \<and> mpc (f k) = Joining (Some 3))"
proof -
  obtain S where S: "plays idle_schedule whole_first = Some S" "mpc S = Joining (Some 3)"
    "pc_of S 0 = Some In_recv" "sh_world (cst S) = (1, [])" "\<And>i. main_step whole_mos i S = None"
    and alone: "\<And>i. i \<noteq> 0 \<Longrightarrow> thr (cst S) i = None"
    using idle_client_state by blast
  have "ended (mpc S) \<or> conn_step (\<lambda>i. whole_os) i S = None \<or> kept_waiting (\<lambda>w c. True) (cst S) i" for i
    using S(3) alone [of i] by (cases "i = 0") (auto simp: conn_step_def kept_waiting_def pc_of_def)
  note fair = run_fair [OF S(1,5) this]
  have "graceful whole_mos (sh_world (cst (run_state idle_schedule k))) \<and>
      mpc (run_state idle_schedule k) = Joining (Some 3)" if "8 \<le> k" for k
    using run_execution(3) [OF S(1), of k] that S(2,4) by (simp add: whole_mos_def)
  then show ?thesis
    using run_execution(1,2) [OF S(1)] fair whole_first_start
    by (intro exI [of _ "run_label idle_schedule"] exI [of _ "run_state idle_schedule"]) auto
qed

section \<open>Properties\<close>



end
