(* ===== verification/Server_Leaks.thy ===== *)
theory Server_Leaks
  imports Server_Concurrent
begin

text \<open>
  What the connection threads leave in the heap: nobody frees the receive buffer of a message that
  has been answered.
\<close>

section \<open>Leaked blocks\<close>

text \<open>An allocated block that no thread can still use.\<close>

definition leaked :: "'w server \<Rightarrow> addr \<Rightarrow> bool" where
  "leaked S a \<longleftrightarrow> sh_mem S a \<noteq> None \<and> (\<forall>i p t. thr S i = Some (p, t) \<longrightarrow> a \<notin> owned p t)"

lemma leaked_step:
  assumes step: "server_step os env l S S'" and inv: "heap_inv S"
    and os: "\<And>i. alloc_ok (os i) \<and> recv_ok (os i) \<and> read_ok (os i)" and a: "leaked S a"
  shows "leaked S' a \<and> sh_mem S' a = sh_mem S a"
  using step
proof (cases rule: server_step.cases)
  case (run i p t x)
  obtain p' t' where x: "x = (p', t')" by fastforce
  have ok: "thread_ok p (load S t)" using inv run(3) unfolding heap_inv_def by blast
  from os [of i] have os_i: "alloc_ok (os i)" "recv_ok (os i)" "read_ok (os i)" by auto
  from thread_step_ok [OF os_i ok run(4) [unfolded x]]
  have "local_change (owned p t) (sh_mem S) (mem t') (owned p' t')" by simp
  moreover have "sh_mem S a \<noteq> None" "a \<notin> owned p t" using a run(3) unfolding leaked_def by blast+
  ultimately have "mem t' a = sh_mem S a" "a \<notin> owned p' t'"
    unfolding local_change_def frame_def by auto
  then show ?thesis using a run(2) x by (auto simp: leaked_def split: if_splits)
next
  case (spawn i td)
  then show ?thesis using a by (auto simp: leaked_def fresh_thread_def)
next
  case (outside w)
  then show ?thesis using a by (simp add: leaked_def)
qed

lemma leaked_run:
  assumes os: "\<And>i. alloc_ok (os i) \<and> recv_ok (os i) \<and> read_ok (os i)"
  shows "server_run os env L S S' \<Longrightarrow> heap_inv S \<Longrightarrow> leaked S a \<Longrightarrow>
    heap_inv S' \<and> leaked S' a \<and> sh_mem S' a = sh_mem S a"
proof (induction rule: server_run.induct)
  case (more S S' l S'')
  then show ?case using leaked_step [OF more.hyps(2) _ os] heap_inv_step [OF more.hyps(2) _ os] by auto
qed simp

section \<open>An instance\<close>

fun steps :: "nat \<Rightarrow> 'w os \<Rightarrow> pc \<times> 'w thread \<Rightarrow> (pc \<times> 'w thread) option" where
  "steps 0 os x = Some x"
| "steps (Suc n) os x = (case thread_step os (fst x) (snd x) of None \<Rightarrow> None | Some y \<Rightarrow> steps n os y)"

lemma steps_solo: "steps n os x = Some y \<Longrightarrow> solo os x y"
  by (induction n arbitrary: x) (auto split: option.splits intro: solo.intros)

lemma answered_example:
  "(case steps 7 chunk_os (At_start, fresh_thread idle_server td_example) of
      None \<Rightarrow> False | Some (p, t) \<Rightarrow> p = In_close \<and> recvBuffer t = Some (0, 0))"
  by code_simp

lemma answered_state:
  "\<exists>S t. server_reachable (\<lambda>i. chunk_os) (=) S \<and> thr S 0 = Some (In_close, t) \<and> recvBuffer t = Some (0, 0)"
proof -
  obtain t where t: "steps 7 chunk_os (At_start, fresh_thread idle_server td_example) = Some (In_close, t)"
    "recvBuffer t = Some (0, 0)"
    using answered_example by (auto split: option.splits prod.splits)
  have "server_run (\<lambda>i. chunk_os) (=) (\<lambda>l. True) idle_server serving"
    using server_run.more [OF server_run.nothing server_step.spawn, of idle_server 0 "\<lambda>l. True"
        "\<lambda>i. chunk_os" "(=)" td_example]
    by (simp add: serving_def) (simp add: idle_server_def)
  from solo_server_run [OF steps_solo [OF t(1)], of "\<lambda>i. chunk_os" 0 serving "(=)" idle_server] this
  have "server_run (\<lambda>i. chunk_os) (=) (\<lambda>l. True) idle_server (store serving 0 (In_close, t))"
    by (simp add: serving_def load_def fresh_thread_def idle_server_def)
  moreover have "idle idle_server" by (simp add: idle_def idle_server_def)
  ultimately show ?thesis using t(2) unfolding server_reachable_def
    by (intro exI [of _ "store serving 0 (In_close, t)"] exI [of _ t]) auto
qed

section \<open>Properties\<close>

text \<open>
  C36: Answered messages leak. The receive buffer of a message that has been answered is not freed: the
  thread goes on to its next message, and in every continuation, whatever any thread does, the
  block stays allocated with its contents and no thread has it any more. The server's memory grows
  with every message.
\<close>

theorem answered_message_leaks:
  assumes "server_reachable os env S"
    and "\<And>j. alloc_ok (os j) \<and> recv_ok (os j) \<and> read_ok (os j)"
    and "thr S i = Some (In_close, t)" and "recvBuffer t = Some (a, k)"
    and "thread_step (os i) In_close (load S t) = Some x"
    and "server_run os env (\<lambda>l. True) (store S i x) S'"
  shows "fst x = At_start \<and> sh_mem S a \<noteq> None \<and> sh_mem S' a = sh_mem S a \<and>
    (\<forall>j p u. thr S' j = Some (p, u) \<longrightarrow> a \<notin> owned p u)"
proof -
  have inv: "heap_inv S" by (rule reachable_heap_inv [OF assms(1,2)])
  have x: "x = (At_start, (load S t)\<lparr>world := os_close (os i) (sh_world S) (sh_fd S), global_mutex := False\<rparr>)"
    using assms(5) by auto
  have "thread_ok In_close (load S t)" using inv assms(3) unfolding heap_inv_def by blast
  then have a: "sh_mem S a \<noteq> None" "sendBuffer t \<noteq> Some a" "a \<in> owned In_close t"
    using assms(4) by (auto simp: holds_at_def bufs_def)
  have "a \<notin> owned q u" if "j \<noteq> i" "thr S j = Some (q, u)" for j q u
    using inv assms(3) that a(3) unfolding heap_inv_def by blast
  then have "leaked (store S i x) a" using a(1,2) by (auto simp: leaked_def x)
  moreover have step: "server_step os env (Some i) S (store S i x)"
    using assms(3,5) by (rule server_step.run)
  moreover have "heap_inv (store S i x)" by (rule heap_inv_step [OF step inv assms(2)])
  ultimately have "heap_inv S' \<and> leaked S' a \<and> sh_mem S' a = sh_mem (store S i x) a"
    by (intro leaked_run [OF assms(2,6)])
  then show ?thesis using a(1) by (simp add: leaked_def x)
qed

theorem answered_message_leaks_witness:
  "\<exists>S t S'. server_reachable (\<lambda>i. chunk_os) (=) S \<and> thr S 0 = Some (In_close, t) \<and>
     server_reachable (\<lambda>i. chunk_os) (=) S' \<and> fst (the (thr S' 0)) = At_start \<and>
     sh_mem S' 0 \<noteq> None \<and> (\<forall>j p u. thr S' j = Some (p, u) \<longrightarrow> 0 \<notin> owned p u)"
proof -
  obtain S t where S: "server_reachable (\<lambda>i. chunk_os) (=) S" "thr S 0 = Some (In_close, t)"
    "recvBuffer t = Some (0, 0)"
    using answered_state by blast
  have os: "alloc_ok chunk_os \<and> recv_ok chunk_os \<and> read_ok chunk_os"
    using chunk_alloc_ok chunk_recv_ok by (simp add: read_ok_def) (simp add: chunk_os_def)
  obtain x where x: "thread_step chunk_os In_close (load S t) = Some x" by simp
  have "server_step (\<lambda>i. chunk_os) (=) (Some 0) S (store S 0 x)"
    using S(2) x by (rule server_step.run)
  with S(1) have r: "server_reachable (\<lambda>i. chunk_os) (=) (store S 0 x)"
    unfolding server_reachable_def by (blast intro: server_run.more)
  from answered_message_leaks [OF S(1) os S(2,3) x server_run.nothing] S r show ?thesis
    by (intro exI [of _ S] exI [of _ t] exI [of _ "store S 0 x"]) (cases x, simp)
qed

end
