(* ===== verification/Server_Timestamp.thy ===== *)
theory Server_Timestamp
  imports Server_Recv Server_Main
begin

text \<open>
  The time stamps of the build without the character device: \<open>appendTimestamp\<close> of
  \<open>server/aesdsocket.c\<close>, the handler of the timer signal, which writes a line with the local time to
  the data file, the start of that timer in \<open>main\<close> and the part of \<open>cleanup\<close> that removes the file.
  The clock, the time zone and the system calls are arguments; \<open>strftime\<close> and \<open>strcat\<close> on
  the 64-byte array are modelled.
\<close>

section \<open>Local time and its text\<close>

record tm =
  tm_sec :: int
  tm_min :: int
  tm_hour :: int
  tm_mday :: int
  tm_mon :: int
  tm_year :: int

text \<open>The ranges that \<open>localtime\<close> documents; \<open>tm_year\<close> is any \<open>int\<close>, counted from 1900.\<close>

definition tm_ok :: "tm \<Rightarrow> bool" where
  "tm_ok t \<longleftrightarrow> 0 \<le> tm_sec t \<and> tm_sec t \<le> 60 \<and> 0 \<le> tm_min t \<and> tm_min t \<le> 59 \<and>
     0 \<le> tm_hour t \<and> tm_hour t \<le> 23 \<and> 1 \<le> tm_mday t \<and> tm_mday t \<le> 31 \<and>
     0 \<le> tm_mon t \<and> tm_mon t \<le> 11 \<and> - (2 ^ 31) \<le> tm_year t \<and> tm_year t < 2 ^ 31"

definition digit :: "nat \<Rightarrow> char" where
  "digit n = char_of (48 + n)"

fun decimal :: "nat \<Rightarrow> bytes" where
  "decimal n = (if n < 10 then [digit n] else decimal (n div 10) @ [digit (n mod 10)])"

declare decimal.simps [simp del]

definition decimal_int :: "int \<Rightarrow> bytes" where
  "decimal_int v = (if v < 0 then CHR ''-'' # decimal (nat (- v)) else decimal (nat v))"

definition two_digits :: "int \<Rightarrow> bytes" where
  "two_digits v = [digit (nat v div 10), digit (nat v mod 10)]"

text \<open>A format of \<open>strftime\<close>: literal text and the conversions that the source uses.\<close>

datatype format_item = Text bytes | Fmt_Y | Fmt_m | Fmt_d | Fmt_H | Fmt_M | Fmt_S

fun item_text :: "tm \<Rightarrow> format_item \<Rightarrow> bytes" where
  "item_text t (Text s) = s"
| "item_text t Fmt_Y = decimal_int (tm_year t + 1900)"
| "item_text t Fmt_m = two_digits (tm_mon t + 1)"
| "item_text t Fmt_d = two_digits (tm_mday t)"
| "item_text t Fmt_H = two_digits (tm_hour t)"
| "item_text t Fmt_M = two_digits (tm_min t)"
| "item_text t Fmt_S = two_digits (tm_sec t)"

text \<open>
  \<open>strftime\<close>: the string it leaves in an array of \<open>maxsize\<close> bytes; when text and NUL do not fit, the
  contents of the array are indeterminate.
\<close>

definition strftime :: "nat \<Rightarrow> format_item list \<Rightarrow> tm \<Rightarrow> bytes option" where
  "strftime maxsize fmt t =
     (let str = concat (map (item_text t) fmt) in if length str + 1 \<le> maxsize then Some str else None)"

text \<open>\<open>"timestamp: %Y%m%d%H%M%S"\<close>\<close>

definition timestamp_format :: "format_item list" where
  "timestamp_format = [Text ''timestamp: '', Fmt_Y, Fmt_m, Fmt_d, Fmt_H, Fmt_M, Fmt_S]"

section \<open>The handler\<close>

text \<open>
  The line of a time stamp in the array \<open>dateTime\<close>: \<open>localtime\<close>'s result, which may be NULL, goes to
  \<open>strftime\<close>, whose result is not looked at, and \<open>strcat\<close> appends the newline.
\<close>

definition dateTime_size :: nat where
  "dateTime_size = 64"

definition timestamp_line :: "tm option \<Rightarrow> bytes result" where
  "timestamp_line localTime =
     (case localTime of
        None \<Rightarrow> Inl NullDeref
      | Some t \<Rightarrow>
          (case strftime dateTime_size timestamp_format t of
             None \<Rightarrow> Inl Undefined
           | Some dateTime \<Rightarrow>
               if length dateTime + length [nl] + 1 \<le> dateTime_size then Inr (dateTime @ [nl])
               else Inl OutOfBounds))"

text \<open>
  The handler with the process-wide descriptor \<open>f\<close> and mutex \<open>mtx\<close>. Like the thread function it waits
  forever for a mutex that is held; the thread that would release it may be the one that the
  signal has interrupted.
\<close>

definition appendTimestamp ::
  "'w os \<Rightarrow> ('w \<Rightarrow> int) \<Rightarrow> (int \<Rightarrow> tm option) \<Rightarrow> 'w \<Rightarrow> int \<Rightarrow> bool \<Rightarrow> ('w \<times> bool) run" where
  "appendTimestamp os time localtime w f mtx =
     obind (Some (timestamp_line (localtime (time w)))) (\<lambda>dateTime.
     if mtx then None
     else let (w', r) = os_write os w f dateTime in Some (Inr (w', False)))"

section \<open>The timer\<close>

record itimerval =
  value_sec :: int
  value_usec :: int
  interval_sec :: int
  interval_usec :: int

text \<open>\<open>cleanup\<close> of this build: \<open>remove\<close> is the system call on the path of the data file.\<close>

definition cleanup_file :: "'w main_os \<Rightarrow> ('w \<Rightarrow> 'w) \<Rightarrow> 'w main_state \<Rightarrow> 'w main_state" where
  "cleanup_file os remove s = (let s1 = cleanup os s in s1\<lparr>m_world := remove (m_world s1)\<rparr>)"

text \<open>The first signal comes after a microsecond, the others every ten seconds.\<close>

definition timestamp_timer :: itimerval where
  "timestamp_timer = \<lparr>value_sec = 0, value_usec = 1, interval_sec = 10, interval_usec = 0\<rparr>"

definition start_timer ::
  "'w main_os \<Rightarrow> ('w \<Rightarrow> 'w) \<Rightarrow> ('w \<Rightarrow> 'w \<times> bool) \<Rightarrow> ('w \<Rightarrow> itimerval \<Rightarrow> 'w \<times> int)
    \<Rightarrow> 'w main_state \<Rightarrow> 'w main_state main_end" where
  "start_timer os remove sigalrm setitimer s =
     (let (w1, ok) = sigalrm (m_world s);
          s1 = s\<lparr>m_world := w1\<rparr>
      in if \<not> ok then Exited 1 (cleanup_file os remove s1)
         else
      let (w2, rc) = setitimer w1 timestamp_timer;
          s2 = s1\<lparr>m_world := w2\<rparr>
      in if rc = -1 then Exited 1 (cleanup_file os remove s2) else Stopped s2)"

text \<open>\<open>main\<close> goes on only with the timer set; otherwise sockets are closed and the file is removed last.\<close>

lemma start_timer_outcome:
  assumes "start_timer os remove sigalrm setitimer s = r"
  shows "(\<exists>w. snd (setitimer w timestamp_timer) \<noteq> -1 \<and> r = Stopped (s\<lparr>m_world := fst (setitimer w timestamp_timer)\<rparr>)) \<or>
    (\<exists>w s'. r = Exited 1 s' \<and> m_world s' = remove w \<and> s' = s\<lparr>m_world := remove w\<rparr>)"
  using assms
  by (auto simp: start_timer_def cleanup_file_def cleanup_def Let_def split: prod.splits if_splits)
    (metis fst_conv snd_conv)+

section \<open>Lengths\<close>

lemma decimal_length: "0 < k \<Longrightarrow> n < 10 ^ k \<Longrightarrow> length (decimal n) \<le> k"
proof (induction n arbitrary: k rule: decimal.induct)
  case (1 n)
  show ?case
  proof (cases "n < 10")
    case True
    then show ?thesis using 1(2) by (simp add: decimal.simps)
  next
    case False
    then obtain j where j: "k = Suc j" "0 < j" using 1(2,3) by (cases k; cases "k = 1") auto
    then have "n div 10 < 10 ^ j" using 1(3) by (simp add: less_mult_imp_div_less mult.commute)
    from 1(1) [OF False j(2) this] show ?thesis using False j by (simp add: decimal.simps [of n])
  qed
qed

lemma year_length:
  assumes "- (2 ^ 31) \<le> y" "y < 2 ^ 31"
  shows "length (decimal_int (y + 1900)) \<le> 11"
proof -
  have "nat (- (y + 1900)) < 10 ^ 10" "nat (y + 1900) < 10 ^ 10" using assms by auto
  then show ?thesis
    using decimal_length [of 10] by (fastforce simp: decimal_int_def)
qed

lemma digit_not_nl: "n < 10 \<Longrightarrow> digit n \<noteq> nl"
proof
  assume n: "n < 10" "digit n = nl"
  have "(of_char (digit n) :: nat) = 48 + n" using n(1) by (simp add: digit_def)
  then show False unfolding n(2) by simp
qed

lemma decimal_no_nl: "nl \<notin> set (decimal n)"
proof (induction n rule: decimal.induct)
  case (1 n)
  then show ?case using digit_not_nl [of n] digit_not_nl [of "n mod 10"] by (subst decimal.simps) auto
qed


lemma decimal_int_no_nl: "nl \<notin> set (decimal_int v)"
  by (simp add: decimal_int_def decimal_no_nl)

lemma two_digits_no_nl: "0 \<le> v \<Longrightarrow> v < 100 \<Longrightarrow> nl \<notin> set (two_digits v)"
proof -
  assume "0 \<le> v" "v < 100"
  then have "nat v div 10 < 10" by (simp add: less_mult_imp_div_less)
  then show ?thesis using digit_not_nl [of "nat v div 10"] digit_not_nl [of "nat v mod 10"]
    by (auto simp: two_digits_def)
qed

lemma timestamp_text:
  assumes "tm_ok t"
  shows "\<exists>rest_text. strftime dateTime_size timestamp_format t = Some (''timestamp: '' @ rest_text) \<and>
    length rest_text \<le> 21 \<and> nl \<notin> set rest_text"
proof -
  let ?r = "concat (map (item_text t) (tl timestamp_format))"
  have y: "length (decimal_int (tm_year t + 1900)) \<le> 11"
    using assms by (intro year_length) (simp_all add: tm_ok_def)
  have "length ?r \<le> 21" using y by (simp add: timestamp_format_def two_digits_def)
  moreover have "nl \<notin> set ?r"
    using assms by (simp add: timestamp_format_def decimal_int_no_nl two_digits_no_nl tm_ok_def)
  moreover have "strftime dateTime_size timestamp_format t = Some (''timestamp: '' @ ?r)"
    using calculation(1) by (simp add: strftime_def timestamp_format_def dateTime_size_def Let_def)
  ultimately show ?thesis by blast
qed

section \<open>Properties\<close>

text \<open>
  The time stamp fits: whatever valid local time the clock gives, up to years of ten digits, text,
  newline and NUL stay within the 64 bytes of the array, the handler writes one line that begins
  with \<open>timestamp:\<close> and has its only newline at its end, and it releases the mutex. If the mutex
  is held it waits, which never ends when the interrupted thread holds it.
\<close>

lemma timestamp_fits:
  assumes "localtime (time w) = Some t" and "tm_ok t"
  shows "(\<exists>line. appendTimestamp os time localtime w f False = Some (Inr (fst (os_write os w f line), False)) \<and>
      length line < 64 \<and> take 11 line = ''timestamp: '' \<and> last line = nl \<and> nl \<notin> set (butlast line)) \<and>
    appendTimestamp os time localtime w f True = None"
proof -
  obtain r where r: "strftime dateTime_size timestamp_format t = Some (''timestamp: '' @ r)"
    "length r \<le> 21" "nl \<notin> set r"
    using timestamp_text [OF assms(2)] by blast
  then have line: "timestamp_line (localtime (time w)) = Inr (''timestamp: '' @ r @ [nl])"
    using assms(1) by (simp add: timestamp_line_def dateTime_size_def)
  then have "appendTimestamp os time localtime w f True = None" by (simp add: appendTimestamp_def)
  moreover have "appendTimestamp os time localtime w f False =
      Some (Inr (fst (os_write os w f (''timestamp: '' @ r @ [nl])), False))"
    using line by (simp add: appendTimestamp_def Let_def split: prod.splits)
  ultimately show ?thesis
    using r(2,3) by (intro conjI exI [of _ "''timestamp: '' @ r @ [nl]"]) (simp_all add: butlast_append)
qed

text \<open>A write to descriptor 0, the value of \<open>fd\<close> before the first connection, on 3 February 2021.\<close>

definition example_time :: tm where
  "example_time = \<lparr>tm_sec = 5, tm_min = 4, tm_hour = 23, tm_mday = 3, tm_mon = 1, tm_year = 121\<rparr>"

lemma example_line: "timestamp_line (Some example_time) = Inr (''timestamp: 20210203230405'' @ [nl])"
  by (simp add: timestamp_line_def strftime_def timestamp_format_def example_time_def dateTime_size_def
      two_digits_def decimal_int_def decimal.simps digit_def char_of_def bit_0)


lemma timestamp_fits_witness:
  "\<exists>line. appendTimestamp chunk_os (\<lambda>w. 1612393445) (\<lambda>s. Some example_time) [''x''] 0 False =
      Some (Inr (fst (os_write chunk_os [''x''] 0 line), False)) \<and> length line < 64 \<and> last line = nl"
  using timestamp_fits [of "\<lambda>s. Some example_time" "\<lambda>w. 1612393445" "[''x'']" example_time chunk_os 0]
  by (auto simp: tm_ok_def example_time_def)

end
