(* ===== verification/Stailq.thy ===== *)
theory Stailq
  imports Links
begin

text \<open>
  The singly linked tail queues of \<open>server/queue.h\<close> (the \<open>STAILQ\<close> macros). A head holds the first
  element and the address of the link behind the last one; an element holds the link to the
  next. The hooks of the debugging builds are empty here; \<open>Queue_Builds\<close> has them.
\<close>

section \<open>Data and macros\<close>

record stailq_mem =
  stqh_first :: "addr \<Rightarrow> ptr"
  stqh_last :: "addr \<Rightarrow> linkaddr"
  stqe_next :: nexts

definition STAILQ_FIRST :: "stailq_mem \<Rightarrow> addr \<Rightarrow> ptr" where
  "STAILQ_FIRST m head = stqh_first m head"

definition STAILQ_EMPTY :: "stailq_mem \<Rightarrow> addr \<Rightarrow> bool" where
  "STAILQ_EMPTY m head = (stqh_first m head = None)"

definition STAILQ_NEXT :: "stailq_mem \<Rightarrow> ptr \<Rightarrow> ptr result" where
  "STAILQ_NEXT m elm = deref (stqe_next m) elm"

text \<open>Assignments to the fields and through the address of a link.\<close>

abbreviation set_STAILQ_FIRST :: "stailq_mem \<Rightarrow> addr \<Rightarrow> ptr \<Rightarrow> stailq_mem" where
  "set_STAILQ_FIRST m head p \<equiv> m\<lparr>stqh_first := (stqh_first m)(head := p)\<rparr>"

abbreviation set_stqh_last :: "stailq_mem \<Rightarrow> addr \<Rightarrow> linkaddr \<Rightarrow> stailq_mem" where
  "set_stqh_last m head l \<equiv> m\<lparr>stqh_last := (stqh_last m)(head := l)\<rparr>"

definition set_STAILQ_NEXT :: "stailq_mem \<Rightarrow> ptr \<Rightarrow> ptr \<Rightarrow> stailq_mem result" where
  "set_STAILQ_NEXT m elm p = rbind (assign (stqe_next m) elm p) (\<lambda>n. Inr (m\<lparr>stqe_next := n\<rparr>))"

definition stailq_put :: "stailq_mem \<Rightarrow> linkaddr \<Rightarrow> ptr \<Rightarrow> stailq_mem result" where
  "stailq_put m l p =
     rbind (put_link (stqh_first m) (stqe_next m) l p) (\<lambda>(f, n).
     Inr (m\<lparr>stqh_first := f, stqe_next := n\<rparr>))"

definition STAILQ_INIT :: "stailq_mem \<Rightarrow> addr \<Rightarrow> stailq_mem" where
  "STAILQ_INIT m head = set_stqh_last (set_STAILQ_FIRST m head None) head (First_of head)"

definition STAILQ_CONCAT :: "stailq_mem \<Rightarrow> addr \<Rightarrow> addr \<Rightarrow> stailq_mem result" where
  "STAILQ_CONCAT m head1 head2 =
     (if \<not> STAILQ_EMPTY m head2 then
        rbind (stailq_put m (stqh_last m head1) (stqh_first m head2)) (\<lambda>m1.
        let m2 = set_stqh_last m1 head1 (stqh_last m1 head2)
        in Inr (STAILQ_INIT m2 head2))
      else Inr m)"

definition STAILQ_INSERT_AFTER :: "stailq_mem \<Rightarrow> addr \<Rightarrow> ptr \<Rightarrow> ptr \<Rightarrow> stailq_mem result" where
  "STAILQ_INSERT_AFTER m head tqelm elm =
     rbind (STAILQ_NEXT m tqelm) (\<lambda>p.
     rbind (set_STAILQ_NEXT m elm p) (\<lambda>m1.
     let m2 = (if p = None then set_stqh_last m1 head (Next_of (the elm)) else m1)
     in set_STAILQ_NEXT m2 tqelm elm))"

definition STAILQ_INSERT_HEAD :: "stailq_mem \<Rightarrow> addr \<Rightarrow> ptr \<Rightarrow> stailq_mem result" where
  "STAILQ_INSERT_HEAD m head elm =
     (let p = STAILQ_FIRST m head in
      rbind (set_STAILQ_NEXT m elm p) (\<lambda>m1.
      let m2 = (if p = None then set_stqh_last m1 head (Next_of (the elm)) else m1)
      in Inr (set_STAILQ_FIRST m2 head elm)))"

definition STAILQ_INSERT_TAIL :: "stailq_mem \<Rightarrow> addr \<Rightarrow> ptr \<Rightarrow> stailq_mem result" where
  "STAILQ_INSERT_TAIL m head elm =
     rbind (set_STAILQ_NEXT m elm None) (\<lambda>m1.
     rbind (stailq_put m1 (stqh_last m1 head) elm) (\<lambda>m2.
     Inr (set_stqh_last m2 head (Next_of (the elm)))))"

definition STAILQ_LAST :: "stailq_mem \<Rightarrow> addr \<Rightarrow> ptr result" where
  "STAILQ_LAST m head =
     (if STAILQ_EMPTY m head then Inr None else containerof (stqh_last m head))"

definition STAILQ_REMOVE_AFTER :: "stailq_mem \<Rightarrow> addr \<Rightarrow> ptr \<Rightarrow> stailq_mem result" where
  "STAILQ_REMOVE_AFTER m head elm =
     rbind (STAILQ_NEXT m elm) (\<lambda>p.
     rbind (STAILQ_NEXT m p) (\<lambda>q.
     rbind (set_STAILQ_NEXT m elm q) (\<lambda>m1.
     Inr (if q = None then set_stqh_last m1 head (Next_of (the elm)) else m1))))"

definition STAILQ_REMOVE_HEAD :: "stailq_mem \<Rightarrow> addr \<Rightarrow> stailq_mem result" where
  "STAILQ_REMOVE_HEAD m head =
     rbind (STAILQ_NEXT m (STAILQ_FIRST m head)) (\<lambda>p.
     let m1 = set_STAILQ_FIRST m head p
     in Inr (if p = None then set_stqh_last m1 head (First_of head) else m1))"

definition STAILQ_REMOVE :: "stailq_mem \<Rightarrow> addr \<Rightarrow> ptr \<Rightarrow> stailq_mem run" where
  "STAILQ_REMOVE m head elm =
     (if STAILQ_FIRST m head = elm then Some (STAILQ_REMOVE_HEAD m head)
      else obind (find_prev (STAILQ_NEXT m) elm (STAILQ_FIRST m head))
             (\<lambda>curelm. Some (STAILQ_REMOVE_AFTER m head curelm)))"

definition STAILQ_SWAP :: "stailq_mem \<Rightarrow> addr \<Rightarrow> addr \<Rightarrow> stailq_mem" where
  "STAILQ_SWAP m head1 head2 =
     (let swap_first = STAILQ_FIRST m head1;
          swap_last = stqh_last m head1;
          m1 = set_STAILQ_FIRST m head1 (STAILQ_FIRST m head2);
          m2 = set_stqh_last m1 head1 (stqh_last m1 head2);
          m3 = set_STAILQ_FIRST m2 head2 swap_first;
          m4 = set_stqh_last m3 head2 swap_last;
          m5 = (if STAILQ_EMPTY m4 head1 then set_stqh_last m4 head1 (First_of head1) else m4)
      in if STAILQ_EMPTY m5 head2 then set_stqh_last m5 head2 (First_of head2) else m5)"

definition STAILQ_FOREACH ::
  "('s \<Rightarrow> stailq_mem) \<Rightarrow> addr \<Rightarrow> (addr \<Rightarrow> 's \<Rightarrow> 's run) \<Rightarrow> 's \<Rightarrow> 's run" where
  "STAILQ_FOREACH mem head body s =
     for_each (\<lambda>s. STAILQ_NEXT (mem s)) body (STAILQ_FIRST (mem s) head) s"

definition STAILQ_FOREACH_FROM ::
  "('s \<Rightarrow> stailq_mem) \<Rightarrow> ptr \<Rightarrow> addr \<Rightarrow> (addr \<Rightarrow> 's \<Rightarrow> 's run) \<Rightarrow> 's \<Rightarrow> 's run" where
  "STAILQ_FOREACH_FROM mem var head body s =
     for_each (\<lambda>s. STAILQ_NEXT (mem s)) body
       (if var \<noteq> None then var else STAILQ_FIRST (mem s) head) s"

definition STAILQ_FOREACH_SAFE ::
  "('s \<Rightarrow> stailq_mem) \<Rightarrow> addr \<Rightarrow> (addr \<Rightarrow> 's \<Rightarrow> 's run) \<Rightarrow> 's \<Rightarrow> 's run" where
  "STAILQ_FOREACH_SAFE mem head body s =
     for_each_safe (\<lambda>s. STAILQ_NEXT (mem s)) body (STAILQ_FIRST (mem s) head) s"

definition STAILQ_FOREACH_FROM_SAFE ::
  "('s \<Rightarrow> stailq_mem) \<Rightarrow> ptr \<Rightarrow> addr \<Rightarrow> (addr \<Rightarrow> 's \<Rightarrow> 's run) \<Rightarrow> 's \<Rightarrow> 's run" where
  "STAILQ_FOREACH_FROM_SAFE mem var head body s =
     for_each_safe (\<lambda>s. STAILQ_NEXT (mem s)) body
       (if var \<noteq> None then var else STAILQ_FIRST (mem s) head) s"

section \<open>Queues in memory\<close>

definition stailq_rep :: "stailq_mem \<Rightarrow> addr \<Rightarrow> addr list \<Rightarrow> bool" where
  "stailq_rep m head as \<longleftrightarrow>
     chain (stqe_next m) (stqh_first m head) as \<and> stqh_last m head = link_end (First_of head) as"

lemmas stailq_defs = STAILQ_FIRST_def STAILQ_EMPTY_def STAILQ_NEXT_def set_STAILQ_NEXT_def
  STAILQ_INIT_def STAILQ_INSERT_AFTER_def STAILQ_INSERT_HEAD_def STAILQ_REMOVE_AFTER_def
  STAILQ_REMOVE_HEAD_def

lemma stailq_first: "stailq_rep m h as \<Longrightarrow> STAILQ_FIRST m h = first as"
  by (auto simp: stailq_rep_def STAILQ_FIRST_def dest: chain_first)

lemma stailq_rep_wf: "stailq_rep m h as \<Longrightarrow> distinct as \<and> set as \<subseteq> dom (stqe_next m)"
  by (auto simp: stailq_rep_def dest: chain_distinct seg_allocated)

text \<open>A queue keeps its elements when its head and its elements' links are left alone.\<close>

lemma stailq_frame:
  assumes "stailq_rep m g bs" "stqh_first m' g = stqh_first m g" "stqh_last m' g = stqh_last m g"
    "\<And>b. b \<in> set bs \<Longrightarrow> stqe_next m' b = stqe_next m b"
  shows "stailq_rep m' g bs"
  using assms seg_cong [of bs "stqe_next m" "stqe_next m'"] by (auto simp: stailq_rep_def)

lemma stailq_insert_head:
  assumes "stailq_rep m h as" "a \<in> dom (stqe_next m)" "a \<notin> set as"
  shows "\<exists>m'. STAILQ_INSERT_HEAD m h (Some a) = Inr m' \<and> stailq_rep m' h (a # as) \<and>
    dom (stqe_next m') = dom (stqe_next m) \<and>
    (\<forall>g bs. g \<noteq> h \<longrightarrow> stailq_rep m g bs \<longrightarrow> a \<notin> set bs \<longrightarrow> stailq_rep m' g bs)"
  using assms by (cases as) (auto simp: stailq_rep_def stailq_defs Let_def, auto split: option.splits)

lemma stailq_insert_tail:
  assumes rep: "stailq_rep m h as" and a: "a \<in> dom (stqe_next m)" "a \<notin> set as"
  shows "\<exists>m'. STAILQ_INSERT_TAIL m h (Some a) = Inr m' \<and> stailq_rep m' h (as @ [a]) \<and>
    dom (stqe_next m') = dom (stqe_next m) \<and>
    (\<forall>g bs. g \<noteq> h \<longrightarrow> stailq_rep m g bs \<longrightarrow> set bs \<inter> set (a # as) = {} \<longrightarrow> stailq_rep m' g bs)"
proof -
  let ?n = "(stqe_next m)(a \<mapsto> None)"
  have "chain ?n (stqh_first m h) (as @ [])" "chain ?n (Some a) [a]" "set as \<inter> set [a] = {}"
    using rep a by (simp_all add: stailq_rep_def)
  from put_link_chain [of ?n "stqh_first m" h as "[]", OF this] obtain f n where
    p: "put_link (stqh_first m) ?n (link_end (First_of h) as) (Some a) = Inr (f, n)"
      "chain n (f h) (as @ [a])" "\<forall>g. g \<noteq> h \<longrightarrow> f g = stqh_first m g"
      "\<forall>b. b \<notin> set as \<longrightarrow> n b = ?n b" "dom n = dom ?n"
    by blast
  let ?m = "m\<lparr>stqh_first := f, stqe_next := n, stqh_last := (stqh_last m)(h := Next_of a)\<rparr>"
  have "STAILQ_INSERT_TAIL m h (Some a) = Inr ?m"
    using rep a p(1) by (auto simp: STAILQ_INSERT_TAIL_def set_STAILQ_NEXT_def stailq_put_def stailq_rep_def)
  moreover have "stailq_rep ?m h (as @ [a])" using p(2) by (simp add: stailq_rep_def)
  moreover have "stailq_rep ?m g bs"
    if "g \<noteq> h" "stailq_rep m g bs" "set bs \<inter> set (a # as) = {}" for g bs
  proof (rule stailq_frame [OF that(2)])
    show "stqe_next ?m b = stqe_next m b" if "b \<in> set bs" for b
      using that p(4) \<open>set bs \<inter> set (a # as) = {}\<close> by auto
  qed (use that p(3) in simp_all)
  ultimately show ?thesis using p(5) a by (intro exI [of _ ?m]) auto
qed

lemma stailq_insert_after:
  assumes "stailq_rep m h (as @ b # cs)" "a \<in> dom (stqe_next m)" "a \<notin> set (as @ b # cs)"
  shows "\<exists>m'. STAILQ_INSERT_AFTER m h (Some b) (Some a) = Inr m' \<and> stailq_rep m' h (as @ b # a # cs)"
proof -
  have c: "stqe_next m b = Some (first cs)"
    "chain ((stqe_next m)(a \<mapsto> first cs, b \<mapsto> Some a)) (stqh_first m h) (as @ b # a # cs)"
    using chain_link [of "stqe_next m" "stqh_first m h" as b cs a] assms by (simp_all add: stailq_rep_def)
  moreover have "stqh_last m h = link_end (Next_of b) cs" using assms(1) by (simp add: stailq_rep_def)
  ultimately show ?thesis using assms(2,3)
    by (cases cs) (auto simp: stailq_rep_def stailq_defs Let_def simp del: seg.simps)
qed

lemma stailq_remove_head:
  assumes "stailq_rep m h (a # as)"
  shows "\<exists>m'. STAILQ_REMOVE_HEAD m h = Inr m' \<and> stailq_rep m' h as \<and> stqe_next m' = stqe_next m \<and>
    (\<forall>g. g \<noteq> h \<longrightarrow> stqh_first m' g = stqh_first m g \<and> stqh_last m' g = stqh_last m g)"
proof -
  from assms obtain r where r: "stqh_first m h = Some a" "stqe_next m a = Some r" "chain (stqe_next m) r as"
    by (auto simp: stailq_rep_def split: option.splits)
  with chain_first [OF r(3)] assms show ?thesis
    by (cases as) (auto simp: stailq_rep_def stailq_defs Let_def, auto split: option.splits)
qed

lemma stailq_remove_after:
  assumes "stailq_rep m h (as @ b # a # cs)"
  shows "\<exists>m'. STAILQ_REMOVE_AFTER m h (Some b) = Inr m' \<and> stailq_rep m' h (as @ b # cs) \<and>
    stqe_next m' = (stqe_next m)(b \<mapsto> first cs) \<and>
    (\<forall>g. g \<noteq> h \<longrightarrow> stqh_first m' g = stqh_first m g \<and> stqh_last m' g = stqh_last m g)"
proof -
  have c: "stqe_next m a = Some (first cs)" "stqe_next m b = Some (Some a)"
    "chain ((stqe_next m)(b \<mapsto> first cs)) (stqh_first m h) (as @ b # cs)"
    using chain_unlink [of "stqe_next m" "stqh_first m h" as b a cs] assms by (simp_all add: stailq_rep_def)
  moreover have "stqh_last m h = link_end (Next_of a) cs" using assms by (simp add: stailq_rep_def)
  ultimately show ?thesis
    by (cases cs) (auto simp: stailq_rep_def stailq_defs simp del: seg.simps)
qed

text \<open>Removal of any element of the queue.\<close>

lemma stailq_remove:
  assumes rep: "stailq_rep m h as" and a: "a \<in> set as"
  shows "\<exists>m'. STAILQ_REMOVE m h (Some a) = Some (Inr m') \<and> stailq_rep m' h (remove1 a as) \<and>
    dom (stqe_next m') = dom (stqe_next m) \<and>
    (\<forall>g bs. g \<noteq> h \<longrightarrow> stailq_rep m g bs \<longrightarrow> set bs \<inter> set as = {} \<longrightarrow> stailq_rep m' g bs)"
proof (cases "STAILQ_FIRST m h = Some a")
  case True
  then obtain bs where as: "as = a # bs" using stailq_first [OF rep] by (cases as) auto
  from stailq_remove_head [of m h a bs] rep as obtain m' where
    m': "STAILQ_REMOVE_HEAD m h = Inr m'" "stailq_rep m' h bs" "stqe_next m' = stqe_next m"
      "\<forall>g. g \<noteq> h \<longrightarrow> stqh_first m' g = stqh_first m g \<and> stqh_last m' g = stqh_last m g"
    by blast
  then have "stailq_rep m' g bs'" if "g \<noteq> h" "stailq_rep m g bs'" for g bs'
    using that by (intro stailq_frame [of m g bs' m']) simp_all
  then show ?thesis using True as m' by (simp add: STAILQ_REMOVE_def)
next
  case False
  obtain us cs where us: "as = us @ a # cs" "a \<notin> set us" using a by (meson split_list_first)
  with False stailq_first [OF rep] have "us \<noteq> []" by (cases us) auto
  then obtain vs b where "us = vs @ [b]" by (metis rev_exhaust)
  with us have as: "as = vs @ b # a # cs" "remove1 a as = vs @ b # cs" by (auto simp: remove1_append)
  from stailq_remove_after [of m h vs b a cs] rep as obtain m' where
    m': "STAILQ_REMOVE_AFTER m h (Some b) = Inr m'" "stailq_rep m' h (vs @ b # cs)"
      "stqe_next m' = (stqe_next m)(b \<mapsto> first cs)"
      "\<forall>g. g \<noteq> h \<longrightarrow> stqh_first m' g = stqh_first m g \<and> stqh_last m' g = stqh_last m g"
    by blast
  have "STAILQ_FIRST m h = first (vs @ [b])" using stailq_first [OF rep] as by (cases vs) auto
  moreover have "find_prev (STAILQ_NEXT m) (Some a) (first (vs @ [b])) = Some (Inr (Some b))"
    using find_prev_chain [of "stqe_next m" "stqh_first m h" vs b a cs] rep as
    by (simp add: stailq_rep_def STAILQ_NEXT_def [abs_def])
  ultimately have "STAILQ_REMOVE m h (Some a) = Some (Inr m')"
    using False m'(1) by (simp add: STAILQ_REMOVE_def)
  moreover have "stailq_rep m' g bs" if "g \<noteq> h" "stailq_rep m g bs" "set bs \<inter> set as = {}" for g bs
    using that m' as by (intro stailq_frame [of m g bs m']) auto
  moreover have "b \<in> dom (stqe_next m)" using stailq_rep_wf [OF rep] as by auto
  ultimately show ?thesis using m' as(2) by (auto simp: insert_absorb)
qed

lemma stailq_concat:
  assumes rep: "stailq_rep m g as" "stailq_rep m h bs" and gh: "g \<noteq> h" "set as \<inter> set bs = {}"
  shows "\<exists>m'. STAILQ_CONCAT m g h = Inr m' \<and> stailq_rep m' g (as @ bs) \<and> stailq_rep m' h [] \<and>
    dom (stqe_next m') = dom (stqe_next m)"
proof (cases bs)
  case Nil
  then show ?thesis using rep by (simp add: STAILQ_CONCAT_def STAILQ_EMPTY_def stailq_rep_def)
next
  case (Cons b cs)
  from put_link_chain [of "stqe_next m" "stqh_first m" g as "[]" "stqh_first m h" bs] rep gh(2)
  obtain f n where
    p: "put_link (stqh_first m) (stqe_next m) (link_end (First_of g) as) (stqh_first m h) = Inr (f, n)"
      "chain n (f g) (as @ bs)" "dom n = dom (stqe_next m)" "\<forall>k. k \<noteq> g \<longrightarrow> f k = stqh_first m k"
    by (auto simp: stailq_rep_def)
  then show ?thesis using rep gh(1) Cons
    by (auto simp: STAILQ_CONCAT_def STAILQ_EMPTY_def stailq_put_def stailq_rep_def STAILQ_INIT_def Let_def)
qed

lemma stailq_last:
  "stailq_rep m h as \<Longrightarrow> STAILQ_LAST m h = Inr (if as = [] then None else Some (last as))"
  using stailq_first [of m h as]
  by (auto simp: STAILQ_LAST_def STAILQ_EMPTY_def stailq_rep_def containerof_def link_end_def
      STAILQ_FIRST_def)

lemma stailq_swap:
  assumes "stailq_rep m g as" "stailq_rep m h bs" "g \<noteq> h"
  shows "stailq_rep (STAILQ_SWAP m g h) g bs \<and> stailq_rep (STAILQ_SWAP m g h) h as"
  using assms chain_first [of "stqe_next m" "stqh_first m g" as]
    chain_first [of "stqe_next m" "stqh_first m h" bs]
  by (cases as; cases bs)
    (auto simp: stailq_rep_def STAILQ_SWAP_def STAILQ_FIRST_def STAILQ_EMPTY_def Let_def)

section \<open>The interfaces\<close>

interpretation stailq: linked_lists stailq_rep "\<lambda>m. dom (stqe_next m)" STAILQ_INIT
  "\<lambda>m h a. Some (STAILQ_INSERT_HEAD m h (Some a))" "\<lambda>m h a. STAILQ_REMOVE m h (Some a)"
proof unfold_locales
  fix m :: stailq_mem and h as a
  show "stailq_rep m h as \<Longrightarrow> distinct as \<and> set as \<subseteq> dom (stqe_next m)" by (rule stailq_rep_wf)
  show "stailq_rep (STAILQ_INIT m h) h [] \<and> dom (stqe_next (STAILQ_INIT m h)) = dom (stqe_next m) \<and>
      (\<forall>g bs. g \<noteq> h \<longrightarrow> stailq_rep m g bs \<longrightarrow> stailq_rep (STAILQ_INIT m h) g bs)"
    by (simp add: stailq_rep_def STAILQ_INIT_def)
  show "\<exists>m'. Some (STAILQ_INSERT_HEAD m h (Some a)) = Some (Inr m') \<and> stailq_rep m' h (a # as) \<and>
      dom (stqe_next m') = dom (stqe_next m) \<and>
      (\<forall>g bs. g \<noteq> h \<longrightarrow> stailq_rep m g bs \<longrightarrow> set bs \<inter> set (a # as) = {} \<longrightarrow> stailq_rep m' g bs)"
    if "stailq_rep m h as" "a \<in> dom (stqe_next m)" "a \<notin> set as"
    using stailq_insert_head [OF that] by auto
  show "\<exists>m'. STAILQ_REMOVE m h (Some a) = Some (Inr m') \<and> stailq_rep m' h (remove1 a as) \<and>
      dom (stqe_next m') = dom (stqe_next m) \<and>
      (\<forall>g bs. g \<noteq> h \<longrightarrow> stailq_rep m g bs \<longrightarrow> set bs \<inter> set as = {} \<longrightarrow> stailq_rep m' g bs)"
    if "stailq_rep m h as" "a \<in> set as"
    using that by (rule stailq_remove)
qed

interpretation stailq: tail_queues stailq_rep "\<lambda>m. dom (stqe_next m)" STAILQ_INIT
  "\<lambda>m h a. Some (STAILQ_INSERT_HEAD m h (Some a))" "\<lambda>m h a. STAILQ_REMOVE m h (Some a)"
  STAILQ_FIRST "\<lambda>m h a. Some (STAILQ_INSERT_TAIL m h (Some a))" "\<lambda>m g h. Some (STAILQ_CONCAT m g h)"
proof unfold_locales
  fix m :: stailq_mem and g h as bs a
  show "stailq_rep m h as \<Longrightarrow> STAILQ_FIRST m h = first as" by (rule stailq_first)
  show "\<exists>m'. Some (STAILQ_INSERT_TAIL m h (Some a)) = Some (Inr m') \<and> stailq_rep m' h (as @ [a]) \<and>
      dom (stqe_next m') = dom (stqe_next m) \<and>
      (\<forall>g bs. g \<noteq> h \<longrightarrow> stailq_rep m g bs \<longrightarrow> set bs \<inter> set (a # as) = {} \<longrightarrow> stailq_rep m' g bs)"
    if "stailq_rep m h as" "a \<in> dom (stqe_next m)" "a \<notin> set as"
    using stailq_insert_tail [OF that] by simp
  show "\<exists>m'. Some (STAILQ_CONCAT m g h) = Some (Inr m') \<and> stailq_rep m' g (as @ bs) \<and>
      stailq_rep m' h [] \<and> dom (stqe_next m') = dom (stqe_next m)"
    if "stailq_rep m g as" "stailq_rep m h bs" "g \<noteq> h" "set as \<inter> set bs = {}"
    using stailq_concat [OF that] by simp
qed

end
