(* ===== verification/List_Queue.thy ===== *)
theory List_Queue
  imports Links
begin

text \<open>
  The doubly linked lists of \<open>server/queue.h\<close> (the \<open>LIST\<close> macros). An element holds the link to the
  next element and the address of the link that points to itself. The hooks of the debugging builds
  are empty here; \<open>Queue_Builds\<close> has the macros with them.
\<close>

section \<open>Data and macros\<close>

record list_mem =
  lh_first :: "addr \<Rightarrow> ptr"
  le_next :: nexts
  le_prev :: "addr \<rightharpoonup> linkaddr"

definition LIST_EMPTY :: "list_mem \<Rightarrow> addr \<Rightarrow> bool" where
  "LIST_EMPTY m head = (lh_first m head = None)"

definition LIST_FIRST :: "list_mem \<Rightarrow> addr \<Rightarrow> ptr" where
  "LIST_FIRST m head = lh_first m head"

definition LIST_NEXT :: "list_mem \<Rightarrow> ptr \<Rightarrow> ptr result" where
  "LIST_NEXT m elm = deref (le_next m) elm"

text \<open>Assignments to the fields and through the address of a link.\<close>

abbreviation set_LIST_FIRST :: "list_mem \<Rightarrow> addr \<Rightarrow> ptr \<Rightarrow> list_mem" where
  "set_LIST_FIRST m head p \<equiv> m\<lparr>lh_first := (lh_first m)(head := p)\<rparr>"

definition set_LIST_NEXT :: "list_mem \<Rightarrow> ptr \<Rightarrow> ptr \<Rightarrow> list_mem result" where
  "set_LIST_NEXT m elm p = rbind (assign (le_next m) elm p) (\<lambda>n. Inr (m\<lparr>le_next := n\<rparr>))"

definition set_le_prev :: "list_mem \<Rightarrow> ptr \<Rightarrow> linkaddr \<Rightarrow> list_mem result" where
  "set_le_prev m elm l = rbind (assign (le_prev m) elm l) (\<lambda>pv. Inr (m\<lparr>le_prev := pv\<rparr>))"

definition set_le_prev_unless_null :: "list_mem \<Rightarrow> ptr \<Rightarrow> linkaddr \<Rightarrow> list_mem result" where
  "set_le_prev_unless_null m p l =
     rbind (set_prev_unless_null (le_prev m) p l) (\<lambda>pv. Inr (m\<lparr>le_prev := pv\<rparr>))"

definition list_put :: "list_mem \<Rightarrow> linkaddr \<Rightarrow> ptr \<Rightarrow> list_mem result" where
  "list_put m l p =
     rbind (put_link (lh_first m) (le_next m) l p) (\<lambda>(f, n). Inr (m\<lparr>lh_first := f, le_next := n\<rparr>))"

definition LIST_INIT :: "list_mem \<Rightarrow> addr \<Rightarrow> list_mem" where
  "LIST_INIT m head = set_LIST_FIRST m head None"

definition LIST_INSERT_AFTER :: "list_mem \<Rightarrow> ptr \<Rightarrow> ptr \<Rightarrow> list_mem result" where
  "LIST_INSERT_AFTER m listelm elm =
     rbind (LIST_NEXT m listelm) (\<lambda>p.
     rbind (set_LIST_NEXT m elm p) (\<lambda>m1.
     rbind (LIST_NEXT m1 listelm) (\<lambda>q.
     rbind (if p \<noteq> None then set_le_prev m1 q (Next_of (the elm)) else Inr m1) (\<lambda>m2.
     rbind (set_LIST_NEXT m2 listelm elm) (\<lambda>m3.
     set_le_prev m3 elm (Next_of (the listelm)))))))"

definition LIST_INSERT_BEFORE :: "list_mem \<Rightarrow> ptr \<Rightarrow> ptr \<Rightarrow> list_mem result" where
  "LIST_INSERT_BEFORE m listelm elm =
     rbind (deref (le_prev m) listelm) (\<lambda>l.
     rbind (set_le_prev m elm l) (\<lambda>m1.
     rbind (set_LIST_NEXT m1 elm listelm) (\<lambda>m2.
     rbind (deref (le_prev m2) listelm) (\<lambda>l'.
     rbind (list_put m2 l' elm) (\<lambda>m3.
     set_le_prev m3 listelm (Next_of (the elm)))))))"

definition LIST_INSERT_HEAD :: "list_mem \<Rightarrow> addr \<Rightarrow> ptr \<Rightarrow> list_mem result" where
  "LIST_INSERT_HEAD m head elm =
     rbind (set_LIST_NEXT m elm (LIST_FIRST m head)) (\<lambda>m1.
     rbind (set_le_prev_unless_null m1 (LIST_FIRST m1 head) (Next_of (the elm))) (\<lambda>m2.
     set_le_prev (set_LIST_FIRST m2 head elm) elm (First_of head)))"

definition LIST_PREV :: "list_mem \<Rightarrow> ptr \<Rightarrow> addr \<Rightarrow> ptr result" where
  "LIST_PREV m elm head =
     rbind (deref (le_prev m) elm) (\<lambda>l. if l = First_of head then Inr None else containerof l)"

definition LIST_REMOVE :: "list_mem \<Rightarrow> ptr \<Rightarrow> list_mem result" where
  "LIST_REMOVE m elm =
     rbind (LIST_NEXT m elm) (\<lambda>p.
     rbind (deref (le_prev m) elm) (\<lambda>l.
     rbind (set_le_prev_unless_null m p l) (\<lambda>m1.
     rbind (LIST_NEXT m1 elm) (\<lambda>q.
     rbind (deref (le_prev m1) elm) (\<lambda>l'.
     list_put m1 l' q)))))"

definition LIST_SWAP :: "list_mem \<Rightarrow> addr \<Rightarrow> addr \<Rightarrow> list_mem result" where
  "LIST_SWAP m head1 head2 =
     (let swap_tmp = LIST_FIRST m head1;
          m1 = set_LIST_FIRST m head1 (LIST_FIRST m head2);
          m2 = set_LIST_FIRST m1 head2 swap_tmp
      in rbind (set_le_prev_unless_null m2 (LIST_FIRST m2 head1) (First_of head1)) (\<lambda>m3.
         set_le_prev_unless_null m3 (LIST_FIRST m3 head2) (First_of head2)))"

definition LIST_FOREACH ::
  "('s \<Rightarrow> list_mem) \<Rightarrow> addr \<Rightarrow> (addr \<Rightarrow> 's \<Rightarrow> 's run) \<Rightarrow> 's \<Rightarrow> 's run" where
  "LIST_FOREACH mem head body s =
     for_each (\<lambda>s. LIST_NEXT (mem s)) body (LIST_FIRST (mem s) head) s"

definition LIST_FOREACH_FROM ::
  "('s \<Rightarrow> list_mem) \<Rightarrow> ptr \<Rightarrow> addr \<Rightarrow> (addr \<Rightarrow> 's \<Rightarrow> 's run) \<Rightarrow> 's \<Rightarrow> 's run" where
  "LIST_FOREACH_FROM mem var head body s =
     for_each (\<lambda>s. LIST_NEXT (mem s)) body
       (if var \<noteq> None then var else LIST_FIRST (mem s) head) s"

definition LIST_FOREACH_SAFE ::
  "('s \<Rightarrow> list_mem) \<Rightarrow> addr \<Rightarrow> (addr \<Rightarrow> 's \<Rightarrow> 's run) \<Rightarrow> 's \<Rightarrow> 's run" where
  "LIST_FOREACH_SAFE mem head body s =
     for_each_safe (\<lambda>s. LIST_NEXT (mem s)) body (LIST_FIRST (mem s) head) s"

definition LIST_FOREACH_FROM_SAFE ::
  "('s \<Rightarrow> list_mem) \<Rightarrow> ptr \<Rightarrow> addr \<Rightarrow> (addr \<Rightarrow> 's \<Rightarrow> 's run) \<Rightarrow> 's \<Rightarrow> 's run" where
  "LIST_FOREACH_FROM_SAFE mem var head body s =
     for_each_safe (\<lambda>s. LIST_NEXT (mem s)) body
       (if var \<noteq> None then var else LIST_FIRST (mem s) head) s"

section \<open>Lists in memory\<close>

definition list_rep :: "list_mem \<Rightarrow> addr \<Rightarrow> addr list \<Rightarrow> bool" where
  "list_rep m head as \<longleftrightarrow>
     chain (le_next m) (lh_first m head) as \<and> backs (le_prev m) (First_of head) as"

definition list_elements :: "list_mem \<Rightarrow> addr set" where
  "list_elements m = dom (le_next m) \<inter> dom (le_prev m)"

lemma list_first: "list_rep m h as \<Longrightarrow> LIST_FIRST m h = first as"
  by (auto simp: list_rep_def LIST_FIRST_def dest: chain_first)

lemma list_rep_wf: "list_rep m h as \<Longrightarrow> distinct as \<and> set as \<subseteq> list_elements m"
  by (auto simp: list_rep_def list_elements_def dest: chain_distinct seg_allocated backs_allocated)

lemma list_frame:
  assumes "list_rep m g bs" "lh_first m' g = lh_first m g"
    "\<And>b. b \<in> set bs \<Longrightarrow> le_next m' b = le_next m b \<and> le_prev m' b = le_prev m b"
  shows "list_rep m' g bs"
  using assms seg_cong [of bs "le_next m" "le_next m'"] backs_cong [of bs "le_prev m" "le_prev m'"]
  by (auto simp: list_rep_def)

lemma list_insert_head:
  assumes rep: "list_rep m h as" and a: "a \<in> list_elements m" "a \<notin> set as"
  shows "\<exists>m'. LIST_INSERT_HEAD m h (Some a) = Inr m' \<and> list_rep m' h (a # as) \<and>
    list_elements m' = list_elements m \<and>
    (\<forall>g bs. g \<noteq> h \<longrightarrow> list_rep m g bs \<longrightarrow> set bs \<inter> set (a # as) = {} \<longrightarrow> list_rep m' g bs)"
proof -
  obtain pv where pv: "set_prev_unless_null (le_prev m) (first as) (Next_of a) = Inr pv"
    "backs pv (Next_of a) as" "dom pv = dom (le_prev m)" "\<forall>b. b \<notin> set as \<longrightarrow> pv b = le_prev m b"
    using set_prev_backs [of "le_prev m" "First_of h" as "Next_of a"] rep list_rep_wf [OF rep]
    by (auto simp: list_rep_def)
  let ?m = "m\<lparr>le_next := (le_next m)(a \<mapsto> first as), le_prev := pv(a \<mapsto> First_of h),
    lh_first := (lh_first m)(h := Some a)\<rparr>"
  have f: "lh_first m h = first as" using list_first [OF rep] by (simp add: LIST_FIRST_def)
  have "LIST_INSERT_HEAD m h (Some a) = Inr ?m"
    using a pv f by (auto simp: LIST_INSERT_HEAD_def set_LIST_NEXT_def set_le_prev_def
        set_le_prev_unless_null_def LIST_FIRST_def list_elements_def)
  moreover have "list_rep ?m h (a # as)" using rep a pv(2) f by (simp add: list_rep_def)
  moreover have "list_elements ?m = list_elements m"
    using a pv(3) by (auto simp: list_elements_def)
  moreover have "list_rep ?m g bs"
    if "g \<noteq> h" "list_rep m g bs" "set bs \<inter> set (a # as) = {}" for g bs
    using that pv(4) by (intro list_frame [OF that(2)]) auto
  ultimately show ?thesis by blast
qed

text \<open>Removal needs no head: the element knows the link that points to it.\<close>

lemma list_remove:
  assumes rep: "list_rep m h (us @ a # vs)"
  shows "\<exists>m'. LIST_REMOVE m (Some a) = Inr m' \<and> list_rep m' h (us @ vs) \<and>
    list_elements m' = list_elements m \<and>
    (\<forall>g bs. g \<noteq> h \<longrightarrow> list_rep m g bs \<longrightarrow> set bs \<inter> set (us @ a # vs) = {} \<longrightarrow> list_rep m' g bs)"
proof -
  let ?l = "link_end (First_of h) us"
  have d: "distinct (us @ a # vs)" using list_rep_wf [OF rep] by blast
  have b: "backs (le_prev m) (First_of h) us" "le_prev m a = Some ?l" "backs (le_prev m) (Next_of a) vs"
    using rep by (simp_all add: list_rep_def)
  obtain pv where pv: "set_prev_unless_null (le_prev m) (first vs) ?l = Inr pv"
    "backs pv ?l vs" "dom pv = dom (le_prev m)" "\<forall>b. b \<notin> set vs \<longrightarrow> pv b = le_prev m b"
    using set_prev_backs [OF b(3), of ?l] d by auto
  have n: "le_next m a = Some (first vs)" "chain (le_next m) (first vs) vs"
    using rep by (auto simp: list_rep_def seg_append dest: chain_first split: option.splits)
  have "chain (le_next m) (lh_first m h) (us @ a # vs)" "set us \<inter> set vs = {}"
    using rep d by (auto simp: list_rep_def)
  from put_link_chain [of _ "lh_first m" h us "a # vs", OF this(1) n(2) this(2)] obtain f n' where
    p: "put_link (lh_first m) (le_next m) ?l (first vs) = Inr (f, n')" "chain n' (f h) (us @ vs)"
      "\<forall>g. g \<noteq> h \<longrightarrow> f g = lh_first m g" "\<forall>b. b \<notin> set us \<longrightarrow> n' b = le_next m b"
      "dom n' = dom (le_next m)"
    by blast
  let ?m = "m\<lparr>le_prev := pv, lh_first := f, le_next := n'\<rparr>"
  have "pv a = Some ?l" using pv(4) b(2) d by simp
  then have "LIST_REMOVE m (Some a) = Inr ?m"
    using n(1) b(2) pv(1) p(1)
    by (simp add: LIST_REMOVE_def LIST_NEXT_def set_le_prev_unless_null_def list_put_def)
  moreover have "backs pv (First_of h) us"
    using b(1) backs_cong [of us pv "le_prev m"] pv(4) d by auto
  then have "list_rep ?m h (us @ vs)" using p(2) pv(2) by (simp add: list_rep_def)
  moreover have "list_elements ?m = list_elements m" using p(5) pv(3) by (simp add: list_elements_def)
  moreover have "list_rep ?m g bs"
    if "g \<noteq> h" "list_rep m g bs" "set bs \<inter> set (us @ a # vs) = {}" for g bs
    using that pv(4) p(3,4) by (intro list_frame [OF that(2)]) auto
  ultimately show ?thesis by blast
qed

text \<open>Insertion behind and before an element of the list.\<close>

lemma list_insert_after:
  assumes rep: "list_rep m h (us @ b # vs)" and a: "a \<in> list_elements m" "a \<notin> set (us @ b # vs)"
  shows "\<exists>m'. LIST_INSERT_AFTER m (Some b) (Some a) = Inr m' \<and> list_rep m' h (us @ b # a # vs)"
proof -
  have d: "distinct (us @ b # vs)" using list_rep_wf [OF rep] by blast
  have n: "le_next m b = Some (first vs)"
    "chain ((le_next m)(a \<mapsto> first vs, b \<mapsto> Some a)) (lh_first m h) (us @ b # a # vs)"
    using chain_link [of "le_next m" "lh_first m h" us b vs a] rep a by (simp_all add: list_rep_def)
  have bk: "backs (le_prev m) (First_of h) (us @ [b])" "backs (le_prev m) (Next_of b) vs"
    using rep by (simp_all add: list_rep_def)
  obtain pv where pv: "set_prev_unless_null (le_prev m) (first vs) (Next_of a) = Inr pv"
    "backs pv (Next_of a) vs" "dom pv = dom (le_prev m)" "\<forall>b. b \<notin> set vs \<longrightarrow> pv b = le_prev m b"
    using set_prev_backs [OF bk(2), of "Next_of a"] d by auto
  let ?m = "m\<lparr>le_next := (le_next m)(a \<mapsto> first vs, b \<mapsto> Some a), le_prev := pv(a \<mapsto> Next_of b)\<rparr>"
  obtain k where "pv a = Some k" using a(1) pv(3) by (auto simp: list_elements_def)
  then have "LIST_INSERT_AFTER m (Some b) (Some a) = Inr ?m"
    using n(1) a pv(1)
    by (cases vs) (auto simp: LIST_INSERT_AFTER_def LIST_NEXT_def set_LIST_NEXT_def set_le_prev_def
        set_prev_unless_null_def list_elements_def)
  moreover have "backs pv (First_of h) (us @ [b])"
    using bk(1) backs_cong [of "us @ [b]" pv "le_prev m"] pv(4) d by auto
  then have "list_rep ?m h (us @ b # a # vs)" using n(2) pv(2) a by (simp add: list_rep_def)
  ultimately show ?thesis by blast
qed

lemma list_insert_before:
  assumes rep: "list_rep m h (us @ b # vs)" and a: "a \<in> list_elements m" "a \<notin> set (us @ b # vs)"
  shows "\<exists>m'. LIST_INSERT_BEFORE m (Some b) (Some a) = Inr m' \<and> list_rep m' h (us @ a # b # vs)"
proof -
  let ?l = "link_end (First_of h) us" and ?n = "(le_next m)(a \<mapsto> Some b)"
  have d: "distinct (us @ b # vs)" using list_rep_wf [OF rep] by blast
  have bk: "backs (le_prev m) (First_of h) us" "le_prev m b = Some ?l" "backs (le_prev m) (Next_of b) vs"
    using rep by (simp_all add: list_rep_def)
  have c: "chain ?n (lh_first m h) (us @ b # vs)" using rep a by (simp add: list_rep_def del: seg.simps)
  then have "chain ?n (Some a) (a # b # vs)" using a by (auto simp: seg_append)
  from put_link_chain [of ?n "lh_first m" h us "b # vs", OF c this] a d obtain f n where
    p: "put_link (lh_first m) ?n ?l (Some a) = Inr (f, n)" "chain n (f h) (us @ a # b # vs)"
    by auto
  let ?m = "m\<lparr>lh_first := f, le_next := n, le_prev := (le_prev m)(a \<mapsto> ?l, b \<mapsto> Next_of a)\<rparr>"
  have "LIST_INSERT_BEFORE m (Some b) (Some a) = Inr ?m"
    using bk(2) a p(1)
    by (auto simp: LIST_INSERT_BEFORE_def set_le_prev_def set_LIST_NEXT_def list_put_def list_elements_def)
  moreover have "list_rep ?m h (us @ a # b # vs)" using p(2) bk a d by (auto simp: list_rep_def)
  ultimately show ?thesis by blast
qed

lemma list_prev:
  assumes "list_rep m h (us @ a # vs)"
  shows "LIST_PREV m (Some a) h = Inr (if us = [] then None else Some (last us))"
  using assms by (auto simp: LIST_PREV_def list_rep_def link_end_def containerof_def)

lemma list_swap:
  assumes rep: "list_rep m g as" "list_rep m h bs" and gh: "g \<noteq> h" "set as \<inter> set bs = {}"
  shows "\<exists>m'. LIST_SWAP m g h = Inr m' \<and> list_rep m' g bs \<and> list_rep m' h as"
proof -
  have d: "distinct as" "distinct bs" using list_rep_wf rep by blast+
  obtain pv where pv: "set_prev_unless_null (le_prev m) (first bs) (First_of g) = Inr pv"
    "backs pv (First_of g) bs" "\<forall>b. b \<notin> set bs \<longrightarrow> pv b = le_prev m b"
    using set_prev_backs [of "le_prev m" "First_of h" bs "First_of g"] rep d by (auto simp: list_rep_def)
  have "backs pv (First_of g) as"
    using rep(1) backs_cong [of as pv "le_prev m"] pv(3) gh(2) by (auto simp: list_rep_def)
  from set_prev_backs [OF this d(1), of "First_of h"] obtain pv' where
    pv': "set_prev_unless_null pv (first as) (First_of h) = Inr pv'" "backs pv' (First_of h) as"
      "\<forall>b. b \<notin> set as \<longrightarrow> pv' b = pv b" by blast
  have "backs pv' (First_of g) bs"
    using pv(2) backs_cong [of bs pv' pv] pv'(3) gh(2) by auto
  then show ?thesis
    using rep gh(1) pv(1) pv' list_first [OF rep(1)] list_first [OF rep(2)]
    by (auto simp: LIST_SWAP_def LIST_FIRST_def set_le_prev_unless_null_def list_rep_def Let_def)
qed

section \<open>The interface\<close>

interpretation list: linked_lists list_rep list_elements LIST_INIT
  "\<lambda>m h a. Some (LIST_INSERT_HEAD m h (Some a))" "\<lambda>m h a. Some (LIST_REMOVE m (Some a))"
proof unfold_locales
  fix m :: list_mem and h as a
  show "list_rep m h as \<Longrightarrow> distinct as \<and> set as \<subseteq> list_elements m" by (rule list_rep_wf)
  show "list_rep (LIST_INIT m h) h [] \<and> list_elements (LIST_INIT m h) = list_elements m \<and>
      (\<forall>g bs. g \<noteq> h \<longrightarrow> list_rep m g bs \<longrightarrow> list_rep (LIST_INIT m h) g bs)"
    by (simp add: list_rep_def LIST_INIT_def list_elements_def)
  show "\<exists>m'. Some (LIST_INSERT_HEAD m h (Some a)) = Some (Inr m') \<and> list_rep m' h (a # as) \<and>
      list_elements m' = list_elements m \<and>
      (\<forall>g bs. g \<noteq> h \<longrightarrow> list_rep m g bs \<longrightarrow> set bs \<inter> set (a # as) = {} \<longrightarrow> list_rep m' g bs)"
    if "list_rep m h as" "a \<in> list_elements m" "a \<notin> set as"
    using list_insert_head [OF that] by simp
  show "\<exists>m'. Some (LIST_REMOVE m (Some a)) = Some (Inr m') \<and> list_rep m' h (remove1 a as) \<and>
      list_elements m' = list_elements m \<and>
      (\<forall>g bs. g \<noteq> h \<longrightarrow> list_rep m g bs \<longrightarrow> set bs \<inter> set as = {} \<longrightarrow> list_rep m' g bs)"
    if r: "list_rep m h as" "a \<in> set as"
  proof -
    obtain us vs where "as = us @ a # vs" "a \<notin> set us" using r(2) by (meson split_list_first)
    then show ?thesis using list_remove [of m h us a vs] r(1) by (simp add: remove1_append)
  qed
qed

end
