(* ===== verification/Tailq.thy ===== *)
theory Tailq
  imports Links
begin

text \<open>
  The doubly linked tail queues of \<open>server/queue.h\<close> (the \<open>TAILQ\<close> macros). A head holds the first
  element and the address of the link behind the last one, an element holds the link to
  the next element and the address of the link that points to itself. The trace fields and the
  hooks of the debugging builds are empty here; \<open>Queue_Builds\<close> has the macros with them.
\<close>

section \<open>Data and macros\<close>

record tailq_mem =
  tqh_first :: "addr \<Rightarrow> ptr"
  tqh_last :: "addr \<Rightarrow> linkaddr"
  tqe_next :: nexts
  tqe_prev :: "addr \<rightharpoonup> linkaddr"

definition TAILQ_EMPTY :: "tailq_mem \<Rightarrow> addr \<Rightarrow> bool" where
  "TAILQ_EMPTY m head = (tqh_first m head = None)"

definition TAILQ_FIRST :: "tailq_mem \<Rightarrow> addr \<Rightarrow> ptr" where
  "TAILQ_FIRST m head = tqh_first m head"

definition TAILQ_NEXT :: "tailq_mem \<Rightarrow> ptr \<Rightarrow> ptr result" where
  "TAILQ_NEXT m elm = deref (tqe_next m) elm"

text \<open>
  \<open>TAILQ_LAST\<close> and \<open>TAILQ_PREV\<close> cast the address of a link to the address of a head: the
  field behind a \<open>first\<close> field is \<open>tqh_last\<close>, and the field behind a \<open>next\<close> field, at the same
  offset, is \<open>tqe_prev\<close>.
\<close>

definition field_behind :: "tailq_mem \<Rightarrow> linkaddr \<Rightarrow> linkaddr result" where
  "field_behind m l =
     (case l of First_of h \<Rightarrow> Inr (tqh_last m h) | Next_of a \<Rightarrow> deref (tqe_prev m) (Some a))"

definition TAILQ_LAST :: "tailq_mem \<Rightarrow> addr \<Rightarrow> ptr result" where
  "TAILQ_LAST m head =
     rbind (field_behind m (tqh_last m head)) (get_link (tqh_first m) (tqe_next m))"

definition TAILQ_PREV :: "tailq_mem \<Rightarrow> ptr \<Rightarrow> ptr result" where
  "TAILQ_PREV m elm =
     rbind (deref (tqe_prev m) elm) (\<lambda>l.
     rbind (field_behind m l) (get_link (tqh_first m) (tqe_next m)))"

text \<open>Assignments to the fields and through the address of a link.\<close>

abbreviation set_TAILQ_FIRST :: "tailq_mem \<Rightarrow> addr \<Rightarrow> ptr \<Rightarrow> tailq_mem" where
  "set_TAILQ_FIRST m head p \<equiv> m\<lparr>tqh_first := (tqh_first m)(head := p)\<rparr>"

abbreviation set_tqh_last :: "tailq_mem \<Rightarrow> addr \<Rightarrow> linkaddr \<Rightarrow> tailq_mem" where
  "set_tqh_last m head l \<equiv> m\<lparr>tqh_last := (tqh_last m)(head := l)\<rparr>"

definition set_TAILQ_NEXT :: "tailq_mem \<Rightarrow> ptr \<Rightarrow> ptr \<Rightarrow> tailq_mem result" where
  "set_TAILQ_NEXT m elm p = rbind (assign (tqe_next m) elm p) (\<lambda>n. Inr (m\<lparr>tqe_next := n\<rparr>))"

definition set_tqe_prev :: "tailq_mem \<Rightarrow> ptr \<Rightarrow> linkaddr \<Rightarrow> tailq_mem result" where
  "set_tqe_prev m elm l = rbind (assign (tqe_prev m) elm l) (\<lambda>pv. Inr (m\<lparr>tqe_prev := pv\<rparr>))"

definition tailq_put :: "tailq_mem \<Rightarrow> linkaddr \<Rightarrow> ptr \<Rightarrow> tailq_mem result" where
  "tailq_put m l p =
     rbind (put_link (tqh_first m) (tqe_next m) l p) (\<lambda>(f, n). Inr (m\<lparr>tqh_first := f, tqe_next := n\<rparr>))"

text \<open>The idiom \<open>if (p != NULL) p->prev = l; else head->last = l'\<close>.\<close>

definition set_prev_or_last ::
  "tailq_mem \<Rightarrow> ptr \<Rightarrow> linkaddr \<Rightarrow> addr \<Rightarrow> linkaddr \<Rightarrow> tailq_mem result" where
  "set_prev_or_last m p l head l' =
     (if p \<noteq> None then set_tqe_prev m p l else Inr (set_tqh_last m head l'))"

definition TAILQ_INIT :: "tailq_mem \<Rightarrow> addr \<Rightarrow> tailq_mem" where
  "TAILQ_INIT m head = set_tqh_last (set_TAILQ_FIRST m head None) head (First_of head)"

definition TAILQ_CONCAT :: "tailq_mem \<Rightarrow> addr \<Rightarrow> addr \<Rightarrow> tailq_mem result" where
  "TAILQ_CONCAT m head1 head2 =
     (if \<not> TAILQ_EMPTY m head2 then
        rbind (tailq_put m (tqh_last m head1) (tqh_first m head2)) (\<lambda>m1.
        rbind (set_tqe_prev m1 (tqh_first m1 head2) (tqh_last m1 head1)) (\<lambda>m2.
        let m3 = set_tqh_last m2 head1 (tqh_last m2 head2)
        in Inr (TAILQ_INIT m3 head2)))
      else Inr m)"

definition TAILQ_INSERT_AFTER :: "tailq_mem \<Rightarrow> addr \<Rightarrow> ptr \<Rightarrow> ptr \<Rightarrow> tailq_mem result" where
  "TAILQ_INSERT_AFTER m head listelm elm =
     rbind (TAILQ_NEXT m listelm) (\<lambda>p.
     rbind (set_TAILQ_NEXT m elm p) (\<lambda>m1.
     rbind (set_prev_or_last m1 p (Next_of (the elm)) head (Next_of (the elm))) (\<lambda>m2.
     rbind (set_TAILQ_NEXT m2 listelm elm) (\<lambda>m3.
     set_tqe_prev m3 elm (Next_of (the listelm))))))"

definition TAILQ_INSERT_BEFORE :: "tailq_mem \<Rightarrow> ptr \<Rightarrow> ptr \<Rightarrow> tailq_mem result" where
  "TAILQ_INSERT_BEFORE m listelm elm =
     rbind (deref (tqe_prev m) listelm) (\<lambda>l.
     rbind (set_tqe_prev m elm l) (\<lambda>m1.
     rbind (set_TAILQ_NEXT m1 elm listelm) (\<lambda>m2.
     rbind (deref (tqe_prev m2) listelm) (\<lambda>l'.
     rbind (tailq_put m2 l' elm) (\<lambda>m3.
     set_tqe_prev m3 listelm (Next_of (the elm)))))))"

definition TAILQ_INSERT_HEAD :: "tailq_mem \<Rightarrow> addr \<Rightarrow> ptr \<Rightarrow> tailq_mem result" where
  "TAILQ_INSERT_HEAD m head elm =
     rbind (set_TAILQ_NEXT m elm (TAILQ_FIRST m head)) (\<lambda>m1.
     rbind (set_prev_or_last m1 (TAILQ_FIRST m1 head) (Next_of (the elm)) head (Next_of (the elm))) (\<lambda>m2.
     set_tqe_prev (set_TAILQ_FIRST m2 head elm) elm (First_of head)))"

definition TAILQ_INSERT_TAIL :: "tailq_mem \<Rightarrow> addr \<Rightarrow> ptr \<Rightarrow> tailq_mem result" where
  "TAILQ_INSERT_TAIL m head elm =
     rbind (set_TAILQ_NEXT m elm None) (\<lambda>m1.
     rbind (set_tqe_prev m1 elm (tqh_last m1 head)) (\<lambda>m2.
     rbind (tailq_put m2 (tqh_last m2 head) elm) (\<lambda>m3.
     Inr (set_tqh_last m3 head (Next_of (the elm))))))"

definition TAILQ_REMOVE :: "tailq_mem \<Rightarrow> addr \<Rightarrow> ptr \<Rightarrow> tailq_mem result" where
  "TAILQ_REMOVE m head elm =
     rbind (TAILQ_NEXT m elm) (\<lambda>p.
     rbind (deref (tqe_prev m) elm) (\<lambda>l.
     rbind (set_prev_or_last m p l head l) (\<lambda>m1.
     rbind (deref (tqe_prev m1) elm) (\<lambda>l'.
     rbind (TAILQ_NEXT m1 elm) (\<lambda>q.
     tailq_put m1 l' q)))))"

definition TAILQ_SWAP :: "tailq_mem \<Rightarrow> addr \<Rightarrow> addr \<Rightarrow> tailq_mem result" where
  "TAILQ_SWAP m head1 head2 =
     (let swap_first = tqh_first m head1;
          swap_last = tqh_last m head1;
          m1 = set_TAILQ_FIRST m head1 (tqh_first m head2);
          m2 = set_tqh_last m1 head1 (tqh_last m1 head2);
          m3 = set_TAILQ_FIRST m2 head2 swap_first;
          m4 = set_tqh_last m3 head2 swap_last
      in rbind (set_prev_or_last m4 (tqh_first m4 head1) (First_of head1) head1 (First_of head1)) (\<lambda>m5.
         set_prev_or_last m5 (tqh_first m5 head2) (First_of head2) head2 (First_of head2)))"

definition TAILQ_FOREACH ::
  "('s \<Rightarrow> tailq_mem) \<Rightarrow> addr \<Rightarrow> (addr \<Rightarrow> 's \<Rightarrow> 's run) \<Rightarrow> 's \<Rightarrow> 's run" where
  "TAILQ_FOREACH mem head body s =
     for_each (\<lambda>s. TAILQ_NEXT (mem s)) body (TAILQ_FIRST (mem s) head) s"

definition TAILQ_FOREACH_FROM ::
  "('s \<Rightarrow> tailq_mem) \<Rightarrow> ptr \<Rightarrow> addr \<Rightarrow> (addr \<Rightarrow> 's \<Rightarrow> 's run) \<Rightarrow> 's \<Rightarrow> 's run" where
  "TAILQ_FOREACH_FROM mem var head body s =
     for_each (\<lambda>s. TAILQ_NEXT (mem s)) body
       (if var \<noteq> None then var else TAILQ_FIRST (mem s) head) s"

definition TAILQ_FOREACH_SAFE ::
  "('s \<Rightarrow> tailq_mem) \<Rightarrow> addr \<Rightarrow> (addr \<Rightarrow> 's \<Rightarrow> 's run) \<Rightarrow> 's \<Rightarrow> 's run" where
  "TAILQ_FOREACH_SAFE mem head body s =
     for_each_safe (\<lambda>s. TAILQ_NEXT (mem s)) body (TAILQ_FIRST (mem s) head) s"

definition TAILQ_FOREACH_FROM_SAFE ::
  "('s \<Rightarrow> tailq_mem) \<Rightarrow> ptr \<Rightarrow> addr \<Rightarrow> (addr \<Rightarrow> 's \<Rightarrow> 's run) \<Rightarrow> 's \<Rightarrow> 's run" where
  "TAILQ_FOREACH_FROM_SAFE mem var head body s =
     for_each_safe (\<lambda>s. TAILQ_NEXT (mem s)) body
       (if var \<noteq> None then var else TAILQ_FIRST (mem s) head) s"

definition TAILQ_FOREACH_REVERSE ::
  "('s \<Rightarrow> tailq_mem) \<Rightarrow> addr \<Rightarrow> (addr \<Rightarrow> 's \<Rightarrow> 's run) \<Rightarrow> 's \<Rightarrow> 's run" where
  "TAILQ_FOREACH_REVERSE mem head body s =
     obind (Some (TAILQ_LAST (mem s) head)) (\<lambda>var. for_each (\<lambda>s. TAILQ_PREV (mem s)) body var s)"

definition TAILQ_FOREACH_REVERSE_FROM ::
  "('s \<Rightarrow> tailq_mem) \<Rightarrow> ptr \<Rightarrow> addr \<Rightarrow> (addr \<Rightarrow> 's \<Rightarrow> 's run) \<Rightarrow> 's \<Rightarrow> 's run" where
  "TAILQ_FOREACH_REVERSE_FROM mem var head body s =
     obind (Some (if var \<noteq> None then Inr var else TAILQ_LAST (mem s) head))
       (\<lambda>var. for_each (\<lambda>s. TAILQ_PREV (mem s)) body var s)"

definition TAILQ_FOREACH_REVERSE_SAFE ::
  "('s \<Rightarrow> tailq_mem) \<Rightarrow> addr \<Rightarrow> (addr \<Rightarrow> 's \<Rightarrow> 's run) \<Rightarrow> 's \<Rightarrow> 's run" where
  "TAILQ_FOREACH_REVERSE_SAFE mem head body s =
     obind (Some (TAILQ_LAST (mem s) head)) (\<lambda>var. for_each_safe (\<lambda>s. TAILQ_PREV (mem s)) body var s)"

definition TAILQ_FOREACH_REVERSE_FROM_SAFE ::
  "('s \<Rightarrow> tailq_mem) \<Rightarrow> ptr \<Rightarrow> addr \<Rightarrow> (addr \<Rightarrow> 's \<Rightarrow> 's run) \<Rightarrow> 's \<Rightarrow> 's run" where
  "TAILQ_FOREACH_REVERSE_FROM_SAFE mem var head body s =
     obind (Some (if var \<noteq> None then Inr var else TAILQ_LAST (mem s) head))
       (\<lambda>var. for_each_safe (\<lambda>s. TAILQ_PREV (mem s)) body var s)"

section \<open>Queues in memory\<close>

definition tailq_rep :: "tailq_mem \<Rightarrow> addr \<Rightarrow> addr list \<Rightarrow> bool" where
  "tailq_rep m head as \<longleftrightarrow>
     chain (tqe_next m) (tqh_first m head) as \<and> backs (tqe_prev m) (First_of head) as \<and>
     tqh_last m head = link_end (First_of head) as"

definition tailq_elements :: "tailq_mem \<Rightarrow> addr set" where
  "tailq_elements m = dom (tqe_next m) \<inter> dom (tqe_prev m)"

lemma tailq_first: "tailq_rep m h as \<Longrightarrow> TAILQ_FIRST m h = first as"
  by (auto simp: tailq_rep_def TAILQ_FIRST_def dest: chain_first)

lemma tailq_rep_wf: "tailq_rep m h as \<Longrightarrow> distinct as \<and> set as \<subseteq> tailq_elements m"
  by (auto simp: tailq_rep_def tailq_elements_def dest: chain_distinct seg_allocated backs_allocated)

lemma tailq_frame:
  assumes "tailq_rep m g bs" "tqh_first m' g = tqh_first m g" "tqh_last m' g = tqh_last m g"
    "\<And>b. b \<in> set bs \<Longrightarrow> tqe_next m' b = tqe_next m b \<and> tqe_prev m' b = tqe_prev m b"
  shows "tailq_rep m' g bs"
  using assms seg_cong [of bs "tqe_next m" "tqe_next m'"] backs_cong [of bs "tqe_prev m" "tqe_prev m'"]
  by (auto simp: tailq_rep_def)

text \<open>The idiom on the rest \<open>vs\<close> of a queue, whose first element's back link or end it redirects.\<close>

lemma set_prev_or_last_backs:
  assumes "backs (tqe_prev m) k vs" "distinct vs"
  shows "\<exists>m'. set_prev_or_last m (first vs) l h l' = Inr m' \<and> backs (tqe_prev m') l vs \<and>
    tqh_first m' = tqh_first m \<and> tqe_next m' = tqe_next m \<and> dom (tqe_prev m') = dom (tqe_prev m) \<and>
    (\<forall>b. b \<notin> set vs \<longrightarrow> tqe_prev m' b = tqe_prev m b) \<and>
    tqh_last m' = (if vs = [] then (tqh_last m)(h := l') else tqh_last m)"
  using assms by (cases vs) (auto simp: set_prev_or_last_def set_tqe_prev_def)

lemma tailq_insert_head:
  assumes rep: "tailq_rep m h as" and a: "a \<in> tailq_elements m" "a \<notin> set as"
  shows "\<exists>m'. TAILQ_INSERT_HEAD m h (Some a) = Inr m' \<and> tailq_rep m' h (a # as) \<and>
    tailq_elements m' = tailq_elements m \<and>
    (\<forall>g bs. g \<noteq> h \<longrightarrow> tailq_rep m g bs \<longrightarrow> set bs \<inter> set (a # as) = {} \<longrightarrow> tailq_rep m' g bs)"
proof -
  let ?m1 = "m\<lparr>tqe_next := (tqe_next m)(a \<mapsto> first as)\<rparr>"
  obtain m2 where m2: "set_prev_or_last ?m1 (first as) (Next_of a) h (Next_of a) = Inr m2"
    "backs (tqe_prev m2) (Next_of a) as" "tqh_first m2 = tqh_first m" "tqe_next m2 = tqe_next ?m1"
    "dom (tqe_prev m2) = dom (tqe_prev m)" "\<forall>b. b \<notin> set as \<longrightarrow> tqe_prev m2 b = tqe_prev m b"
    "tqh_last m2 = (if as = [] then (tqh_last m)(h := Next_of a) else tqh_last m)"
    using set_prev_or_last_backs [of ?m1 "First_of h" as "Next_of a" h "Next_of a"] rep tailq_rep_wf [OF rep]
    by (auto simp: tailq_rep_def)
  let ?m = "m2\<lparr>tqh_first := (tqh_first m2)(h := Some a), tqe_prev := (tqe_prev m2)(a \<mapsto> First_of h)\<rparr>"
  have f: "tqh_first m h = first as" using tailq_first [OF rep] by (simp add: TAILQ_FIRST_def)
  obtain k where "tqe_prev m2 a = Some k" using a(1) m2(5) by (auto simp: tailq_elements_def)
  then have "TAILQ_INSERT_HEAD m h (Some a) = Inr ?m"
    using a m2(1) f by (auto simp: TAILQ_INSERT_HEAD_def set_TAILQ_NEXT_def set_tqe_prev_def
        TAILQ_FIRST_def tailq_elements_def)
  moreover have "tailq_rep ?m h (a # as)"
    using rep a m2 f by (cases as) (auto simp: tailq_rep_def simp del: seg.simps(2) simp: seg_Cons)
  moreover have "tailq_elements ?m = tailq_elements m"
    using a m2(4,5) by (auto simp: tailq_elements_def)
  moreover have "tailq_rep ?m g bs"
    if "g \<noteq> h" "tailq_rep m g bs" "set bs \<inter> set (a # as) = {}" for g bs
    using that m2 by (intro tailq_frame [OF that(2)]) auto
  ultimately show ?thesis by blast
qed

lemma tailq_remove:
  assumes rep: "tailq_rep m h (us @ a # vs)"
  shows "\<exists>m'. TAILQ_REMOVE m h (Some a) = Inr m' \<and> tailq_rep m' h (us @ vs) \<and>
    tailq_elements m' = tailq_elements m \<and>
    (\<forall>g bs. g \<noteq> h \<longrightarrow> tailq_rep m g bs \<longrightarrow> set bs \<inter> set (us @ a # vs) = {} \<longrightarrow> tailq_rep m' g bs)"
proof -
  let ?l = "link_end (First_of h) us"
  have d: "distinct (us @ a # vs)" using tailq_rep_wf [OF rep] by blast
  have b: "backs (tqe_prev m) (First_of h) us" "tqe_prev m a = Some ?l" "backs (tqe_prev m) (Next_of a) vs"
    "tqh_last m h = link_end (Next_of a) vs"
    using rep by (simp_all add: tailq_rep_def)
  obtain m1 where m1: "set_prev_or_last m (first vs) ?l h ?l = Inr m1"
    "backs (tqe_prev m1) ?l vs" "tqh_first m1 = tqh_first m" "tqe_next m1 = tqe_next m"
    "dom (tqe_prev m1) = dom (tqe_prev m)" "\<forall>b. b \<notin> set vs \<longrightarrow> tqe_prev m1 b = tqe_prev m b"
    "tqh_last m1 = (if vs = [] then (tqh_last m)(h := ?l) else tqh_last m)"
    using set_prev_or_last_backs [OF b(3), of ?l h ?l] d by auto
  have n: "tqe_next m a = Some (first vs)" "chain (tqe_next m) (first vs) vs"
    using rep by (auto simp: tailq_rep_def seg_append dest: chain_first split: option.splits)
  have "chain (tqe_next m) (tqh_first m h) (us @ a # vs)" "set us \<inter> set vs = {}"
    using rep d by (auto simp: tailq_rep_def)
  from put_link_chain [of _ "tqh_first m" h us "a # vs", OF this(1) n(2) this(2)] obtain f n' where
    p: "put_link (tqh_first m) (tqe_next m) ?l (first vs) = Inr (f, n')" "chain n' (f h) (us @ vs)"
      "\<forall>g. g \<noteq> h \<longrightarrow> f g = tqh_first m g" "\<forall>b. b \<notin> set us \<longrightarrow> n' b = tqe_next m b"
      "dom n' = dom (tqe_next m)"
    by blast
  let ?m = "m1\<lparr>tqh_first := f, tqe_next := n'\<rparr>"
  have "tqe_prev m1 a = Some ?l" using m1(6) b(2) d by simp
  then have "TAILQ_REMOVE m h (Some a) = Inr ?m"
    using n(1) b(2) m1 p(1) by (simp add: TAILQ_REMOVE_def TAILQ_NEXT_def tailq_put_def)
  moreover have "backs (tqe_prev m1) (First_of h) us"
    using b(1) backs_cong [of us "tqe_prev m1" "tqe_prev m"] m1(6) d by auto
  then have "tailq_rep ?m h (us @ vs)"
    using p(2) m1(2,7) b(4) by (cases vs) (simp_all add: tailq_rep_def del: seg.simps)
  moreover have "tailq_elements ?m = tailq_elements m" using p(5) m1(5) by (simp add: tailq_elements_def)
  moreover have "tailq_rep ?m g bs"
    if "g \<noteq> h" "tailq_rep m g bs" "set bs \<inter> set (us @ a # vs) = {}" for g bs
    using that m1 p(3,4) by (intro tailq_frame [OF that(2)]) auto
  ultimately show ?thesis by blast
qed

lemma tailq_insert_tail:
  assumes rep: "tailq_rep m h as" and a: "a \<in> tailq_elements m" "a \<notin> set as"
  shows "\<exists>m'. TAILQ_INSERT_TAIL m h (Some a) = Inr m' \<and> tailq_rep m' h (as @ [a]) \<and>
    tailq_elements m' = tailq_elements m \<and>
    (\<forall>g bs. g \<noteq> h \<longrightarrow> tailq_rep m g bs \<longrightarrow> set bs \<inter> set (a # as) = {} \<longrightarrow> tailq_rep m' g bs)"
proof -
  let ?n = "(tqe_next m)(a \<mapsto> None)" and ?l = "link_end (First_of h) as"
  have "chain ?n (tqh_first m h) (as @ [])" "chain ?n (Some a) [a]" "set as \<inter> set [a] = {}"
    using rep a by (simp_all add: tailq_rep_def)
  from put_link_chain [of ?n "tqh_first m" h as "[]", OF this] obtain f n where
    p: "put_link (tqh_first m) ?n ?l (Some a) = Inr (f, n)"
      "chain n (f h) (as @ [a])" "\<forall>g. g \<noteq> h \<longrightarrow> f g = tqh_first m g"
      "\<forall>b. b \<notin> set as \<longrightarrow> n b = ?n b" "dom n = dom ?n"
    by blast
  let ?m = "m\<lparr>tqe_prev := (tqe_prev m)(a \<mapsto> ?l), tqh_first := f, tqe_next := n,
    tqh_last := (tqh_last m)(h := Next_of a)\<rparr>"
  have "TAILQ_INSERT_TAIL m h (Some a) = Inr ?m"
    using rep a p(1) by (auto simp: TAILQ_INSERT_TAIL_def set_TAILQ_NEXT_def set_tqe_prev_def
        tailq_put_def tailq_rep_def tailq_elements_def)
  moreover have "tailq_rep ?m h (as @ [a])" using rep p(2) a(2) by (simp add: tailq_rep_def)
  moreover have "tailq_elements ?m = tailq_elements m" using p(5) a by (auto simp: tailq_elements_def)
  moreover have "tailq_rep ?m g bs"
    if "g \<noteq> h" "tailq_rep m g bs" "set bs \<inter> set (a # as) = {}" for g bs
    using that p(3,4) by (intro tailq_frame [OF that(2)]) auto
  ultimately show ?thesis by blast
qed

lemma tailq_concat:
  assumes rep: "tailq_rep m g as" "tailq_rep m h bs" and gh: "g \<noteq> h" "set as \<inter> set bs = {}"
  shows "\<exists>m'. TAILQ_CONCAT m g h = Inr m' \<and> tailq_rep m' g (as @ bs) \<and> tailq_rep m' h [] \<and>
    tailq_elements m' = tailq_elements m"
proof (cases bs)
  case Nil
  then show ?thesis using rep by (simp add: TAILQ_CONCAT_def TAILQ_EMPTY_def tailq_rep_def)
next
  case (Cons b cs)
  let ?l = "link_end (First_of g) as"
  from put_link_chain [of "tqe_next m" "tqh_first m" g as "[]" "tqh_first m h" bs] rep gh(2)
  obtain f n where
    p: "put_link (tqh_first m) (tqe_next m) ?l (tqh_first m h) = Inr (f, n)"
      "chain n (f g) (as @ bs)" "dom n = dom (tqe_next m)" "\<forall>k. k \<noteq> g \<longrightarrow> f k = tqh_first m k"
    by (auto simp: tailq_rep_def)
  have b: "tqe_prev m b = Some (First_of h)" "tqh_first m h = Some b" "b \<notin> set as" "b \<notin> set cs"
    "backs (tqe_prev m) (Next_of b) cs" "backs (tqe_prev m) (First_of g) as"
    "tqh_last m h = link_end (Next_of b) cs" "tqh_last m g = ?l"
    using rep gh(2) Cons tailq_rep_wf [OF rep(2)] by (auto simp: tailq_rep_def)
  let ?m = "m\<lparr>tqh_first := f(h := None), tqe_next := n, tqe_prev := (tqe_prev m)(b \<mapsto> ?l),
    tqh_last := (tqh_last m)(g := tqh_last m h, h := First_of h)\<rparr>"
  have "TAILQ_CONCAT m g h = Inr ?m"
    using p(1,4) b gh(1) by (simp add: TAILQ_CONCAT_def TAILQ_EMPTY_def tailq_put_def set_tqe_prev_def
        TAILQ_INIT_def Let_def)
  moreover have "tailq_rep ?m g (as @ bs)" using p(2) b gh(1) Cons by (simp add: tailq_rep_def)
  moreover have "tailq_elements ?m = tailq_elements m" using p(3) b(1) by (auto simp: tailq_elements_def)
  ultimately show ?thesis by (intro exI [of _ ?m]) (simp add: tailq_rep_def)
qed

text \<open>Insertion behind and before an element of the queue.\<close>

lemma tailq_insert_after:
  assumes rep: "tailq_rep m h (us @ b # vs)" and a: "a \<in> tailq_elements m" "a \<notin> set (us @ b # vs)"
  shows "\<exists>m'. TAILQ_INSERT_AFTER m h (Some b) (Some a) = Inr m' \<and> tailq_rep m' h (us @ b # a # vs)"
proof -
  let ?m1 = "m\<lparr>tqe_next := (tqe_next m)(a \<mapsto> first vs)\<rparr>"
  have d: "distinct (us @ b # vs)" using tailq_rep_wf [OF rep] by blast
  have n: "tqe_next m b = Some (first vs)"
    "chain ((tqe_next m)(a \<mapsto> first vs, b \<mapsto> Some a)) (tqh_first m h) (us @ b # a # vs)"
    using chain_link [of "tqe_next m" "tqh_first m h" us b vs a] rep a by (simp_all add: tailq_rep_def)
  have bk: "backs (tqe_prev m) (First_of h) (us @ [b])" "backs (tqe_prev ?m1) (Next_of b) vs"
    "tqh_last m h = link_end (Next_of b) vs"
    using rep by (simp_all add: tailq_rep_def)
  obtain m2 where m2: "set_prev_or_last ?m1 (first vs) (Next_of a) h (Next_of a) = Inr m2"
    "backs (tqe_prev m2) (Next_of a) vs" "tqh_first m2 = tqh_first m" "tqe_next m2 = tqe_next ?m1"
    "dom (tqe_prev m2) = dom (tqe_prev m)" "\<forall>b. b \<notin> set vs \<longrightarrow> tqe_prev m2 b = tqe_prev m b"
    "tqh_last m2 = (if vs = [] then (tqh_last m)(h := Next_of a) else tqh_last m)"
    using set_prev_or_last_backs [OF bk(2), of "Next_of a" h "Next_of a"] d by auto
  let ?m = "m2\<lparr>tqe_next := (tqe_next m2)(b \<mapsto> Some a), tqe_prev := (tqe_prev m2)(a \<mapsto> Next_of b)\<rparr>"
  obtain k where "tqe_prev m2 a = Some k" using a(1) m2(5) by (auto simp: tailq_elements_def)
  then have "TAILQ_INSERT_AFTER m h (Some b) (Some a) = Inr ?m"
    using n(1) a m2(1,4) by (auto simp: TAILQ_INSERT_AFTER_def TAILQ_NEXT_def set_TAILQ_NEXT_def
        set_tqe_prev_def tailq_elements_def)
  moreover have "backs (tqe_prev m2) (First_of h) (us @ [b])"
    using bk(1) backs_cong [of "us @ [b]" "tqe_prev m2" "tqe_prev m"] m2(6) d by auto
  then have "tailq_rep ?m h (us @ b # a # vs)"
    using n(2) m2 a bk(3) by (cases vs) (auto simp: tailq_rep_def simp del: seg.simps)
  ultimately show ?thesis by blast
qed

lemma tailq_insert_before:
  assumes rep: "tailq_rep m h (us @ b # vs)" and a: "a \<in> tailq_elements m" "a \<notin> set (us @ b # vs)"
  shows "\<exists>m'. TAILQ_INSERT_BEFORE m (Some b) (Some a) = Inr m' \<and> tailq_rep m' h (us @ a # b # vs)"
proof -
  let ?l = "link_end (First_of h) us" and ?n = "(tqe_next m)(a \<mapsto> Some b)"
  have d: "distinct (us @ b # vs)" using tailq_rep_wf [OF rep] by blast
  have bk: "backs (tqe_prev m) (First_of h) us" "tqe_prev m b = Some ?l"
    "backs (tqe_prev m) (Next_of b) vs" "tqh_last m h = link_end (Next_of b) vs"
    using rep by (simp_all add: tailq_rep_def)
  have c: "chain ?n (tqh_first m h) (us @ b # vs)" using rep a by (simp add: tailq_rep_def del: seg.simps)
  then have "chain ?n (Some a) (a # b # vs)" using a by (auto simp: seg_append)
  from put_link_chain [of ?n "tqh_first m" h us "b # vs", OF c this] a d obtain f n where
    p: "put_link (tqh_first m) ?n ?l (Some a) = Inr (f, n)" "chain n (f h) (us @ a # b # vs)"
    by auto
  let ?m = "m\<lparr>tqh_first := f, tqe_next := n, tqe_prev := (tqe_prev m)(a \<mapsto> ?l, b \<mapsto> Next_of a)\<rparr>"
  have "TAILQ_INSERT_BEFORE m (Some b) (Some a) = Inr ?m"
    using bk(2) a p(1) by (auto simp: TAILQ_INSERT_BEFORE_def set_tqe_prev_def set_TAILQ_NEXT_def
        tailq_put_def tailq_elements_def)
  moreover have "tailq_rep ?m h (us @ a # b # vs)" using p(2) bk a d by (auto simp: tailq_rep_def)
  ultimately show ?thesis by blast
qed

text \<open>The elements at the end and before another.\<close>

lemma tailq_last:
  assumes "tailq_rep m h as"
  shows "TAILQ_LAST m h = Inr (first (rev as))"
proof (cases as rule: rev_exhaust)
  case Nil
  then show ?thesis using assms by (simp add: TAILQ_LAST_def field_behind_def get_link_def tailq_rep_def)
next
  case (snoc xs x)
  then show ?thesis using assms get_link_chain [of "tqe_next m" "tqh_first m" h xs "[x]"]
    by (simp add: TAILQ_LAST_def field_behind_def tailq_rep_def del: seg.simps)
qed

lemma tailq_prev:
  assumes "tailq_rep m h (us @ a # vs)"
  shows "TAILQ_PREV m (Some a) = Inr (first (rev us))"
proof (cases us rule: rev_exhaust)
  case Nil
  then show ?thesis using assms get_link_chain [of "tqe_next m" "tqh_first m" h "us @ a # vs" "[]"]
    by (simp add: TAILQ_PREV_def field_behind_def tailq_rep_def del: seg.simps)
next
  case (snoc xs x)
  then show ?thesis using assms get_link_chain [of "tqe_next m" "tqh_first m" h xs "x # a # vs"]
    by (simp add: TAILQ_PREV_def field_behind_def tailq_rep_def del: seg.simps)
qed

lemma tailq_next: "tailq_rep m h (us @ a # vs) \<Longrightarrow> TAILQ_NEXT m (Some a) = Inr (first vs)"
  by (auto simp: tailq_rep_def TAILQ_NEXT_def seg_append dest: chain_first split: option.splits)

lemma tailq_foreach:
  assumes "tailq_rep (mem s) h as" "\<And>a s. body a s = Some (Inr (f a s))" "\<And>a s. mem (f a s) = mem s"
  shows "TAILQ_FOREACH mem h body s = Some (Inr (fold f as s)) \<and>
    TAILQ_FOREACH_REVERSE mem h body s = Some (Inr (fold f (rev as) s))"
proof
  show "TAILQ_FOREACH mem h body s = Some (Inr (fold f as s))"
    unfolding TAILQ_FOREACH_def tailq_first [OF assms(1)]
    by (rule for_each_fold [where mem = mem and m = "mem s"]) (use assms tailq_next in auto)
  have "for_each (\<lambda>s. TAILQ_PREV (mem s)) body (first (rev as)) s = Some (Inr (fold f (rev as) s))"
  proof (rule for_each_fold [where mem = mem and m = "mem s"])
    fix us a vs t
    assume "rev as = us @ a # vs" and t: "mem t = mem s"
    then have "as = rev vs @ a # rev us" by (simp add: rev_eq_append_conv)
    with tailq_prev [of "mem s" h "rev vs" a "rev us"] assms(1) t
    show "TAILQ_PREV (mem t) (Some a) = Inr (first vs)" by simp
  qed (use assms in auto)
  then show "TAILQ_FOREACH_REVERSE mem h body s = Some (Inr (fold f (rev as) s))"
    using tailq_last [OF assms(1)] by (simp add: TAILQ_FOREACH_REVERSE_def)
qed

lemma tailq_swap:
  assumes rep: "tailq_rep m g as" "tailq_rep m h bs" and gh: "g \<noteq> h" "set as \<inter> set bs = {}"
  shows "\<exists>m'. TAILQ_SWAP m g h = Inr m' \<and> tailq_rep m' g bs \<and> tailq_rep m' h as"
proof -
  have d: "distinct as" "distinct bs" using tailq_rep_wf rep by blast+
  let ?m4 = "m\<lparr>tqh_first := (tqh_first m)(g := first bs, h := first as),
    tqh_last := (tqh_last m)(g := tqh_last m h, h := tqh_last m g)\<rparr>"
  have f: "tqh_first m g = first as" "tqh_first m h = first bs"
    using tailq_first rep by (auto simp: TAILQ_FIRST_def)
  obtain m5 where m5: "set_prev_or_last ?m4 (first bs) (First_of g) g (First_of g) = Inr m5"
    "backs (tqe_prev m5) (First_of g) bs" "tqh_first m5 = tqh_first ?m4" "tqe_next m5 = tqe_next m"
    "\<forall>b. b \<notin> set bs \<longrightarrow> tqe_prev m5 b = tqe_prev m b"
    "tqh_last m5 = (if bs = [] then (tqh_last ?m4)(g := First_of g) else tqh_last ?m4)"
    using set_prev_or_last_backs [of ?m4 "First_of h" bs "First_of g" g "First_of g"] rep d
    by (auto simp: tailq_rep_def)
  have "backs (tqe_prev m5) (First_of g) as"
    using rep(1) backs_cong [of as "tqe_prev m5" "tqe_prev m"] m5(5) gh(2) by (auto simp: tailq_rep_def)
  from set_prev_or_last_backs [OF this d(1), of "First_of h" h "First_of h"] obtain m6 where
    m6: "set_prev_or_last m5 (first as) (First_of h) h (First_of h) = Inr m6"
      "backs (tqe_prev m6) (First_of h) as" "tqh_first m6 = tqh_first m5" "tqe_next m6 = tqe_next m5"
      "\<forall>b. b \<notin> set as \<longrightarrow> tqe_prev m6 b = tqe_prev m5 b"
      "tqh_last m6 = (if as = [] then (tqh_last m5)(h := First_of h) else tqh_last m5)"
    by blast
  have "backs (tqe_prev m6) (First_of g) bs"
    using m5(2) backs_cong [of bs "tqe_prev m6" "tqe_prev m5"] m6(5) gh(2) by auto
  moreover have "TAILQ_SWAP m g h = Inr m6"
    using f gh(1) m5(1,3) m6(1) by (simp add: TAILQ_SWAP_def Let_def fun_upd_twist)
  ultimately show ?thesis
    using rep f gh(1) m5(3,4,6) m6(2-4,6) by (cases as; cases bs) (auto simp: tailq_rep_def simp del: seg.simps(2))
qed

section \<open>The interfaces\<close>

interpretation tailq: linked_lists tailq_rep tailq_elements TAILQ_INIT
  "\<lambda>m h a. Some (TAILQ_INSERT_HEAD m h (Some a))" "\<lambda>m h a. Some (TAILQ_REMOVE m h (Some a))"
proof unfold_locales
  fix m :: tailq_mem and h as a
  show "tailq_rep m h as \<Longrightarrow> distinct as \<and> set as \<subseteq> tailq_elements m" by (rule tailq_rep_wf)
  show "tailq_rep (TAILQ_INIT m h) h [] \<and> tailq_elements (TAILQ_INIT m h) = tailq_elements m \<and>
      (\<forall>g bs. g \<noteq> h \<longrightarrow> tailq_rep m g bs \<longrightarrow> tailq_rep (TAILQ_INIT m h) g bs)"
    by (simp add: tailq_rep_def TAILQ_INIT_def tailq_elements_def)
  show "\<exists>m'. Some (TAILQ_INSERT_HEAD m h (Some a)) = Some (Inr m') \<and> tailq_rep m' h (a # as) \<and>
      tailq_elements m' = tailq_elements m \<and>
      (\<forall>g bs. g \<noteq> h \<longrightarrow> tailq_rep m g bs \<longrightarrow> set bs \<inter> set (a # as) = {} \<longrightarrow> tailq_rep m' g bs)"
    if "tailq_rep m h as" "a \<in> tailq_elements m" "a \<notin> set as"
    using tailq_insert_head [OF that] by simp
  show "\<exists>m'. Some (TAILQ_REMOVE m h (Some a)) = Some (Inr m') \<and> tailq_rep m' h (remove1 a as) \<and>
      tailq_elements m' = tailq_elements m \<and>
      (\<forall>g bs. g \<noteq> h \<longrightarrow> tailq_rep m g bs \<longrightarrow> set bs \<inter> set as = {} \<longrightarrow> tailq_rep m' g bs)"
    if r: "tailq_rep m h as" "a \<in> set as"
  proof -
    obtain us vs where "as = us @ a # vs" "a \<notin> set us" using r(2) by (meson split_list_first)
    then show ?thesis using tailq_remove [of m h us a vs] r(1) by (simp add: remove1_append)
  qed
qed

interpretation tailq: tail_queues tailq_rep tailq_elements TAILQ_INIT
  "\<lambda>m h a. Some (TAILQ_INSERT_HEAD m h (Some a))" "\<lambda>m h a. Some (TAILQ_REMOVE m h (Some a))"
  TAILQ_FIRST "\<lambda>m h a. Some (TAILQ_INSERT_TAIL m h (Some a))" "\<lambda>m g h. Some (TAILQ_CONCAT m g h)"
proof unfold_locales
  fix m :: tailq_mem and g h as bs a
  show "tailq_rep m h as \<Longrightarrow> TAILQ_FIRST m h = first as" by (rule tailq_first)
  show "\<exists>m'. Some (TAILQ_INSERT_TAIL m h (Some a)) = Some (Inr m') \<and> tailq_rep m' h (as @ [a]) \<and>
      tailq_elements m' = tailq_elements m \<and>
      (\<forall>g bs. g \<noteq> h \<longrightarrow> tailq_rep m g bs \<longrightarrow> set bs \<inter> set (a # as) = {} \<longrightarrow> tailq_rep m' g bs)"
    if "tailq_rep m h as" "a \<in> tailq_elements m" "a \<notin> set as"
    using tailq_insert_tail [OF that] by simp
  show "\<exists>m'. Some (TAILQ_CONCAT m g h) = Some (Inr m') \<and> tailq_rep m' g (as @ bs) \<and>
      tailq_rep m' h [] \<and> tailq_elements m' = tailq_elements m"
    if "tailq_rep m g as" "tailq_rep m h bs" "g \<noteq> h" "set as \<inter> set bs = {}"
    using tailq_concat [OF that] by simp
qed

end
