(* ===== verification/Queue_Props.thy ===== *)
theory Queue_Props
  imports Slist Stailq List_Queue Tailq
begin

text \<open>
  The properties of the four families of linked structures of \<open>server/queue.h\<close>, as consequences of
  the interfaces \<open>linked_lists\<close> and \<open>tail_queues\<close>, and memories on which they are instantiated.
\<close>

section \<open>Instances\<close>

text \<open>Three allocated elements with arbitrary links, and heads that are not initialised or empty.\<close>

definition slist_start :: slist_mem where
  "slist_start = \<lparr>slh_first = (\<lambda>h. None), sle_next = [1 \<mapsto> Some 9, 2 \<mapsto> None, 3 \<mapsto> Some 3]\<rparr>"

definition list_start :: list_mem where
  "list_start = \<lparr>lh_first = (\<lambda>h. None), le_next = [1 \<mapsto> Some 9, 2 \<mapsto> None, 3 \<mapsto> Some 3],
     le_prev = [1 \<mapsto> First_of 0, 2 \<mapsto> Next_of 1, 3 \<mapsto> Next_of 3]\<rparr>"

definition tailq_start :: tailq_mem where
  "tailq_start = \<lparr>tqh_first = (\<lambda>h. None), tqh_last = First_of, tqe_next = [1 \<mapsto> Some 9, 2 \<mapsto> None, 3 \<mapsto> Some 3],
     tqe_prev = [1 \<mapsto> First_of 0, 2 \<mapsto> Next_of 1, 3 \<mapsto> Next_of 3]\<rparr>"

lemma tailq_start_rep: "tailq_rep tailq_start h []" "tailq_elements tailq_start = {1, 2, 3}"
  by (auto simp: tailq_rep_def tailq_start_def tailq_elements_def)

section \<open>Scripts\<close>

text \<open>
  C13: The singly linked lists behave as lists: any script of initialisations, insertions and removals
  on several heads, in which every inserted element is allocated and in no list and every removed
  element is in its list, runs to its end without a fault and leaves in every head exactly
  the list that the script describes.
\<close>

theorem slist_scripts_refine:
  assumes "family slist_rep H m L" and "allowed_all (dom (sle_next m)) H cs L"
  shows "\<exists>m'. exec_ops SLIST_INIT (\<lambda>m h a. Some (SLIST_INSERT_HEAD m h (Some a)))
      (\<lambda>m h a. SLIST_REMOVE m h (Some a)) cs m = Some (Inr m') \<and>
    family slist_rep H m' (fold apply_op cs L)"
  using slist.exec_ops_family [OF assms] by blast

theorem slist_scripts_refine_witness:
  "\<exists>m'. exec_ops SLIST_INIT (\<lambda>m h a. Some (SLIST_INSERT_HEAD m h (Some a)))
      (\<lambda>m h a. SLIST_REMOVE m h (Some a))
      [Reset 0, Insert 0 1, Insert 0 2, Insert 5 3, Remove 0 1] slist_start = Some (Inr m') \<and>
    slist_rep m' 0 [2] \<and> slist_rep m' 5 [3]"
proof -
  have "family slist_rep [0, 5] slist_start (\<lambda>h. [])"
    by (simp add: family_def slist_rep_def slist_start_def)
  from slist_scripts_refine [OF this, of "[Reset 0, Insert 0 1, Insert 0 2, Insert 5 3, Remove 0 1]"]
  show ?thesis by (auto simp: slist_start_def family_def)
qed

text \<open>
  The same for the doubly linked lists, whose removal is not told the head.
\<close>

lemma list_scripts_refine:
  assumes "family list_rep H m L" and "allowed_all (list_elements m) H cs L"
  shows "\<exists>m'. exec_ops LIST_INIT (\<lambda>m h a. Some (LIST_INSERT_HEAD m h (Some a)))
      (\<lambda>m h a. Some (LIST_REMOVE m (Some a))) cs m = Some (Inr m') \<and>
    family list_rep H m' (fold apply_op cs L)"
  using list.exec_ops_family [OF assms] by blast

text \<open>
  C29: Inserting an element before or behind an element of a doubly linked list puts it exactly there,
  and removing it again restores the list.
\<close>

theorem list_insert_remove_roundtrip:
  assumes "list_rep m h (us @ b # vs)" and "a \<in> list_elements m" and "a \<notin> set (us @ b # vs)"
  shows "\<exists>m1 m2 m3 m4.
    LIST_INSERT_BEFORE m (Some b) (Some a) = Inr m1 \<and> list_rep m1 h (us @ a # b # vs) \<and>
    LIST_REMOVE m1 (Some a) = Inr m2 \<and> list_rep m2 h (us @ b # vs) \<and>
    LIST_INSERT_AFTER m (Some b) (Some a) = Inr m3 \<and> list_rep m3 h (us @ b # a # vs) \<and>
    LIST_REMOVE m3 (Some a) = Inr m4 \<and> list_rep m4 h (us @ b # vs)"
proof -
  obtain m1 where m1: "LIST_INSERT_BEFORE m (Some b) (Some a) = Inr m1" "list_rep m1 h (us @ a # b # vs)"
    using list_insert_before [OF assms] by blast
  obtain m3 where m3: "LIST_INSERT_AFTER m (Some b) (Some a) = Inr m3" "list_rep m3 h (us @ b # a # vs)"
    using list_insert_after [OF assms] by blast
  obtain m2 where "LIST_REMOVE m1 (Some a) = Inr m2" "list_rep m2 h (us @ b # vs)"
    using list_remove [OF m1(2)] by blast
  moreover obtain m4 where "LIST_REMOVE m3 (Some a) = Inr m4" "list_rep m4 h (us @ b # vs)"
    using list_remove [of m3 h "us @ [b]" a vs] m3(2) by auto
  ultimately show ?thesis using m1 m3 by blast
qed

theorem list_insert_remove_roundtrip_witness:
  "\<exists>m1 m2 m3 m4. let m = list_start\<lparr>lh_first := (\<lambda>h. Some 2)\<rparr>\<lparr>le_prev := [1 \<mapsto> First_of 9, 2 \<mapsto> First_of 0]\<rparr> in
    LIST_INSERT_BEFORE m (Some 2) (Some 1) = Inr m1 \<and> list_rep m1 0 [1, 2] \<and>
    LIST_REMOVE m1 (Some 1) = Inr m2 \<and> list_rep m2 0 [2] \<and>
    LIST_INSERT_AFTER m (Some 2) (Some 1) = Inr m3 \<and> list_rep m3 0 [2, 1] \<and>
    LIST_REMOVE m3 (Some 1) = Inr m4 \<and> list_rep m4 0 [2]"
  using list_insert_remove_roundtrip [of "list_start\<lparr>lh_first := (\<lambda>h. Some 2)\<rparr>\<lparr>le_prev := [1 \<mapsto> First_of 9, 2 \<mapsto> First_of 0]\<rparr>"
      0 "[]" 2 "[]" 1]
  by (auto simp: list_rep_def list_start_def list_elements_def Let_def)

section \<open>Queues\<close>

text \<open>
  C26: The tail queues are first in, first out: after any distinct allocated elements were appended to a
  queue, taking elements out at the front gives the old elements and then the new ones, in the
  order they were appended, and leaves the rest of the queue.
\<close>

theorem tailq_fifo:
  assumes "tailq_rep m h as" and "distinct (as @ xs)" and "set xs \<subseteq> tailq_elements m"
  shows "\<exists>m1 m2. enqueue_all (\<lambda>m h a. Some (TAILQ_INSERT_TAIL m h (Some a))) h xs m = Some (Inr m1) \<and>
    dequeue_some TAILQ_FIRST (\<lambda>m h a. Some (TAILQ_REMOVE m h (Some a))) h k m1 =
      Some (Inr (take k (as @ xs), m2)) \<and>
    tailq_rep m2 h (drop k (as @ xs))"
  using assms by (rule tailq.fifo)

theorem tailq_fifo_witness:
  "\<exists>m1 m2. enqueue_all (\<lambda>m h a. Some (TAILQ_INSERT_TAIL m h (Some a))) 0 [3, 1, 2] tailq_start = Some (Inr m1) \<and>
    dequeue_some TAILQ_FIRST (\<lambda>m h a. Some (TAILQ_REMOVE m h (Some a))) 0 2 m1 = Some (Inr ([3, 1], m2)) \<and>
    tailq_rep m2 0 [2]"
  using tailq_fifo [OF tailq_start_rep(1), of "[3, 1, 2]" 0 2] tailq_start_rep(2)
  by (simp add: numeral_2_eq_2)

lemma stailq_fifo:
  assumes "stailq_rep m h as" and "distinct (as @ xs)" and "set xs \<subseteq> dom (stqe_next m)"
  shows "\<exists>m1 m2. enqueue_all (\<lambda>m h a. Some (STAILQ_INSERT_TAIL m h (Some a))) h xs m = Some (Inr m1) \<and>
    dequeue_some STAILQ_FIRST (\<lambda>m h a. STAILQ_REMOVE m h (Some a)) h k m1 =
      Some (Inr (take k (as @ xs), m2)) \<and>
    stailq_rep m2 h (drop k (as @ xs))"
  using assms by (rule stailq.fifo)

text \<open>
  The two traversals of a doubly linked tail queue visit the same elements in opposite orders: a
  traversal whose body does not change the links runs the body once on each element, from the
  first to the last, and the reverse traversal from the last to the first.
\<close>

lemma tailq_traversals:
  assumes "tailq_rep (mem s) h as" and "\<And>a s. body a s = Some (Inr (f a s))"
    and "\<And>a s. mem (f a s) = mem s"
  shows "TAILQ_FOREACH mem h body s = Some (Inr (fold f as s)) \<and>
    TAILQ_FOREACH_REVERSE mem h body s = Some (Inr (fold f (rev as) s))"
  using assms by (rule tailq_foreach)

lemma tailq_traversals_witness:
  "\<exists>m. TAILQ_FOREACH fst 0 (\<lambda>a (m, xs). Some (Inr (m, xs @ [a]))) (m, []) = Some (Inr (m, [3, 1])) \<and>
    TAILQ_FOREACH_REVERSE fst 0 (\<lambda>a (m, xs). Some (Inr (m, xs @ [a]))) (m, []) = Some (Inr (m, [1, 3]))"
proof -
  obtain m where m: "tailq_rep m 0 [3, 1]"
    using tailq.enqueue_all_rep [OF tailq_start_rep(1), of "[3, 1]" 0] tailq_start_rep(2) by auto
  have "TAILQ_FOREACH fst 0 (\<lambda>a (m, xs). Some (Inr (m, xs @ [a]))) (m, []) =
      Some (Inr (fold (\<lambda>a (m, xs). (m, xs @ [a])) [3, 1] (m, []))) \<and>
    TAILQ_FOREACH_REVERSE fst 0 (\<lambda>a (m, xs). Some (Inr (m, xs @ [a]))) (m, []) =
      Some (Inr (fold (\<lambda>a (m, xs). (m, xs @ [a])) (rev [3, 1]) (m, [])))"
    by (rule tailq_traversals) (use m in auto)
  then show ?thesis by auto
qed

end
