(* ===== verification/Queue_Builds.thy ===== *)
theory Queue_Builds
  imports Queue_Props
begin

text \<open>
  The builds of \<open>server/queue.h\<close>. Two sets of build flags change the macros: with \<open>_KERNEL\<close> and
  \<open>INVARIANTS\<close> the insertions and removals of the doubly linked families first check the links they
  rely on and call \<open>panic\<close> when one is wrong; with \<open>QUEUE_MACRO_DEBUG\<close> a removal overwrites the
  links of the removed element with the pointer \<open>-1\<close>, and the tail queues record where heads
  and elements were last altered. Every macro that uses a hook is modelled here for an arbitrary
  build; the macros of the other theories are those of the build without flags.
\<close>

section \<open>Builds and hooks\<close>

record build =
  INVARIANTS :: bool
  QUEUE_MACRO_DEBUG :: bool

definition release :: build where
  "release = \<lparr>INVARIANTS = False, QUEUE_MACRO_DEBUG = False\<rparr>"

text \<open>The pointer \<open>(void *)-1\<close>, as the value of a link and as the address of one.\<close>

definition trash :: addr where
  "trash = 2 ^ 64 - 1"

text \<open>
  \<open>TRASHIT(*oldnext)\<close>: the store through the address of the element's link that
  \<open>QMD_SAVELINK\<close> has saved.
\<close>

definition TRASHIT :: "build \<Rightarrow> ('m \<Rightarrow> 'm result) \<Rightarrow> 'm \<Rightarrow> 'm result" where
  "TRASHIT b store_trash m = (if QUEUE_MACRO_DEBUG b then store_trash m else Inr m)"

lemma TRASHIT_simps [simp]:
  "QUEUE_MACRO_DEBUG b \<Longrightarrow> TRASHIT b f m = f m" "\<not> QUEUE_MACRO_DEBUG b \<Longrightarrow> TRASHIT b f m = Inr m"
  by (simp_all add: TRASHIT_def)

section \<open>The singly linked families\<close>

definition SLIST_REMOVE_in :: "build \<Rightarrow> slist_mem \<Rightarrow> addr \<Rightarrow> ptr \<Rightarrow> slist_mem run" where
  "SLIST_REMOVE_in b m head elm =
     obind (SLIST_REMOVE m head elm) (\<lambda>m1.
     Some (TRASHIT b (\<lambda>m. set_SLIST_NEXT m elm (Some trash)) m1))"

definition STAILQ_REMOVE_in :: "build \<Rightarrow> stailq_mem \<Rightarrow> addr \<Rightarrow> ptr \<Rightarrow> stailq_mem run" where
  "STAILQ_REMOVE_in b m head elm =
     obind (STAILQ_REMOVE m head elm) (\<lambda>m1.
     Some (TRASHIT b (\<lambda>m. set_STAILQ_NEXT m elm (Some trash)) m1))"

section \<open>The doubly linked lists\<close>

definition QMD_LIST_CHECK_HEAD :: "build \<Rightarrow> list_mem \<Rightarrow> addr \<Rightarrow> unit result" where
  "QMD_LIST_CHECK_HEAD b m head =
     (if INVARIANTS b \<and> LIST_FIRST m head \<noteq> None
      then rbind (deref (le_prev m) (LIST_FIRST m head)) (\<lambda>l.
           if l \<noteq> First_of head then Inl Panic else Inr ())
      else Inr ())"

definition QMD_LIST_CHECK_NEXT :: "build \<Rightarrow> list_mem \<Rightarrow> ptr \<Rightarrow> unit result" where
  "QMD_LIST_CHECK_NEXT b m elm =
     (if INVARIANTS b
      then rbind (LIST_NEXT m elm) (\<lambda>p.
           if p \<noteq> None
           then rbind (deref (le_prev m) p) (\<lambda>l. if l \<noteq> Next_of (the elm) then Inl Panic else Inr ())
           else Inr ())
      else Inr ())"

definition QMD_LIST_CHECK_PREV :: "build \<Rightarrow> list_mem \<Rightarrow> ptr \<Rightarrow> unit result" where
  "QMD_LIST_CHECK_PREV b m elm =
     (if INVARIANTS b
      then rbind (deref (le_prev m) elm) (\<lambda>l.
           rbind (get_link (lh_first m) (le_next m) l) (\<lambda>p.
           if p \<noteq> elm then Inl Panic else Inr ()))
      else Inr ())"

definition LIST_INSERT_AFTER_in :: "build \<Rightarrow> list_mem \<Rightarrow> ptr \<Rightarrow> ptr \<Rightarrow> list_mem result" where
  "LIST_INSERT_AFTER_in b m listelm elm =
     rbind (QMD_LIST_CHECK_NEXT b m listelm) (\<lambda>_. LIST_INSERT_AFTER m listelm elm)"

definition LIST_INSERT_BEFORE_in :: "build \<Rightarrow> list_mem \<Rightarrow> ptr \<Rightarrow> ptr \<Rightarrow> list_mem result" where
  "LIST_INSERT_BEFORE_in b m listelm elm =
     rbind (QMD_LIST_CHECK_PREV b m listelm) (\<lambda>_. LIST_INSERT_BEFORE m listelm elm)"

definition LIST_INSERT_HEAD_in :: "build \<Rightarrow> list_mem \<Rightarrow> addr \<Rightarrow> ptr \<Rightarrow> list_mem result" where
  "LIST_INSERT_HEAD_in b m head elm =
     rbind (QMD_LIST_CHECK_HEAD b m head) (\<lambda>_. LIST_INSERT_HEAD m head elm)"

definition LIST_REMOVE_in :: "build \<Rightarrow> list_mem \<Rightarrow> ptr \<Rightarrow> list_mem result" where
  "LIST_REMOVE_in b m elm =
     rbind (QMD_LIST_CHECK_NEXT b m elm) (\<lambda>_.
     rbind (QMD_LIST_CHECK_PREV b m elm) (\<lambda>_.
     rbind (LIST_REMOVE m elm) (\<lambda>m1.
     rbind (TRASHIT b (\<lambda>m. set_LIST_NEXT m elm (Some trash)) m1)
       (TRASHIT b (\<lambda>m. set_le_prev m elm (Next_of trash))))))"

section \<open>The doubly linked tail queues\<close>

text \<open>
  A trace buffer of a head or an element: the last two places, as line and file, where it was
  altered. A memory with the trace buffers of all heads and elements; \<open>loc\<close> is the place
  (\<open>__LINE__\<close>, \<open>__FILE__\<close>) of the macro call.
\<close>

record qm_trace =
  lastline :: nat
  prevline :: nat
  lastfile :: "bytes option"
  prevfile :: "bytes option"

record tailq_build =
  tq :: tailq_mem
  head_trace :: "addr \<Rightarrow> qm_trace"
  elem_trace :: "addr \<Rightarrow> qm_trace"

type_synonym place = "nat \<times> bytes"

definition TRACEBUF_INITIALIZER :: "place \<Rightarrow> qm_trace" where
  "TRACEBUF_INITIALIZER loc =
     \<lparr>lastline = fst loc, prevline = 0, lastfile = Some (snd loc), prevfile = None\<rparr>"

text \<open>The four assignments of \<open>QMD_TRACE_HEAD\<close> and \<open>QMD_TRACE_ELEM\<close>, in their order.\<close>

definition qmd_trace :: "place \<Rightarrow> qm_trace \<Rightarrow> qm_trace" where
  "qmd_trace loc t0 =
     (let t1 = t0\<lparr>prevline := lastline t0\<rparr>;
          t2 = t1\<lparr>prevfile := lastfile t1\<rparr>;
          t3 = t2\<lparr>lastline := fst loc\<rparr>
      in t3\<lparr>lastfile := Some (snd loc)\<rparr>)"

definition QMD_TRACE_HEAD :: "build \<Rightarrow> place \<Rightarrow> addr \<Rightarrow> tailq_build \<Rightarrow> tailq_build" where
  "QMD_TRACE_HEAD b loc head d =
     (if QUEUE_MACRO_DEBUG b
      then d\<lparr>head_trace := (head_trace d)(head := qmd_trace loc (head_trace d head))\<rparr> else d)"

definition QMD_TRACE_ELEM :: "build \<Rightarrow> place \<Rightarrow> ptr \<Rightarrow> tailq_build \<Rightarrow> tailq_build" where
  "QMD_TRACE_ELEM b loc elm d =
     (if QUEUE_MACRO_DEBUG b
      then d\<lparr>elem_trace := (elem_trace d)(the elm := qmd_trace loc (elem_trace d (the elm)))\<rparr> else d)"

definition QMD_TAILQ_CHECK_HEAD :: "build \<Rightarrow> tailq_mem \<Rightarrow> addr \<Rightarrow> unit result" where
  "QMD_TAILQ_CHECK_HEAD b m head =
     (if INVARIANTS b \<and> \<not> TAILQ_EMPTY m head
      then rbind (deref (tqe_prev m) (TAILQ_FIRST m head)) (\<lambda>l.
           if l \<noteq> First_of head then Inl Panic else Inr ())
      else Inr ())"

definition QMD_TAILQ_CHECK_TAIL :: "build \<Rightarrow> tailq_mem \<Rightarrow> addr \<Rightarrow> unit result" where
  "QMD_TAILQ_CHECK_TAIL b m head =
     (if INVARIANTS b
      then rbind (get_link (tqh_first m) (tqe_next m) (tqh_last m head)) (\<lambda>p.
           if p \<noteq> None then Inl Panic else Inr ())
      else Inr ())"

definition QMD_TAILQ_CHECK_NEXT :: "build \<Rightarrow> tailq_mem \<Rightarrow> ptr \<Rightarrow> unit result" where
  "QMD_TAILQ_CHECK_NEXT b m elm =
     (if INVARIANTS b
      then rbind (TAILQ_NEXT m elm) (\<lambda>p.
           if p \<noteq> None
           then rbind (deref (tqe_prev m) p) (\<lambda>l. if l \<noteq> Next_of (the elm) then Inl Panic else Inr ())
           else Inr ())
      else Inr ())"

definition QMD_TAILQ_CHECK_PREV :: "build \<Rightarrow> tailq_mem \<Rightarrow> ptr \<Rightarrow> unit result" where
  "QMD_TAILQ_CHECK_PREV b m elm =
     (if INVARIANTS b
      then rbind (deref (tqe_prev m) elm) (\<lambda>l.
           rbind (get_link (tqh_first m) (tqe_next m) l) (\<lambda>p.
           if p \<noteq> elm then Inl Panic else Inr ()))
      else Inr ())"

text \<open>
  The macros. A trace inside a branch (the end of the queue was moved) is made when the
  link the branch tests is NULL; nothing reads the trace buffers.
\<close>

definition TAILQ_INIT_in :: "build \<Rightarrow> place \<Rightarrow> tailq_build \<Rightarrow> addr \<Rightarrow> tailq_build" where
  "TAILQ_INIT_in b loc d head = QMD_TRACE_HEAD b loc head (d\<lparr>tq := TAILQ_INIT (tq d) head\<rparr>)"

definition TAILQ_CONCAT_in ::
  "build \<Rightarrow> place \<Rightarrow> tailq_build \<Rightarrow> addr \<Rightarrow> addr \<Rightarrow> tailq_build result" where
  "TAILQ_CONCAT_in b loc d head1 head2 =
     rbind (TAILQ_CONCAT (tq d) head1 head2) (\<lambda>m.
     Inr (if \<not> TAILQ_EMPTY (tq d) head2
          then QMD_TRACE_HEAD b loc head2 (QMD_TRACE_HEAD b loc head1
                 (QMD_TRACE_HEAD b loc head2 (d\<lparr>tq := m\<rparr>)))
          else d\<lparr>tq := m\<rparr>))"

definition TAILQ_INSERT_AFTER_in ::
  "build \<Rightarrow> place \<Rightarrow> tailq_build \<Rightarrow> addr \<Rightarrow> ptr \<Rightarrow> ptr \<Rightarrow> tailq_build result" where
  "TAILQ_INSERT_AFTER_in b loc d head listelm elm =
     rbind (QMD_TAILQ_CHECK_NEXT b (tq d) listelm) (\<lambda>_.
     rbind (TAILQ_NEXT (tq d) listelm) (\<lambda>p.
     rbind (TAILQ_INSERT_AFTER (tq d) head listelm elm) (\<lambda>m.
     let d1 = d\<lparr>tq := m\<rparr>;
         d2 = (if p \<noteq> None then d1 else QMD_TRACE_HEAD b loc head d1)
     in Inr (QMD_TRACE_ELEM b loc listelm (QMD_TRACE_ELEM b loc elm d2)))))"

definition TAILQ_INSERT_BEFORE_in ::
  "build \<Rightarrow> place \<Rightarrow> tailq_build \<Rightarrow> ptr \<Rightarrow> ptr \<Rightarrow> tailq_build result" where
  "TAILQ_INSERT_BEFORE_in b loc d listelm elm =
     rbind (QMD_TAILQ_CHECK_PREV b (tq d) listelm) (\<lambda>_.
     rbind (TAILQ_INSERT_BEFORE (tq d) listelm elm) (\<lambda>m.
     Inr (QMD_TRACE_ELEM b loc listelm (QMD_TRACE_ELEM b loc elm (d\<lparr>tq := m\<rparr>)))))"

definition TAILQ_INSERT_HEAD_in ::
  "build \<Rightarrow> place \<Rightarrow> tailq_build \<Rightarrow> addr \<Rightarrow> ptr \<Rightarrow> tailq_build result" where
  "TAILQ_INSERT_HEAD_in b loc d head elm =
     rbind (QMD_TAILQ_CHECK_HEAD b (tq d) head) (\<lambda>_.
     rbind (TAILQ_INSERT_HEAD (tq d) head elm) (\<lambda>m.
     Inr (QMD_TRACE_ELEM b loc elm (QMD_TRACE_HEAD b loc head (d\<lparr>tq := m\<rparr>)))))"

definition TAILQ_INSERT_TAIL_in ::
  "build \<Rightarrow> place \<Rightarrow> tailq_build \<Rightarrow> addr \<Rightarrow> ptr \<Rightarrow> tailq_build result" where
  "TAILQ_INSERT_TAIL_in b loc d head elm =
     rbind (QMD_TAILQ_CHECK_TAIL b (tq d) head) (\<lambda>_.
     rbind (TAILQ_INSERT_TAIL (tq d) head elm) (\<lambda>m.
     Inr (QMD_TRACE_ELEM b loc elm (QMD_TRACE_HEAD b loc head (d\<lparr>tq := m\<rparr>)))))"

definition TAILQ_REMOVE_in ::
  "build \<Rightarrow> place \<Rightarrow> tailq_build \<Rightarrow> addr \<Rightarrow> ptr \<Rightarrow> tailq_build result" where
  "TAILQ_REMOVE_in b loc d head elm =
     rbind (QMD_TAILQ_CHECK_NEXT b (tq d) elm) (\<lambda>_.
     rbind (QMD_TAILQ_CHECK_PREV b (tq d) elm) (\<lambda>_.
     rbind (TAILQ_NEXT (tq d) elm) (\<lambda>p.
     rbind (TAILQ_REMOVE (tq d) head elm) (\<lambda>m1.
     rbind (TRASHIT b (\<lambda>m. set_TAILQ_NEXT m elm (Some trash)) m1) (\<lambda>m2.
     rbind (TRASHIT b (\<lambda>m. set_tqe_prev m elm (Next_of trash)) m2) (\<lambda>m3.
     let d1 = d\<lparr>tq := m3\<rparr>;
         d2 = (if p \<noteq> None then d1 else QMD_TRACE_HEAD b loc head d1)
     in Inr (QMD_TRACE_ELEM b loc elm d2)))))))"


section \<open>The build without flags\<close>

lemma release_flags [simp]: "\<not> INVARIANTS release" "\<not> QUEUE_MACRO_DEBUG release"
  by (simp_all add: release_def)

lemma rbind_Inr_right [simp]: "rbind r Inr = r"
  by (cases r) simp_all

lemmas check_defs = QMD_LIST_CHECK_HEAD_def QMD_LIST_CHECK_NEXT_def QMD_LIST_CHECK_PREV_def
  QMD_TAILQ_CHECK_HEAD_def QMD_TAILQ_CHECK_TAIL_def QMD_TAILQ_CHECK_NEXT_def QMD_TAILQ_CHECK_PREV_def

lemma tq_trace [simp]:
  "tq (QMD_TRACE_HEAD b loc h d) = tq d" "tq (QMD_TRACE_ELEM b loc p d) = tq d"
  by (simp_all add: QMD_TRACE_HEAD_def QMD_TRACE_ELEM_def)

section \<open>The checks on intact lists\<close>

lemma list_head_check: "list_rep m h as \<Longrightarrow> QMD_LIST_CHECK_HEAD b m h = Inr ()"
  using list_first [of m h as] by (cases as) (auto simp: QMD_LIST_CHECK_HEAD_def list_rep_def)

lemma list_element_checks:
  assumes "list_rep m h (us @ a # vs)"
  shows "QMD_LIST_CHECK_NEXT b m (Some a) = Inr ()" and "QMD_LIST_CHECK_PREV b m (Some a) = Inr ()"
proof -
  have n: "le_next m a = Some (first vs)" "backs (le_prev m) (Next_of a) vs"
    "le_prev m a = Some (link_end (First_of h) us)"
    using assms by (auto simp: list_rep_def seg_append dest: chain_first split: option.splits)
  then show "QMD_LIST_CHECK_NEXT b m (Some a) = Inr ()"
    by (cases vs) (auto simp: QMD_LIST_CHECK_NEXT_def LIST_NEXT_def)
  show "QMD_LIST_CHECK_PREV b m (Some a) = Inr ()"
    using n(3) get_link_chain [of "le_next m" "lh_first m" h us "a # vs"] assms
    by (simp add: QMD_LIST_CHECK_PREV_def list_rep_def del: seg.simps)
qed

lemma tailq_head_checks:
  assumes "tailq_rep m h as"
  shows "QMD_TAILQ_CHECK_HEAD b m h = Inr ()" and "QMD_TAILQ_CHECK_TAIL b m h = Inr ()"
proof -
  show "QMD_TAILQ_CHECK_HEAD b m h = Inr ()"
    using tailq_first [OF assms] assms
    by (cases as) (auto simp: QMD_TAILQ_CHECK_HEAD_def TAILQ_EMPTY_def tailq_rep_def)
  show "QMD_TAILQ_CHECK_TAIL b m h = Inr ()"
    using get_link_chain [of "tqe_next m" "tqh_first m" h as "[]"] assms
    by (simp add: QMD_TAILQ_CHECK_TAIL_def tailq_rep_def del: seg.simps)
qed

lemma tailq_element_checks:
  assumes "tailq_rep m h (us @ a # vs)"
  shows "QMD_TAILQ_CHECK_NEXT b m (Some a) = Inr ()" and "QMD_TAILQ_CHECK_PREV b m (Some a) = Inr ()"
proof -
  have n: "TAILQ_NEXT m (Some a) = Inr (first vs)" "backs (tqe_prev m) (Next_of a) vs"
    "tqe_prev m a = Some (link_end (First_of h) us)"
    using tailq_next [OF assms] assms by (simp_all add: tailq_rep_def)
  then show "QMD_TAILQ_CHECK_NEXT b m (Some a) = Inr ()"
    by (cases vs) (auto simp: QMD_TAILQ_CHECK_NEXT_def)
  show "QMD_TAILQ_CHECK_PREV b m (Some a) = Inr ()"
    using n(3) get_link_chain [of "tqe_next m" "tqh_first m" h us "a # vs"] assms
    by (simp add: QMD_TAILQ_CHECK_PREV_def tailq_rep_def del: seg.simps)
qed

section \<open>The interfaces hold in every build\<close>

text \<open>
  What a family gains when removed elements are overwritten: a removal followed by the store
  still is a removal, because the store only touches an element that is in no list any more.
\<close>

locale overwritten_lists = linked_lists +
  fixes overwrite :: "'a \<Rightarrow> addr \<Rightarrow> 'a result"
  assumes overwrite_law: "a \<in> elements m \<Longrightarrow>
      \<exists>m'. overwrite m a = Inr m' \<and> elements m' = elements m \<and>
        (\<forall>g bs. a \<notin> set bs \<longrightarrow> rep m g bs \<longrightarrow> rep m' g bs)"
begin

lemma overwriting_remove:
  assumes rep: "rep m h as" and a: "a \<in> set as"
  shows "\<exists>m'. obind (remove m h a) (\<lambda>m1. Some (TRASHIT b (\<lambda>m. overwrite m a) m1)) = Some (Inr m') \<and>
    rep m' h (remove1 a as) \<and> elements m' = elements m \<and>
    (\<forall>g bs. g \<noteq> h \<longrightarrow> rep m g bs \<longrightarrow> set bs \<inter> set as = {} \<longrightarrow> rep m' g bs)"
proof -
  obtain m1 where m1: "remove m h a = Some (Inr m1)" "rep m1 h (remove1 a as)" "elements m1 = elements m"
    "\<forall>g bs. g \<noteq> h \<longrightarrow> rep m g bs \<longrightarrow> set bs \<inter> set as = {} \<longrightarrow> rep m1 g bs"
    using remove_law [OF rep a] by blast
  have e: "a \<in> elements m1" "a \<notin> set (remove1 a as)" using rep_wf [OF rep] a m1(3) by auto
  obtain m2 where "overwrite m1 a = Inr m2" "elements m2 = elements m1"
    "\<forall>g bs. a \<notin> set bs \<longrightarrow> rep m1 g bs \<longrightarrow> rep m2 g bs"
    using overwrite_law [OF e(1)] by blast
  moreover have "a \<notin> set bs" if "set bs \<inter> set as = {}" for bs using a that by blast
  ultimately show ?thesis using m1 e(2) by (cases "QUEUE_MACRO_DEBUG b") auto
qed

end

interpretation slist: overwritten_lists slist_rep "\<lambda>m. dom (sle_next m)" SLIST_INIT
  "\<lambda>m h a. Some (SLIST_INSERT_HEAD m h (Some a))" "\<lambda>m h a. SLIST_REMOVE m h (Some a)"
  "\<lambda>m a. set_SLIST_NEXT m (Some a) (Some trash)"
  by unfold_locales (auto simp: set_SLIST_NEXT_def slist_rep_def)

interpretation stailq: overwritten_lists stailq_rep "\<lambda>m. dom (stqe_next m)" STAILQ_INIT
  "\<lambda>m h a. Some (STAILQ_INSERT_HEAD m h (Some a))" "\<lambda>m h a. STAILQ_REMOVE m h (Some a)"
  "\<lambda>m a. set_STAILQ_NEXT m (Some a) (Some trash)"
  by unfold_locales (auto simp: set_STAILQ_NEXT_def stailq_rep_def)

interpretation list: overwritten_lists list_rep list_elements LIST_INIT
  "\<lambda>m h a. Some (LIST_INSERT_HEAD m h (Some a))" "\<lambda>m h a. Some (LIST_REMOVE m (Some a))"
  "\<lambda>m a. rbind (set_LIST_NEXT m (Some a) (Some trash)) (\<lambda>m. set_le_prev m (Some a) (Next_of trash))"
  by unfold_locales (auto simp: set_LIST_NEXT_def set_le_prev_def list_rep_def list_elements_def)

interpretation tailq: overwritten_lists tailq_rep tailq_elements TAILQ_INIT
  "\<lambda>m h a. Some (TAILQ_INSERT_HEAD m h (Some a))" "\<lambda>m h a. Some (TAILQ_REMOVE m h (Some a))"
  "\<lambda>m a. rbind (set_TAILQ_NEXT m (Some a) (Some trash)) (\<lambda>m. set_tqe_prev m (Some a) (Next_of trash))"
  by unfold_locales (auto simp: set_TAILQ_NEXT_def set_tqe_prev_def tailq_rep_def tailq_elements_def)


lemma list_remove_built:
  assumes "list_rep m h as" "a \<in> set as"
  shows "LIST_REMOVE_in b m (Some a) = rbind (LIST_REMOVE m (Some a)) (TRASHIT b (\<lambda>m.
    rbind (set_LIST_NEXT m (Some a) (Some trash)) (\<lambda>m. set_le_prev m (Some a) (Next_of trash))))"
proof -
  obtain us vs where "as = us @ a # vs" using assms(2) by (meson split_list)
  with assms(1) have "list_rep m h (us @ a # vs)" by simp
  from list_element_checks [OF this] show ?thesis
    by (cases "LIST_REMOVE m (Some a)"; cases "QUEUE_MACRO_DEBUG b")
      (auto simp: LIST_REMOVE_in_def TRASHIT_def [abs_def])
qed

lemma tailq_remove_built:
  assumes "tailq_rep (tq d) h as" "a \<in> set as"
  shows "\<exists>f. (\<forall>d'. tq (f d') = tq d') \<and>
    TAILQ_REMOVE_in b loc d h (Some a) = rbind (rbind (TAILQ_REMOVE (tq d) h (Some a)) (TRASHIT b (\<lambda>m.
      rbind (set_TAILQ_NEXT m (Some a) (Some trash)) (\<lambda>m. set_tqe_prev m (Some a) (Next_of trash)))))
      (\<lambda>m. Inr (f (d\<lparr>tq := m\<rparr>)))"
proof -
  obtain us vs where "as = us @ a # vs" using assms(2) by (meson split_list)
  with assms(1) have rep: "tailq_rep (tq d) h (us @ a # vs)" by simp
  let ?f = "\<lambda>d'. QMD_TRACE_ELEM b loc (Some a) (if vs \<noteq> [] then d' else QMD_TRACE_HEAD b loc h d')"
  have "TAILQ_REMOVE_in b loc d h (Some a) = rbind (rbind (TAILQ_REMOVE (tq d) h (Some a)) (TRASHIT b (\<lambda>m.
      rbind (set_TAILQ_NEXT m (Some a) (Some trash)) (\<lambda>m. set_tqe_prev m (Some a) (Next_of trash)))))
      (\<lambda>m. Inr (?f (d\<lparr>tq := m\<rparr>)))"
    using tailq_element_checks [OF rep] tailq_next [OF rep]
    by (cases "TAILQ_REMOVE (tq d) h (Some a)"; cases "QUEUE_MACRO_DEBUG b")
      (auto simp: TAILQ_REMOVE_in_def rbind_def Let_def split: sum.splits)
  then show ?thesis by (intro exI [of _ ?f]) simp
qed

interpretation built_slist: linked_lists slist_rep "\<lambda>m. dom (sle_next m)" SLIST_INIT
  "\<lambda>m h a. Some (SLIST_INSERT_HEAD m h (Some a))" "\<lambda>m h a. SLIST_REMOVE_in b m h (Some a)" for b
  unfolding SLIST_REMOVE_in_def
  by unfold_locales
    (erule slist.rep_wf | rule slist.init_law | erule (2) slist.insert_law | erule (1) slist.overwriting_remove)+

interpretation built_stailq: linked_lists stailq_rep "\<lambda>m. dom (stqe_next m)" STAILQ_INIT
  "\<lambda>m h a. Some (STAILQ_INSERT_HEAD m h (Some a))" "\<lambda>m h a. STAILQ_REMOVE_in b m h (Some a)" for b
  unfolding STAILQ_REMOVE_in_def
  by unfold_locales
    (erule stailq.rep_wf | rule stailq.init_law | erule (2) stailq.insert_law | erule (1) stailq.overwriting_remove)+

interpretation built_list: linked_lists list_rep list_elements LIST_INIT
  "\<lambda>m h a. Some (LIST_INSERT_HEAD_in b m h (Some a))" "\<lambda>m h a. Some (LIST_REMOVE_in b m (Some a))" for b
proof unfold_locales
  fix m :: list_mem and h as a
  show "list_rep m h as \<Longrightarrow> distinct as \<and> set as \<subseteq> list_elements m" by (rule list_rep_wf)
  show "list_rep (LIST_INIT m h) h [] \<and> list_elements (LIST_INIT m h) = list_elements m \<and>
      (\<forall>g bs. g \<noteq> h \<longrightarrow> list_rep m g bs \<longrightarrow> list_rep (LIST_INIT m h) g bs)"
    by (rule list.init_law)
  show "\<exists>m'. Some (LIST_INSERT_HEAD_in b m h (Some a)) = Some (Inr m') \<and> list_rep m' h (a # as) \<and>
      list_elements m' = list_elements m \<and>
      (\<forall>g bs. g \<noteq> h \<longrightarrow> list_rep m g bs \<longrightarrow> set bs \<inter> set (a # as) = {} \<longrightarrow> list_rep m' g bs)"
    if "list_rep m h as" "a \<in> list_elements m" "a \<notin> set as"
    using list_insert_head [OF that] list_head_check [OF that(1)] by (simp add: LIST_INSERT_HEAD_in_def)
  show "\<exists>m'. Some (LIST_REMOVE_in b m (Some a)) = Some (Inr m') \<and> list_rep m' h (remove1 a as) \<and>
      list_elements m' = list_elements m \<and>
      (\<forall>g bs. g \<noteq> h \<longrightarrow> list_rep m g bs \<longrightarrow> set bs \<inter> set as = {} \<longrightarrow> list_rep m' g bs)"
    if r: "list_rep m h as" "a \<in> set as"
    using list.overwriting_remove [OF r, of b] by (simp add: list_remove_built [OF r] obind_def rbind_def split: sum.splits)
qed


abbreviation built_rep :: "tailq_build \<Rightarrow> addr \<Rightarrow> addr list \<Rightarrow> bool" where
  "built_rep d \<equiv> tailq_rep (tq d)"

abbreviation built_elements :: "tailq_build \<Rightarrow> addr set" where
  "built_elements d \<equiv> tailq_elements (tq d)"

interpretation built_tailq: linked_lists built_rep built_elements "TAILQ_INIT_in b loc"
  "\<lambda>d h a. Some (TAILQ_INSERT_HEAD_in b loc d h (Some a))"
  "\<lambda>d h a. Some (TAILQ_REMOVE_in b loc d h (Some a))" for b loc
proof unfold_locales
  fix d :: tailq_build and h as a
  show "built_rep d h as \<Longrightarrow> distinct as \<and> set as \<subseteq> built_elements d" by (rule tailq_rep_wf)
  show "built_rep (TAILQ_INIT_in b loc d h) h [] \<and> built_elements (TAILQ_INIT_in b loc d h) = built_elements d \<and>
      (\<forall>g bs. g \<noteq> h \<longrightarrow> built_rep d g bs \<longrightarrow> built_rep (TAILQ_INIT_in b loc d h) g bs)"
    using tailq.init_law [of "tq d" h] by (simp add: TAILQ_INIT_in_def)
  show "\<exists>d'. Some (TAILQ_INSERT_HEAD_in b loc d h (Some a)) = Some (Inr d') \<and> built_rep d' h (a # as) \<and>
      built_elements d' = built_elements d \<and>
      (\<forall>g bs. g \<noteq> h \<longrightarrow> built_rep d g bs \<longrightarrow> set bs \<inter> set (a # as) = {} \<longrightarrow> built_rep d' g bs)"
    if "built_rep d h as" "a \<in> built_elements d" "a \<notin> set as"
    using tailq_insert_head [OF that] tailq_head_checks(1) [OF that(1)]
    by (auto simp: TAILQ_INSERT_HEAD_in_def)
  show "\<exists>d'. Some (TAILQ_REMOVE_in b loc d h (Some a)) = Some (Inr d') \<and> built_rep d' h (remove1 a as) \<and>
      built_elements d' = built_elements d \<and>
      (\<forall>g bs. g \<noteq> h \<longrightarrow> built_rep d g bs \<longrightarrow> set bs \<inter> set as = {} \<longrightarrow> built_rep d' g bs)"
    if r: "built_rep d h as" "a \<in> set as"
  proof -
    obtain m where m: "rbind (TAILQ_REMOVE (tq d) h (Some a)) (TRASHIT b (\<lambda>m.
        rbind (set_TAILQ_NEXT m (Some a) (Some trash)) (\<lambda>m. set_tqe_prev m (Some a) (Next_of trash)))) = Inr m"
      "tailq_rep m h (remove1 a as)" "tailq_elements m = built_elements d"
      "\<forall>g bs. g \<noteq> h \<longrightarrow> built_rep d g bs \<longrightarrow> set bs \<inter> set as = {} \<longrightarrow> tailq_rep m g bs"
      using tailq.overwriting_remove [OF r, of b] by (auto simp: rbind_def obind_def split: sum.splits)
    obtain f where f: "\<And>d'. tq (f d') = tq d'" "TAILQ_REMOVE_in b loc d h (Some a) = Inr (f (d\<lparr>tq := m\<rparr>))"
      using tailq_remove_built [OF r, of b loc] unfolding m(1) by auto
    then show ?thesis using m(2-) by auto
  qed
qed

interpretation built_tailq: tail_queues built_rep built_elements "TAILQ_INIT_in b loc"
  "\<lambda>d h a. Some (TAILQ_INSERT_HEAD_in b loc d h (Some a))"
  "\<lambda>d h a. Some (TAILQ_REMOVE_in b loc d h (Some a))"
  "\<lambda>d. TAILQ_FIRST (tq d)" "\<lambda>d h a. Some (TAILQ_INSERT_TAIL_in b loc d h (Some a))"
  "\<lambda>d g h. Some (TAILQ_CONCAT_in b loc d g h)" for b loc
proof unfold_locales
  fix d :: tailq_build and g h as bs a
  show "built_rep d h as \<Longrightarrow> TAILQ_FIRST (tq d) h = first as" by (rule tailq_first)
  show "\<exists>d'. Some (TAILQ_INSERT_TAIL_in b loc d h (Some a)) = Some (Inr d') \<and> built_rep d' h (as @ [a]) \<and>
      built_elements d' = built_elements d \<and>
      (\<forall>g bs. g \<noteq> h \<longrightarrow> built_rep d g bs \<longrightarrow> set bs \<inter> set (a # as) = {} \<longrightarrow> built_rep d' g bs)"
    if "built_rep d h as" "a \<in> built_elements d" "a \<notin> set as"
    using tailq_insert_tail [OF that] tailq_head_checks(2) [OF that(1)]
    by (auto simp: TAILQ_INSERT_TAIL_in_def)
  show "\<exists>d'. Some (TAILQ_CONCAT_in b loc d g h) = Some (Inr d') \<and> built_rep d' g (as @ bs) \<and>
      built_rep d' h [] \<and> built_elements d' = built_elements d"
    if "built_rep d g as" "built_rep d h bs" "g \<noteq> h" "set as \<inter> set bs = {}"
    using tailq_concat [OF that] by (cases "TAILQ_EMPTY (tq d) h") (auto simp: TAILQ_CONCAT_in_def)
qed

text \<open>Insertion next to an element of the queue or list, which the interfaces do not have.\<close>

lemma list_insert_built:
  assumes "list_rep m h (us @ c # vs)" "a \<in> list_elements m" "a \<notin> set (us @ c # vs)"
  shows "\<exists>m'. LIST_INSERT_AFTER_in b m (Some c) (Some a) = Inr m' \<and> list_rep m' h (us @ c # a # vs)"
    and "\<exists>m'. LIST_INSERT_BEFORE_in b m (Some c) (Some a) = Inr m' \<and> list_rep m' h (us @ a # c # vs)"
  using list_insert_after [OF assms] list_insert_before [OF assms] list_element_checks [OF assms(1)]
  by (simp_all add: LIST_INSERT_AFTER_in_def LIST_INSERT_BEFORE_in_def)

lemma tailq_insert_built:
  assumes "built_rep d h (us @ c # vs)" "a \<in> built_elements d" "a \<notin> set (us @ c # vs)"
  shows "\<exists>d'. TAILQ_INSERT_AFTER_in b loc d h (Some c) (Some a) = Inr d' \<and> built_rep d' h (us @ c # a # vs)"
    and "\<exists>d'. TAILQ_INSERT_BEFORE_in b loc d (Some c) (Some a) = Inr d' \<and> built_rep d' h (us @ a # c # vs)"
  using tailq_insert_after [OF assms] tailq_insert_before [OF assms] tailq_element_checks [OF assms(1)]
    tailq_next [OF assms(1)]
  by (cases vs; auto simp: TAILQ_INSERT_AFTER_in_def TAILQ_INSERT_BEFORE_in_def Let_def)+

text \<open>In the build without flags every macro is the one without hooks, on every memory.\<close>

lemma release_list_macros:
  "LIST_INSERT_AFTER_in release m x y = LIST_INSERT_AFTER m x y"
  "LIST_INSERT_BEFORE_in release m x y = LIST_INSERT_BEFORE m x y"
  "LIST_INSERT_HEAD_in release m h y = LIST_INSERT_HEAD m h y"
  "LIST_REMOVE_in release m y = LIST_REMOVE m y"
  by (simp_all add: LIST_INSERT_AFTER_in_def LIST_INSERT_BEFORE_in_def LIST_INSERT_HEAD_in_def
      LIST_REMOVE_in_def check_defs TRASHIT_def [abs_def])

lemma release_slist_macros:
  "SLIST_REMOVE_in release m h y = SLIST_REMOVE m h y"
  "STAILQ_REMOVE_in release k h y = STAILQ_REMOVE k h y"
  by (auto simp: SLIST_REMOVE_in_def STAILQ_REMOVE_in_def obind_def split: option.splits sum.splits)

lemma release_trace [simp]:
  "QMD_TRACE_HEAD release loc h d = d" "QMD_TRACE_ELEM release loc p d = d"
  by (simp_all add: QMD_TRACE_HEAD_def QMD_TRACE_ELEM_def)

lemma release_tailq_macros:
  "TAILQ_INIT_in release loc d h = d\<lparr>tq := TAILQ_INIT (tq d) h\<rparr>"
  "TAILQ_CONCAT_in release loc d g h = rbind (TAILQ_CONCAT (tq d) g h) (\<lambda>m. Inr (d\<lparr>tq := m\<rparr>))"
  "TAILQ_INSERT_AFTER_in release loc d h x y = rbind (TAILQ_INSERT_AFTER (tq d) h x y) (\<lambda>m. Inr (d\<lparr>tq := m\<rparr>))"
  "TAILQ_INSERT_BEFORE_in release loc d x y = rbind (TAILQ_INSERT_BEFORE (tq d) x y) (\<lambda>m. Inr (d\<lparr>tq := m\<rparr>))"
  "TAILQ_INSERT_HEAD_in release loc d h y = rbind (TAILQ_INSERT_HEAD (tq d) h y) (\<lambda>m. Inr (d\<lparr>tq := m\<rparr>))"
  "TAILQ_INSERT_TAIL_in release loc d h y = rbind (TAILQ_INSERT_TAIL (tq d) h y) (\<lambda>m. Inr (d\<lparr>tq := m\<rparr>))"
  "TAILQ_REMOVE_in release loc d h y = rbind (TAILQ_REMOVE (tq d) h y) (\<lambda>m. Inr (d\<lparr>tq := m\<rparr>))"
  by (simp_all add: TAILQ_INIT_in_def TAILQ_CONCAT_in_def TAILQ_INSERT_AFTER_in_def
      TAILQ_INSERT_BEFORE_in_def TAILQ_INSERT_HEAD_in_def TAILQ_INSERT_TAIL_in_def TAILQ_REMOVE_in_def
      check_defs Let_def)
    (auto simp: TAILQ_INSERT_AFTER_def TAILQ_REMOVE_def rbind_def split: sum.splits)


section \<open>Properties\<close>

text \<open>
  C27: The hooks of \<open>queue.h\<close> are transparent: in every build, whatever flags are set, any allowed
  script of initialisations, insertions and removals on doubly linked lists and on tail queues
  runs to its end without a panic or a fault and leaves in the heads exactly the lists that the
  script describes.
\<close>

theorem builds_run_scripts:
  assumes "family list_rep H m L" and "allowed_all (list_elements m) H cs L"
    and "family (\<lambda>d. tailq_rep (tq d)) H d L" and "allowed_all (tailq_elements (tq d)) H cs L"
  shows "(\<exists>m'. exec_ops LIST_INIT (\<lambda>m h a. Some (LIST_INSERT_HEAD_in b m h (Some a)))
        (\<lambda>m h a. Some (LIST_REMOVE_in b m (Some a))) cs m = Some (Inr m') \<and>
      family list_rep H m' (fold apply_op cs L)) \<and>
    (\<exists>d'. exec_ops (TAILQ_INIT_in b loc) (\<lambda>d h a. Some (TAILQ_INSERT_HEAD_in b loc d h (Some a)))
        (\<lambda>d h a. Some (TAILQ_REMOVE_in b loc d h (Some a))) cs d = Some (Inr d') \<and>
      family (\<lambda>d. tailq_rep (tq d)) H d' (fold apply_op cs L))"
  using built_list.exec_ops_family [OF assms(1,2)] built_tailq.exec_ops_family [OF assms(3,4)] by blast

definition build_start :: tailq_build where
  "build_start = \<lparr>tq = tailq_start, head_trace = (\<lambda>h. TRACEBUF_INITIALIZER (7, ''main.c'')),
     elem_trace = (\<lambda>a. TRACEBUF_INITIALIZER (7, ''main.c''))\<rparr>"

theorem builds_run_scripts_witness:
  "\<exists>m' d'. let b = \<lparr>INVARIANTS = True, QUEUE_MACRO_DEBUG = True\<rparr>; loc = (12, ''main.c'');
      cs = [Reset 0, Insert 0 1, Insert 0 2, Insert 5 3, Remove 0 1, Insert 5 1] in
    exec_ops LIST_INIT (\<lambda>m h a. Some (LIST_INSERT_HEAD_in b m h (Some a)))
      (\<lambda>m h a. Some (LIST_REMOVE_in b m (Some a))) cs list_start = Some (Inr m') \<and>
    list_rep m' 0 [2] \<and> list_rep m' 5 [1, 3] \<and>
    exec_ops (TAILQ_INIT_in b loc) (\<lambda>d h a. Some (TAILQ_INSERT_HEAD_in b loc d h (Some a)))
      (\<lambda>d h a. Some (TAILQ_REMOVE_in b loc d h (Some a))) cs build_start = Some (Inr d') \<and>
    tailq_rep (tq d') 0 [2] \<and> tailq_rep (tq d') 5 [1, 3]"
proof -
  let ?cs = "[Reset 0, Insert 0 1, Insert 0 2, Insert 5 3, Remove 0 1, Insert 5 1] :: list_op list"
  have "family list_rep [0, 5] list_start (\<lambda>h. [])" "list_elements list_start = {1, 2, 3}"
    by (auto simp: family_def list_rep_def list_start_def list_elements_def)
  moreover have "family (\<lambda>d. tailq_rep (tq d)) [0, 5] build_start (\<lambda>h. [])"
    "tailq_elements (tq build_start) = {1, 2, 3}"
    using tailq_start_rep by (simp_all add: family_def build_start_def)
  ultimately show ?thesis
    using builds_run_scripts [of "[0, 5]" list_start "\<lambda>h. []" ?cs build_start
        "\<lparr>INVARIANTS = True, QUEUE_MACRO_DEBUG = True\<rparr>" "(12, ''main.c'')"]
    by (auto simp: family_def Let_def)
qed

text \<open>What a removal leaves in the removed element.\<close>

lemma list_remove_keeps:
  assumes "LIST_REMOVE m (Some a) = Inr m1" "le_next m a = Some p" "le_prev m a = Some l"
    and "p \<noteq> Some a" "l \<noteq> Next_of a"
  shows "le_next m1 a = Some p \<and> le_prev m1 a = Some l"
  using assms
  by (cases p; cases l)
    (auto simp: LIST_REMOVE_def LIST_NEXT_def set_le_prev_unless_null_def set_prev_unless_null_def
      list_put_def put_link_def assign_def split: option.splits)

lemma put_link_same: "get_link f n l = Inr p \<Longrightarrow> put_link f n l p = Inr (f, n)"
  by (cases l) (auto simp: get_link_def put_link_def deref_def assign_def fun_upd_idem split: option.splits)

lemma links_elsewhere: "a \<notin> set (us @ vs) \<Longrightarrow> first vs \<noteq> Some a \<and> link_end (First_of h) us \<noteq> Next_of a"
  by (cases vs) (auto dest: link_end_eq_Next)

lemma list_remove_again:
  assumes rep: "list_rep m h (us @ vs)" and a: "a \<notin> set (us @ vs)"
    and links: "le_next m a = Some (first vs)" "le_prev m a = Some (link_end (First_of h) us)"
  shows "INVARIANTS b \<Longrightarrow> LIST_REMOVE_in b m (Some a) = Inl Panic" and "LIST_REMOVE m (Some a) = Inr m"
proof -
  let ?l = "link_end (First_of h) us"
  have get: "get_link (lh_first m) (le_next m) ?l = Inr (first vs)"
    using get_link_chain [of "le_next m" "lh_first m" h us vs] rep by (simp add: list_rep_def)
  have l: "?l \<noteq> Next_of a" "first vs \<noteq> Some a" using links_elsewhere [OF a] by blast+
  have bk: "vs = v # ws \<Longrightarrow> le_prev m v = Some ?l" for v ws using rep by (simp add: list_rep_def)
  show "LIST_REMOVE_in b m (Some a) = Inl Panic" if "INVARIANTS b"
    using that links get l bk
    by (cases vs) (auto simp: LIST_REMOVE_in_def QMD_LIST_CHECK_NEXT_def QMD_LIST_CHECK_PREV_def LIST_NEXT_def)
  show "LIST_REMOVE m (Some a) = Inr m"
    using links bk put_link_same [OF get]
    by (cases vs) (auto simp: LIST_REMOVE_def LIST_NEXT_def set_le_prev_unless_null_def
        set_prev_unless_null_def list_put_def fun_upd_idem)
qed

lemma list_remove_dom: "LIST_REMOVE m p = Inr m1 \<Longrightarrow> dom (le_prev m1) = dom (le_prev m)"
  by (auto simp: LIST_REMOVE_def set_le_prev_unless_null_def set_prev_unless_null_def list_put_def
      assign_def split: option.splits if_splits prod.splits)

text \<open>
  C28: Removing an element twice: what the second removal does depends on the build. With
  overwritten links it reads memory at the address \<open>-1\<close>, with the checks alone it panics, and
  in the build without flags it passes unnoticed and changes nothing.
\<close>

theorem second_removal:
  assumes "list_rep m h as" and "a \<in> set as" and "trash \<notin> dom (le_prev m)"
    and "LIST_REMOVE_in b m (Some a) = Inr m1"
  shows "LIST_REMOVE_in b m1 (Some a) =
    (if QUEUE_MACRO_DEBUG b then Inl BadAccess else if INVARIANTS b then Inl Panic else Inr m1)"
proof -
  obtain us vs where as: "as = us @ a # vs" using assms(2) by (meson split_list)
  have rep: "list_rep m h (us @ a # vs)" "a \<notin> set (us @ vs)" using assms(1) list_rep_wf [OF assms(1)] as by auto
  have links: "le_next m a = Some (first vs)" "le_prev m a = Some (link_end (First_of h) us)"
    using rep by (auto simp: list_rep_def seg_append dest: chain_first split: option.splits)
  obtain m0 where m0: "LIST_REMOVE m (Some a) = Inr m0" "list_rep m0 h (us @ vs)"
    using list_remove [OF rep(1)] by blast
  have kept: "le_next m0 a = Some (first vs)" "le_prev m0 a = Some (link_end (First_of h) us)"
    using list_remove_keeps [OF m0(1) links] links_elsewhere [OF rep(2)] by blast+
  have m1: "TRASHIT b (\<lambda>m. rbind (set_LIST_NEXT m (Some a) (Some trash))
      (\<lambda>m. set_le_prev m (Some a) (Next_of trash))) m0 = Inr m1"
    using assms(4) m0(1) list_remove_built [OF assms(1,2)] by simp
  show ?thesis
  proof (cases "QUEUE_MACRO_DEBUG b")
    case True
    have "a \<noteq> trash" "le_prev m0 trash = None"
      using list_remove_dom [OF m0(1)] assms(2,3) list_rep_wf [OF assms(1)]
      by (auto simp: list_elements_def)
    then have "le_next m1 a = Some (Some trash)" "le_prev m1 trash = None" "le_prev m1 a = Some (Next_of trash)"
      using m1 kept True by (auto simp: set_LIST_NEXT_def set_le_prev_def)
    then show ?thesis using True
      by (auto simp: LIST_REMOVE_in_def QMD_LIST_CHECK_NEXT_def QMD_LIST_CHECK_PREV_def LIST_NEXT_def
          LIST_REMOVE_def set_le_prev_unless_null_def set_prev_unless_null_def)
  next
    case False
    then have "m1 = m0" using m1 by simp
    moreover have "LIST_REMOVE_in b m0 (Some a) = Inr m0" if "\<not> INVARIANTS b"
      using that False list_remove_again(2) [OF m0(2) rep(2) kept]
      by (simp add: LIST_REMOVE_in_def check_defs)
    ultimately show ?thesis using False list_remove_again(1) [OF m0(2) rep(2) kept, of b] by simp
  qed
qed

theorem second_removal_witness:
  "\<exists>m1. let b = \<lparr>INVARIANTS = True, QUEUE_MACRO_DEBUG = False\<rparr>;
      m = list_start\<lparr>lh_first := (\<lambda>h. Some 2)\<rparr>\<lparr>le_prev := [1 \<mapsto> First_of 9, 2 \<mapsto> First_of 0]\<rparr> in
    LIST_REMOVE_in b m (Some 2) = Inr m1 \<and> LIST_REMOVE_in b m1 (Some 2) = Inl Panic"
proof -
  let ?b = "\<lparr>INVARIANTS = True, QUEUE_MACRO_DEBUG = False\<rparr>"
  let ?m = "list_start\<lparr>lh_first := (\<lambda>h. Some 2)\<rparr>\<lparr>le_prev := [1 \<mapsto> First_of 9, 2 \<mapsto> First_of 0]\<rparr>"
  have rep: "list_rep ?m 0 [2]" "2 \<in> set [2 :: addr]" "trash \<notin> dom (le_prev ?m)"
    by (auto simp: list_rep_def list_start_def trash_def)
  obtain m1 where m1: "LIST_REMOVE_in ?b ?m (Some 2) = Inr m1"
    using list.overwriting_remove [OF rep(1,2), of ?b] list_remove_built [OF rep(1,2), of ?b]
    by (auto simp: rbind_def obind_def split: sum.splits)
  from second_removal [OF rep m1] m1 show ?thesis by (simp add: Let_def)
qed

text \<open>The trace buffers remember the last two places.\<close>

lemma trace_remembers_two:
  "qmd_trace loc2 (qmd_trace loc1 t) =
    \<lparr>lastline = fst loc2, prevline = fst loc1, lastfile = Some (snd loc2), prevfile = Some (snd loc1)\<rparr>"
  by (simp add: qmd_trace_def Let_def)

lemma tail_then_remove_trace:
  assumes "TAILQ_INSERT_TAIL_in b loc1 d h (Some a) = Inr d1" "TAILQ_REMOVE_in b loc2 d1 h (Some a) = Inr d2"
    and "QUEUE_MACRO_DEBUG b"
  shows "elem_trace d2 a =
      \<lparr>lastline = fst loc2, prevline = fst loc1, lastfile = Some (snd loc2), prevfile = Some (snd loc1)\<rparr>"
  using assms
  by (auto simp: TAILQ_INSERT_TAIL_in_def TAILQ_REMOVE_in_def QMD_TRACE_ELEM_def QMD_TRACE_HEAD_def
      trace_remembers_two Let_def split: if_splits)

end
