(* ===== verification/System_Calls.thy ===== *)
theory System_Calls
  imports Prelude
begin

text \<open>
  The process exercises of \<open>examples/systemcalls/systemcalls.c\<close>: \<open>do_system\<close>, \<open>do_exec\<close> and
  \<open>do_exec_redirect\<close>. The operating system is the record \<open>proc_os\<close>, a parameter of the
  definitions. After a successful \<open>fork\<close> two processes run the same code: the part of the child is
  run first, \<open>so_child\<close> takes the child from the point where it leaves the function (as a new program
  image or by returning to the caller) to its end, and then the parent, which does nothing
  but wait for it, goes on.
\<close>

unbundle bit_operations_syntax

section \<open>Data\<close>

text \<open>How a process leaves the function: it returns a value, or \<open>execv\<close> replaced its image.\<close>

datatype fate = Returned bool | Replaced bytes "bytes list"

record 'w proc_os =
  so_system :: "'w \<Rightarrow> bytes option \<Rightarrow> 'w \<times> int"
  so_fork :: "'w \<Rightarrow> 'w \<times> int"
  so_execv :: "'w \<Rightarrow> bytes option \<Rightarrow> bytes option list \<Rightarrow> 'w \<times> int option"
  so_child :: "'w \<Rightarrow> int \<Rightarrow> fate \<Rightarrow> 'w"
  so_waitpid :: "'w \<Rightarrow> int \<Rightarrow> 'w \<times> int \<times> u32"
  so_open :: "'w \<Rightarrow> bytes \<Rightarrow> 'w \<times> int"
  so_dup2 :: "'w \<Rightarrow> int \<Rightarrow> int \<Rightarrow> 'w \<times> int"
  so_close :: "'w \<Rightarrow> int \<Rightarrow> 'w"

text \<open>The wait status macros of the C library.\<close>

definition WIFEXITED :: "u32 \<Rightarrow> bool" where
  "WIFEXITED status = (status AND 0x7F = 0)"

definition WEXITSTATUS :: "u32 \<Rightarrow> u32" where
  "WEXITSTATUS status = drop_bit 8 (status AND 0xFF00)"

section \<open>Operations\<close>

definition do_system :: "'w proc_os \<Rightarrow> bytes option \<Rightarrow> 'w \<Rightarrow> 'w \<times> bool" where
  "do_system os cmd w = (let (w1, returnValue) = so_system os w cmd
                         in (w1, if returnValue = -1 then False else True))"

text \<open>
  The variable arguments: \<open>count\<close> of them are read, and NULL is stored behind them. Reading more than
  were passed, or declaring an array of no elements, is undefined.
\<close>

fun read_args :: "nat \<Rightarrow> bytes option list \<Rightarrow> bytes option list result" where
  "read_args 0 args = Inr [None]"
| "read_args (Suc n) [] = Inl Undefined"
| "read_args (Suc n) (a # args) = rbind (read_args n args) (\<lambda>command. Inr (a # command))"

definition command_array :: "int \<Rightarrow> bytes option list \<Rightarrow> bytes option list result" where
  "command_array count args = (if count < 0 then Inl Undefined else read_args (nat count) args)"

text \<open>The first character of a C string.\<close>

definition first_char :: "bytes option \<Rightarrow> char result" where
  "first_char p = (case p of None \<Rightarrow> Inl NullDeref
                   | Some str \<Rightarrow> Inr (case str of [] \<Rightarrow> CHR 0x00 | c # _ \<Rightarrow> c))"

text \<open>The end of both functions: wait for \<open>pid\<close> and look at its status.\<close>

definition wait_status :: "'w proc_os \<Rightarrow> int \<Rightarrow> 'w \<Rightarrow> 'w \<times> fate" where
  "wait_status os pid w =
     (let (w1, r, status) = so_waitpid os w pid
      in if r = -1 then (w1, Returned False)
         else if WIFEXITED status then (w1, Returned (WEXITSTATUS status = 0))
         else (w1, Returned True))"

text \<open>\<open>execv\<close> in the child; it does not return unless it fails. The vector ends at its first NULL.\<close>

definition argv_of :: "bytes option list \<Rightarrow> bytes list" where
  "argv_of command = map the (takeWhile (\<lambda>a. a \<noteq> None) command)"

definition exec_child :: "'w proc_os \<Rightarrow> bytes option list \<Rightarrow> 'w \<Rightarrow> 'w \<times> fate" where
  "exec_child os command w =
     (case so_execv os w (hd command) command of
        (w1, None) \<Rightarrow> (w1, Replaced (the (hd command)) (argv_of command))
      | (w1, Some returnValue) \<Rightarrow>
          if returnValue = -1 then (w1, Returned False) else wait_status os 0 w1)"

text \<open>
  \<open>fork\<close>, with the code of the child as a parameter. The result is how the parent leaves
  the function and, when there is one, how the child does.
\<close>

definition fork_run ::
  "'w proc_os \<Rightarrow> ('w \<Rightarrow> 'w \<times> fate) \<Rightarrow> 'w \<Rightarrow> 'w \<times> fate \<times> fate option" where
  "fork_run os child w =
     (let (w1, pid) = so_fork os w
      in if pid = -1 then (w1, Returned False, None)
         else
           let (w2, c) = child w1;
               (w3, p) = wait_status os pid (so_child os w2 pid c)
           in (w3, p, Some c))"

definition do_exec ::
  "'w proc_os \<Rightarrow> int \<Rightarrow> bytes option list \<Rightarrow> 'w \<Rightarrow> ('w \<times> fate \<times> fate option) result" where
  "do_exec os count args w =
     rbind (command_array count args) (\<lambda>command.
     rbind (first_char (hd command)) (\<lambda>c.
     if c \<noteq> CHR ''/'' then Inr (w, Returned False, None)
     else Inr (fork_run os (exec_child os command) w)))"

definition redirect_child ::
  "'w proc_os \<Rightarrow> bytes \<Rightarrow> bytes option list \<Rightarrow> 'w \<Rightarrow> 'w \<times> fate" where
  "redirect_child os outputfile command w =
     (let (w1, fd) = so_open os w outputfile
      in if fd < 0 then (w1, Returned False)
         else exec_child os command (so_close os (fst (so_dup2 os w1 fd 1)) fd))"

definition do_exec_redirect ::
  "'w proc_os \<Rightarrow> bytes \<Rightarrow> int \<Rightarrow> bytes option list \<Rightarrow> 'w \<Rightarrow> ('w \<times> fate \<times> fate option) result" where
  "do_exec_redirect os outputfile count args w =
     rbind (command_array count args) (\<lambda>command.
     Inr (fork_run os (redirect_child os outputfile command) w))"

section \<open>Wait statuses\<close>

text \<open>
  How a process ends, and the status the system reports for it: it exits with a code, or a signal kills
  it, with or without a core dump.
\<close>

datatype ending = Exits int | Killed nat bool

fun status_of :: "ending \<Rightarrow> u32" where
  "status_of (Exits c) = push_bit 8 (word_of_int c AND 0xFF)"
| "status_of (Killed s core) = (of_nat s AND 0x7F) OR (if core then 0x80 else 0)"

text \<open>What the code takes for success.\<close>

fun counts_as_success :: "ending \<Rightarrow> bool" where
  "counts_as_success (Exits c) = (c mod 256 = 0)"
| "counts_as_success (Killed s core) = True"

lemma WIFEXITED_exits [simp]: "WIFEXITED (status_of (Exits c))"
proof -
  have "push_bit 8 (word_of_int c AND 0xFF :: u32) AND mask 7 = 0"
    by (rule bit_word_eqI) (auto simp: bit_simps)
  then show ?thesis by (simp add: WIFEXITED_def mask_eq_exp_minus_1)
qed

lemma WEXITSTATUS_exits: "WEXITSTATUS (status_of (Exits c)) = word_of_int (c mod 256)"
proof -
  have m: "(0xFF :: u32) = mask 8" "(0xFF00 :: u32) = push_bit 8 (mask 8)"
    by (simp_all add: mask_eq_exp_minus_1)
  have "WEXITSTATUS (status_of (Exits c)) = (word_of_int c AND mask 8 :: u32)"
    unfolding WEXITSTATUS_def status_of.simps m by (rule bit_word_eqI) (auto simp: bit_simps)
  also have "\<dots> = word_of_int (c mod 256)"
    by (rule bit_word_eqI) (auto simp: bit_simps simp flip: take_bit_eq_mod [where n = 8, simplified])
  finally show ?thesis .
qed

lemma exit_status_zero: "WEXITSTATUS (status_of (Exits c)) = 0 \<longleftrightarrow> c mod 256 = 0"
proof -
  have "0 \<le> c mod 256" "c mod 256 < 256" by simp_all
  then have "uint (word_of_int (c mod 256) :: u32) = c mod 256"
    by (simp add: uint_word_of_int)
  then show ?thesis unfolding WEXITSTATUS_exits by (metis uint_0_eq word_of_int_0)
qed

lemma status_killed: "status_of (Killed s core) = (of_nat s AND mask 7) OR (if core then 0x80 else 0)"
  by (simp add: mask_eq_exp_minus_1)

lemma bit_core_dump: "bit (0x80 :: u32) n \<longleftrightarrow> n = 7" "bit (0x80 :: nat) n \<longleftrightarrow> n = 7"
proof -
  have "bit (2 ^ 7 :: u32) n \<longleftrightarrow> n = 7" "bit (2 ^ 7 :: nat) n \<longleftrightarrow> n = 7"
    unfolding bit_exp_iff by (auto simp: possible_bit_def)
  then show "bit (0x80 :: u32) n \<longleftrightarrow> n = 7" "bit (0x80 :: nat) n \<longleftrightarrow> n = 7" by simp_all
qed

lemma WIFEXITED_killed:
  assumes "0 < s" "s < 127"
  shows "\<not> WIFEXITED (status_of (Killed s core))"
proof -
  have m: "(0x7F :: u32) = mask 7" by (simp add: mask_eq_exp_minus_1)
  have "status_of (Killed s core) AND mask 7 = (of_nat s AND mask 7 :: u32)"
    unfolding status_killed bit.conj_disj_distrib2 by (simp add: mask_eq_exp_minus_1 and.assoc)
  also have "\<dots> = of_nat s"
    using assms by (simp add: take_bit_of_nat take_bit_nat_eq_self flip: take_bit_eq_mask)
  finally have "status_of (Killed s core) AND 0x7F = of_nat s" by (simp only: m)
  moreover have "unat (of_nat s :: u32) = s" using assms by (simp add: unat_of_nat)
  ultimately show ?thesis using assms unfolding WIFEXITED_def by (metis unat_0 less_irrefl)
qed

lemma status_not_minus_one: "sint (status_of e) \<noteq> -1"
proof -
  have "\<not> bit (status_of e) 31"
  proof (cases e)
    case (Exits c)
    have m: "(0xFF :: u32) = mask 8" by (simp add: mask_eq_exp_minus_1)
    show ?thesis unfolding Exits status_of.simps m by (simp add: bit_simps)
  next
    case (Killed s core)
    show ?thesis unfolding Killed status_killed by (simp add: bit_simps bit_core_dump)
  qed
  then have "status_of e \<noteq> -1" by auto
  then show ?thesis by (metis signed_minus_1 signed_word_eqI)
qed

section \<open>Contracts of the system\<close>

text \<open>
  What the manuals promise: \<open>fork\<close> returns -1 or a positive number in the parent, \<open>execv\<close> returns only
  to report an error, and \<open>waitpid\<close> for a child returns -1 or the child's number and the status of how
  that child ended, which \<open>ends\<close> tells from the world.
\<close>

fun valid_ending :: "ending \<Rightarrow> bool" where
  "valid_ending (Exits c) = True"
| "valid_ending (Killed s core) = (0 < s \<and> s < 127)"

definition proc_ok :: "'w proc_os \<Rightarrow> ('w \<Rightarrow> int \<Rightarrow> ending option) \<Rightarrow> bool" where
  "proc_ok os ends \<longleftrightarrow>
     (\<forall>w. snd (so_fork os w) = -1 \<or> 0 < snd (so_fork os w)) \<and>
     (\<forall>w path argv. snd (so_execv os w path argv) \<in> {None, Some (-1)}) \<and>
     (\<forall>w pid w' r status. 0 < pid \<longrightarrow> so_waitpid os w pid = (w', r, status) \<longrightarrow> r \<noteq> -1 \<longrightarrow>
        r = pid \<and> (\<exists>e. ends w pid = Some e \<and> valid_ending e \<and> status = status_of e))"

text \<open>
  What the parent reports for a child \<open>pid\<close> when it waits for it in the world \<open>w\<close>: success if
  \<open>waitpid\<close> succeeds and the child's ending counts as success.
\<close>

definition reported :: "'w proc_os \<Rightarrow> ('w \<Rightarrow> int \<Rightarrow> ending option) \<Rightarrow> 'w \<Rightarrow> int \<Rightarrow> bool" where
  "reported os ends w pid \<longleftrightarrow>
     (case so_waitpid os w pid of (w', r, status) \<Rightarrow>
        r \<noteq> -1 \<and> (case ends w pid of Some e \<Rightarrow> counts_as_success e | None \<Rightarrow> False))"

text \<open>The descriptor table of the process, and what the descriptor calls do to it.\<close>

definition fds_ok :: "'w proc_os \<Rightarrow> ('w \<Rightarrow> int \<rightharpoonup> bytes) \<Rightarrow> bool" where
  "fds_ok os fdt \<longleftrightarrow>
     (\<forall>w f w' d. so_open os w f = (w', d) \<longrightarrow> 0 \<le> d \<longrightarrow> fdt w d = None \<and> fdt w' = (fdt w)(d \<mapsto> f)) \<and>
     (\<forall>w a b. fdt w a \<noteq> None \<longrightarrow> fdt (fst (so_dup2 os w a b)) = (fdt w)(b := fdt w a)) \<and>
     (\<forall>w a. fdt (so_close os w a) = (fdt w)(a := None))"

section \<open>Lemmas\<close>

lemma read_args_all: "read_args (length as) as = Inr (as @ [None])"
  by (induction as) simp_all

lemma command_array_all: "command_array (int (length as)) as = Inr (as @ [None])"
  by (simp add: command_array_def read_args_all)

lemma argv_of_all: "argv_of (map Some as @ [None]) = as"
  by (induction as) (simp_all add: argv_of_def)

text \<open>The program with an absolute path and its arguments, all of them passed.\<close>

lemma do_exec_absolute:
  fixes path as
  defines "args \<equiv> map Some ((CHR ''/'' # path) # as)"
  shows "do_exec os (int (length args)) args w = Inr (fork_run os (exec_child os (args @ [None])) w)"
  unfolding do_exec_def command_array_all by (simp add: first_char_def args_def)

lemma wait_status_reported:
  assumes "proc_ok os ends" "0 < pid"
  shows "wait_status os pid w = (fst (so_waitpid os w pid), Returned (reported os ends w pid))"
proof -
  obtain w' r status where w': "so_waitpid os w pid = (w', r, status)" by (metis prod.collapse)
  show ?thesis
  proof (cases "r = -1")
    case True
    with w' show ?thesis by (simp add: wait_status_def reported_def)
  next
    case False
    then obtain e where e: "ends w pid = Some e" "valid_ending e" "status = status_of e"
      using assms w' unfolding proc_ok_def by blast
    with w' False show ?thesis
      by (cases e) (simp_all add: wait_status_def reported_def exit_status_zero WIFEXITED_killed del: status_of.simps)
  qed
qed

text \<open>Both functions after the arguments have been read: \<open>fork\<close>, the child, and the wait for it.\<close>

lemma fork_run_reported:
  assumes "proc_ok os ends" "so_fork os w = (w1, pid)"
  shows "fork_run os child w =
    (if pid = -1 then (w1, Returned False, None)
     else case child w1 of (w2, c) \<Rightarrow>
       (fst (so_waitpid os (so_child os w2 pid c) pid),
        Returned (reported os ends (so_child os w2 pid c) pid), Some c))"
proof -
  have "pid = -1 \<or> 0 < pid" using assms unfolding proc_ok_def by (metis snd_conv)
  then show ?thesis using assms(2) wait_status_reported [OF assms(1)]
    by (auto simp: fork_run_def split: prod.splits)
qed

lemma exec_child_fate:
  fixes path as
  defines "args \<equiv> map Some (path # as)"
  assumes "proc_ok os ends"
  shows "exec_child os (args @ [None]) w =
    (case so_execv os w (Some path) (args @ [None]) of
       (w2, None) \<Rightarrow> (w2, Replaced path (path # as)) | (w2, Some r) \<Rightarrow> (w2, Returned False))"
proof -
  have "snd (so_execv os w (Some path) (args @ [None])) \<in> {None, Some (-1)}"
    using assms(2) by (simp add: proc_ok_def)
  moreover have "argv_of (args @ [None]) = path # as" unfolding args_def by (rule argv_of_all)
  ultimately show ?thesis
    by (auto simp: exec_child_def args_def split: prod.splits option.splits)
qed

text \<open>
  A system on which the properties are instantiated: \<open>/bin/grep\<close> exits with code 2, a signal kills
  \<open>/bin/crash\<close> with a core dump, \<open>/bin/echo\<close> exits with code 0, no other program exists. The world is the
  descriptor table and the ending of the child.
\<close>

definition demo_prog :: "bytes \<Rightarrow> ending" where
  "demo_prog path = (if path = ''/bin/grep'' then Exits 2 else if path = ''/bin/crash'' then Killed 11 True
                     else Exits 0)"

definition demo_proc_os :: "((int \<rightharpoonup> bytes) \<times> ending) proc_os" where
  "demo_proc_os =
     \<lparr>so_system = (\<lambda>w cmd. (w, sint (status_of (Exits 2)))), so_fork = (\<lambda>w. (w, 42)),
      so_execv = (\<lambda>w path argv.
        (w, if path \<in> {Some ''/bin/grep'', Some ''/bin/crash'', Some ''/bin/echo''} then None else Some (-1))),
      so_child = (\<lambda>(t, e) pid f. (t, case f of Replaced path argv \<Rightarrow> demo_prog path | Returned b \<Rightarrow> Exits 0)),
      so_waitpid = (\<lambda>(t, e) pid. if valid_ending e then ((t, e), pid, status_of e) else ((t, e), -1, 0)),
      so_open = (\<lambda>(t, e) f. if t 3 = None then ((t(3 \<mapsto> f), e), 3) else ((t, e), -1)),
      so_dup2 = (\<lambda>(t, e) a b. ((t(b := t a), e), b)),
      so_close = (\<lambda>(t, e) a. (t(a := None), e))\<rparr>"

definition demo_ends :: "(int \<rightharpoonup> bytes) \<times> ending \<Rightarrow> int \<Rightarrow> ending option" where
  "demo_ends w pid = (if valid_ending (snd w) then Some (snd w) else None)"

lemma demo_proc_ok: "proc_ok demo_proc_os demo_ends"
  by (auto simp: proc_ok_def demo_proc_os_def demo_ends_def simp del: status_of.simps split: if_splits)

lemma demo_fds_ok: "fds_ok demo_proc_os fst"
  by (auto simp: fds_ok_def demo_proc_os_def split: if_splits)

lemma redirect_fds:
  assumes "fds_ok os fdt" and "so_open os w outputfile = (w1, fd)" and "0 \<le> fd"
  shows "\<exists>w2. redirect_child os outputfile command w = exec_child os command w2 \<and>
    fdt w2 = (fdt w)(1 := if fd = 1 then None else Some outputfile)"
proof -
  have o: "fdt w fd = None" "fdt w1 = (fdt w)(fd \<mapsto> outputfile)"
    using assms unfolding fds_ok_def by blast+
  let ?w2 = "so_close os (fst (so_dup2 os w1 fd 1)) fd"
  have "fdt (fst (so_dup2 os w1 fd 1)) = (fdt w1)(1 := fdt w1 fd)"
    using assms(1) o(2) by (simp add: fds_ok_def)
  then have "fdt ?w2 = ((fdt w1)(1 := fdt w1 fd))(fd := None)" using assms(1) by (simp add: fds_ok_def)
  also have "\<dots> = (fdt w)(1 := if fd = 1 then None else Some outputfile)"
    using o by (auto simp: fun_eq_iff)
  finally show ?thesis using assms(2,3) by (auto simp: redirect_child_def)
qed

section \<open>Properties\<close>

text \<open>
  C30: \<open>do_exec\<close> for a command with an absolute path. If \<open>fork\<close> fails it reports failure and there is no
  child. Otherwise the child becomes exactly that program with exactly the given arguments, or, when
  \<open>execv\<close> fails, reports failure to its own caller; and the parent reports success exactly if \<open>waitpid\<close>
  succeeds and the child exited with a multiple of 256 or was killed by a signal. The last case is
  against the comment of the function, which promises true only for a successful execution.
\<close>

theorem do_exec_reports:
  fixes path as
  defines "args \<equiv> map Some ((CHR ''/'' # path) # as)"
  assumes "proc_ok os ends" and "so_fork os w = (w1, pid)"
  shows "if pid = -1 then do_exec os (int (length args)) args w = Inr (w1, Returned False, None)
    else \<exists>w2 x c. so_execv os w1 (Some (CHR ''/'' # path)) (args @ [None]) = (w2, x) \<and>
      c = (if x = None then Replaced (CHR ''/'' # path) ((CHR ''/'' # path) # as) else Returned False) \<and>
      do_exec os (int (length args)) args w =
        Inr (fst (so_waitpid os (so_child os w2 pid c) pid),
             Returned (reported os ends (so_child os w2 pid c) pid), Some c)"
  unfolding args_def do_exec_absolute fork_run_reported [OF assms(2,3)] exec_child_fate [OF assms(2)]
  by (auto split: prod.splits option.splits)

theorem do_exec_reports_witness:
  "do_exec demo_proc_os 2 [Some ''/bin/grep'', Some ''x''] (Map.empty, Exits 0) =
     Inr ((Map.empty, Exits 2), Returned False, Some (Replaced ''/bin/grep'' [''/bin/grep'', ''x''])) \<and>
   do_exec demo_proc_os 1 [Some ''/bin/crash''] (Map.empty, Exits 0) =
     Inr ((Map.empty, Killed 11 True), Returned True, Some (Replaced ''/bin/crash'' [''/bin/crash'']))"
  using do_exec_reports [where w = "(Map.empty, Exits 0)" and path = "''bin/grep''" and as = "[''x'']",
      OF demo_proc_ok]
    do_exec_reports [where w = "(Map.empty, Exits 0)" and path = "''bin/crash''" and as = "[]", OF demo_proc_ok]
  by (simp add: demo_proc_os_def demo_prog_def reported_def demo_ends_def)

text \<open>
  When \<open>execv\<close> fails, the function returns in two processes: the child does not exit but
  returns false to the caller too, and goes on with the caller's code.
\<close>

lemma failed_exec_returns_twice:
  fixes path as
  defines "args \<equiv> map Some ((CHR ''/'' # path) # as)"
  assumes "snd (so_fork os w) \<noteq> -1"
    and "\<And>w. snd (so_execv os w (Some (CHR ''/'' # path)) (args @ [None])) = Some (-1)"
  shows "\<exists>w' b. do_exec os (int (length args)) args w = Inr (w', Returned b, Some (Returned False))"
proof -
  obtain w1 pid where f: "so_fork os w = (w1, pid)" "pid \<noteq> -1"
    using assms(2) by (cases "so_fork os w") auto
  obtain w2 where e: "exec_child os (args @ [None]) w1 = (w2, Returned False)"
    using assms(3) [of w1]
    by (cases "so_execv os w1 (Some (CHR ''/'' # path)) (args @ [None])")
      (auto simp: exec_child_def args_def)
  have "\<exists>w' b. wait_status os pid w = (w', Returned b)" for w
    by (auto simp: wait_status_def split: prod.splits)
  then show ?thesis
    unfolding args_def do_exec_absolute fork_run_def using f e
    by (auto simp: args_def split: prod.splits) (metis prod.inject)
qed

lemma failed_exec_returns_twice_witness:
  "\<exists>w' b. do_exec demo_proc_os 1 [Some ''/nil''] (Map.empty, Exits 0) =
     Inr (w', Returned b, Some (Returned False))"
  using failed_exec_returns_twice [where os = demo_proc_os and w = "(Map.empty, Exits 0)"
      and path = "''nil''" and as = "[]"]
  by (simp add: demo_proc_os_def)

text \<open>
  \<open>do_system\<close> reports success however the command ends: whenever \<open>system\<close> returns the wait status
  of a command, whatever its exit code or the signal that killed it, the result is true.
\<close>

lemma do_system_ignores_status:
  assumes "so_system os w cmd = (w', sint (status_of e))"
  shows "do_system os cmd w = (w', True)"
  using assms status_not_minus_one [of e] by (simp add: do_system_def)

lemma do_system_ignores_status_witness:
  "do_system demo_proc_os (Some ''grep x'') (Map.empty, Exits 0) = ((Map.empty, Exits 0), True)"
  by (rule do_system_ignores_status [where e = "Exits 2"]) (simp add: demo_proc_os_def)

text \<open>
  C31: \<open>do_exec_redirect\<close> reports as \<open>do_exec\<close> does, also for a path that is not absolute. The child opens
  the file and reports failure to its own caller if that fails; otherwise \<open>execv\<close> is called in a process
  whose descriptors are those of the caller except that the standard output is the file and
  the descriptor that was opened is closed again; but if the standard output was closed before, so that
  the file itself is opened as descriptor 1, the program runs without a standard output.
\<close>

theorem do_exec_redirect_reports:
  fixes path as
  defines "args \<equiv> map Some (path # as)"
  assumes "proc_ok os ends" and "fds_ok os fdt" and "so_fork os w = (w1, pid)"
    and "so_open os w1 outputfile = (w2, fd)"
  shows "if pid = -1
    then do_exec_redirect os outputfile (int (length args)) args w = Inr (w1, Returned False, None)
    else \<exists>w4 c. (if fd < 0 then w4 = w2 \<and> c = Returned False
        else \<exists>w3 x. fdt w3 = (fdt w1)(1 := if fd = 1 then None else Some outputfile) \<and>
          so_execv os w3 (Some path) (args @ [None]) = (w4, x) \<and>
          c = (if x = None then Replaced path (path # as) else Returned False)) \<and>
      do_exec_redirect os outputfile (int (length args)) args w =
        Inr (fst (so_waitpid os (so_child os w4 pid c) pid),
             Returned (reported os ends (so_child os w4 pid c) pid), Some c)"
proof -
  obtain w4 c where child: "redirect_child os outputfile (args @ [None]) w1 = (w4, c)" by fastforce
  have run: "do_exec_redirect os outputfile (int (length args)) args w =
      Inr (fork_run os (redirect_child os outputfile (args @ [None])) w)"
    unfolding do_exec_redirect_def command_array_all by simp
  have fate: "if fd < 0 then w4 = w2 \<and> c = Returned False
      else \<exists>w3 x. fdt w3 = (fdt w1)(1 := if fd = 1 then None else Some outputfile) \<and>
        so_execv os w3 (Some path) (args @ [None]) = (w4, x) \<and>
        c = (if x = None then Replaced path (path # as) else Returned False)"
  proof (cases "fd < 0")
    case True
    then show ?thesis using child assms(5) by (simp add: redirect_child_def)
  next
    case False
    then obtain w3 where w3: "redirect_child os outputfile (args @ [None]) w1 = exec_child os (args @ [None]) w3"
      "fdt w3 = (fdt w1)(1 := if fd = 1 then None else Some outputfile)"
      using redirect_fds [OF assms(3,5)] by fastforce
    have "exec_child os (args @ [None]) w3 = (w4, c)" using child w3(1) by simp
    then have "\<exists>x. so_execv os w3 (Some path) (args @ [None]) = (w4, x) \<and>
        c = (if x = None then Replaced path (path # as) else Returned False)"
      unfolding args_def exec_child_fate [OF assms(2)] by (auto split: prod.splits option.splits)
    with w3(2) False show ?thesis by metis
  qed
  show ?thesis
  proof (cases "pid = -1")
    case True
    then show ?thesis unfolding run fork_run_reported [OF assms(2,4)] by simp
  next
    case False
    show ?thesis
      unfolding run fork_run_reported [OF assms(2,4)] child if_not_P [OF False] prod.case
      by (rule exI [of _ w4], rule exI [of _ c], rule conjI [OF fate HOL.refl])
  qed
qed

theorem do_exec_redirect_reports_witness:
  "do_exec_redirect demo_proc_os ''out'' 1 [Some ''/bin/grep''] ([1 \<mapsto> ''tty''], Exits 0) =
     Inr (([1 \<mapsto> ''out''], Exits 2), Returned False, Some (Replaced ''/bin/grep'' [''/bin/grep'']))"
proof -
  let ?w = "([1 \<mapsto> ''tty''], Exits 0) :: (int \<rightharpoonup> bytes) \<times> ending"
  let ?w2 = "([1 \<mapsto> ''tty'', 3 \<mapsto> ''out''], Exits 0) :: (int \<rightharpoonup> bytes) \<times> ending"
  have fork: "so_fork demo_proc_os ?w = (?w, 42)" and out: "so_open demo_proc_os ?w ''out'' = (?w2, 3)"
    by (simp_all add: demo_proc_os_def)
  from do_exec_redirect_reports [OF demo_proc_ok demo_fds_ok fork out, of "''/bin/grep''" "[]"]
  show ?thesis by (auto simp: demo_proc_os_def demo_prog_def reported_def demo_ends_def)
qed

end
