(* ===== verification/Threading.thy ===== *)
theory Threading
  imports Links
begin

text \<open>
  The threading exercise of \<open>examples/threading/threading.c\<close>: \<open>threadfunc\<close> and
  \<open>start_thread_obtaining_mutex\<close>. The blocks of type \<open>struct thread_data\<close> are a map from
  addresses; sleeping, the mutex and the start of a thread are the record \<open>thread_os\<close>, a parameter of
  the definitions. An \<open>int\<close> is a 32-bit word read signed; a product outside its range is
  undefined, and the argument of \<open>usleep\<close> is converted to an unsigned 32-bit number.
\<close>

section \<open>Data\<close>

record thread_data =
  wait_to_obtain_ms :: int
  wait_to_release_ms :: int
  pThread :: ptr
  pMutex :: ptr
  thread_complete_success :: bool

record 'w thread_os =
  to_usleep :: "'w \<Rightarrow> u32 \<Rightarrow> 'w \<times> int"
  to_lock :: "'w \<Rightarrow> ptr \<Rightarrow> ('w \<times> int) option"
  to_unlock :: "'w \<Rightarrow> ptr \<Rightarrow> 'w \<times> int"
  to_calloc :: "'w \<Rightarrow> addr set \<Rightarrow> 'w \<times> ptr"
  to_create :: "'w \<Rightarrow> ptr \<Rightarrow> addr \<Rightarrow> 'w \<times> int"

record 'w thread_state =
  t_world :: 'w
  tdata :: "addr \<rightharpoonup> thread_data"

text \<open>The product of an \<open>int\<close> and 1000, as the argument of \<open>usleep\<close>.\<close>

definition in_int :: "int \<Rightarrow> bool" where
  "in_int v \<longleftrightarrow> - (2 ^ 31) \<le> v \<and> v < 2 ^ 31"

definition usecs :: "int \<Rightarrow> u32 result" where
  "usecs ms = (if in_int (ms * 1000) then Inr (word_of_int (ms * 1000)) else Inl Undefined)"

section \<open>Operations\<close>

definition threadfunc ::
  "'w thread_os \<Rightarrow> ptr \<Rightarrow> 'w thread_state \<Rightarrow> (ptr \<times> 'w thread_state) run" where
  "threadfunc os thread_param s =
     obind (Some (deref (tdata s) thread_param)) (\<lambda>td.
     let p = the thread_param;
         s0 = s\<lparr>tdata := (tdata s)(p \<mapsto> td\<lparr>thread_complete_success := False\<rparr>)\<rparr> in
     obind (Some (usecs (wait_to_obtain_ms td))) (\<lambda>u.
     let (w1, r1) = to_usleep os (t_world s0) u;
         s1 = s0\<lparr>t_world := w1\<rparr>
     in if r1 \<noteq> 0 then Some (Inr (thread_param, s1))
     else (case to_lock os w1 (pMutex td) of
       None \<Rightarrow> None
     | Some (w2, r2) \<Rightarrow>
         let s2 = s1\<lparr>t_world := w2\<rparr>
         in if r2 \<noteq> 0 then Some (Inr (thread_param, s2))
         else obind (Some (usecs (wait_to_release_ms td))) (\<lambda>v.
         let (w3, r3) = to_usleep os w2 v;
             s3 = s2\<lparr>t_world := w3\<rparr>
         in if r3 \<noteq> 0 then Some (Inr (thread_param, s3))
         else
         let (w4, r4) = to_unlock os w3 (pMutex td);
             s4 = s3\<lparr>t_world := w4\<rparr>
         in if r4 \<noteq> 0 then Some (Inr (thread_param, s4))
         else Some (Inr (thread_param,
           s4\<lparr>tdata := (tdata s4)(p \<mapsto> td\<lparr>thread_complete_success := True\<rparr>)\<rparr>))))))"

definition start_thread_obtaining_mutex ::
  "'w thread_os \<Rightarrow> ptr \<Rightarrow> ptr \<Rightarrow> int \<Rightarrow> int \<Rightarrow> 'w thread_state \<Rightarrow> bool \<times> 'w thread_state" where
  "start_thread_obtaining_mutex os thread mutex obtain_ms release_ms s =
     (let (w1, q) = to_calloc os (t_world s) (dom (tdata s))
      in (case q of
            None \<Rightarrow> (False, s\<lparr>t_world := w1\<rparr>)
          | Some p \<Rightarrow>
              let td = \<lparr>wait_to_obtain_ms = obtain_ms, wait_to_release_ms = release_ms,
                        pThread = thread, pMutex = mutex, thread_complete_success = False\<rparr>;
                  s1 = s\<lparr>t_world := w1, tdata := (tdata s)(p \<mapsto> td)\<rparr>;
                  (w2, r) = to_create os w1 thread p
              in if r \<noteq> 0 then (False, s1\<lparr>t_world := w2, tdata := (tdata s1)(p := None)\<rparr>)
                 else (True, s1\<lparr>t_world := w2\<rparr>)))"

section \<open>Contracts\<close>

text \<open>
  \<open>held w m\<close> says that the calling thread holds the mutex \<open>m\<close>: locking and unlocking with
  result 0 acquire and release it, a failed call changes nothing and sleeping does not either.
\<close>

definition mutex_ok :: "'w thread_os \<Rightarrow> ('w \<Rightarrow> ptr \<Rightarrow> bool) \<Rightarrow> bool" where
  "mutex_ok os held \<longleftrightarrow>
     (\<forall>w u m. held (fst (to_usleep os w u)) m = held w m) \<and>
     (\<forall>w m w' r. to_lock os w m = Some (w', r) \<longrightarrow> held w' m = (r = 0 \<or> held w m)) \<and>
     (\<forall>w m. held (fst (to_unlock os w m)) m = (snd (to_unlock os w m) \<noteq> 0 \<and> held w m))"

definition calloc_ok :: "'w thread_os \<Rightarrow> bool" where
  "calloc_ok os \<longleftrightarrow> (\<forall>w U w' p. to_calloc os w U = (w', Some p) \<longrightarrow> p \<notin> U)"

text \<open>
  The history of a thread: \<open>log w\<close> lists its calls that succeeded until \<open>w\<close>, in their order. A call that
  succeeds is added, a call that fails adds nothing.
\<close>

datatype thread_call = Slept u32 | Locked ptr | Unlocked ptr

definition logs :: "'w thread_os \<Rightarrow> ('w \<Rightarrow> thread_call list) \<Rightarrow> bool" where
  "logs os log \<longleftrightarrow>
     (\<forall>w u. log (fst (to_usleep os w u)) = log w @ (if snd (to_usleep os w u) = 0 then [Slept u] else [])) \<and>
     (\<forall>w m w' r. to_lock os w m = Some (w', r) \<longrightarrow> log w' = log w @ (if r = 0 then [Locked m] else [])) \<and>
     (\<forall>w m. log (fst (to_unlock os w m)) = log w @ (if snd (to_unlock os w m) = 0 then [Unlocked m] else []))"

text \<open>The call \<open>c\<close> in the world \<open>w\<close> reports an error.\<close>

definition fails :: "'w thread_os \<Rightarrow> 'w \<Rightarrow> thread_call \<Rightarrow> 'w \<Rightarrow> bool" where
  "fails os w c w' \<longleftrightarrow>
     (case c of
        Slept u \<Rightarrow> (\<exists>r. to_usleep os w u = (w', r) \<and> r \<noteq> 0)
      | Locked m \<Rightarrow> (\<exists>r. to_lock os w m = Some (w', r) \<and> r \<noteq> 0)
      | Unlocked m \<Rightarrow> (\<exists>r. to_unlock os w m = (w', r) \<and> r \<noteq> 0))"

text \<open>The sleeping times in a history, and the time for a number of milliseconds.\<close>

definition slept :: "thread_call list \<Rightarrow> int list" where
  "slept cs = concat (map (\<lambda>c. case c of Slept u \<Rightarrow> [uint u] | _ \<Rightarrow> []) cs)"

definition micros :: "int \<Rightarrow> int" where
  "micros ms = (if 0 \<le> ms then ms * 1000 else 2 ^ 32 + ms * 1000)"

text \<open>The fields that only the starter sets.\<close>

definition same_request :: "thread_data \<Rightarrow> thread_data \<Rightarrow> bool" where
  "same_request td td' \<longleftrightarrow>
     td' = td\<lparr>thread_complete_success := thread_complete_success td'\<rparr>"

section \<open>Lemmas\<close>

lemma usecs_ok: "- 2147483 \<le> ms \<Longrightarrow> ms \<le> 2147483 \<Longrightarrow> usecs ms = Inr (word_of_int (ms * 1000))"
  by (simp add: usecs_def in_int_def)

lemma uint_usecs:
  assumes "- 2147483 \<le> ms" "ms \<le> 2147483"
  shows "map_sum id uint (usecs ms) = Inr (ms * 1000 mod 2 ^ 32)"
proof -
  have "uint (word_of_int k :: u32) = k mod 2 ^ 32" for k by (simp add: uint_word_of_int)
  then show ?thesis unfolding usecs_ok [OF assms] map_sum.simps by blast
qed

lemma usecs_undefined: "ms < - 2147483 \<or> 2147483 < ms \<Longrightarrow> usecs ms = Inl Undefined"
  by (auto simp: usecs_def in_int_def)

lemma mutex_usleep: "mutex_ok os held \<Longrightarrow> to_usleep os w u = (w', r) \<Longrightarrow> held w' m = held w m"
  unfolding mutex_ok_def by (metis fst_conv)

lemma mutex_unlock:
  "mutex_ok os held \<Longrightarrow> to_unlock os w m = (w', r) \<Longrightarrow> held w' m = (r \<noteq> 0 \<and> held w m)"
  unfolding mutex_ok_def by (metis fst_conv snd_conv)

lemma mutex_lock:
  "mutex_ok os held \<Longrightarrow> to_lock os w m = Some (w', r) \<Longrightarrow> held w' m = (r = 0 \<or> held w m)"
  unfolding mutex_ok_def by blast

lemma threadfunc_cases:
  assumes td: "tdata s p = Some td"
    and ms: "\<bar>wait_to_obtain_ms td\<bar> \<le> 2147483" "\<bar>wait_to_release_ms td\<bar> \<le> 2147483"
    and u1: "to_usleep os (t_world s) (word_of_int (wait_to_obtain_ms td * 1000)) = (w1, r1)"
    and l: "to_lock os w1 (pMutex td) = Some (w2, r2)"
    and u2: "to_usleep os w2 (word_of_int (wait_to_release_ms td * 1000)) = (w3, r3)"
    and ul: "to_unlock os w3 (pMutex td) = (w4, r4)"
  shows "threadfunc os (Some p) s = Some (Inr (Some p,
    s\<lparr>t_world := if r1 \<noteq> 0 then w1 else if r2 \<noteq> 0 then w2 else if r3 \<noteq> 0 then w3 else w4,
      tdata := (tdata s)(p \<mapsto> td\<lparr>thread_complete_success := r1 = 0 \<and> r2 = 0 \<and> r3 = 0 \<and> r4 = 0\<rparr>)\<rparr>))"
  using assms usecs_ok [of "wait_to_obtain_ms td"] usecs_ok [of "wait_to_release_ms td"]
  by (auto simp: threadfunc_def Let_def)

lemma logs_usleep:
  "logs os log \<Longrightarrow> to_usleep os w u = (w', r) \<Longrightarrow> log w' = log w @ (if r = 0 then [Slept u] else [])"
  unfolding logs_def by (metis fst_conv snd_conv)

lemma logs_unlock:
  "logs os log \<Longrightarrow> to_unlock os w m = (w', r) \<Longrightarrow> log w' = log w @ (if r = 0 then [Unlocked m] else [])"
  unfolding logs_def by (metis fst_conv snd_conv)

lemma logs_lock:
  "logs os log \<Longrightarrow> to_lock os w m = Some (w', r) \<Longrightarrow> log w' = log w @ (if r = 0 then [Locked m] else [])"
  unfolding logs_def by blast

lemma threadfunc_calls:
  assumes log: "logs os log" and td: "tdata s p = Some td"
    and ms: "\<bar>wait_to_obtain_ms td\<bar> \<le> 2147483" "\<bar>wait_to_release_ms td\<bar> \<le> 2147483"
    and calls: "calls = [Slept (word_of_int (wait_to_obtain_ms td * 1000)), Locked (pMutex td),
                  Slept (word_of_int (wait_to_release_ms td * 1000)), Unlocked (pMutex td)]"
  shows "(threadfunc os (Some p) s = None \<and>
      (\<exists>w. log w = log (t_world s) @ take 1 calls \<and> to_lock os w (pMutex td) = None)) \<or>
    (\<exists>s' td' n. threadfunc os (Some p) s = Some (Inr (Some p, s')) \<and>
      tdata s' = (tdata s)(p \<mapsto> td') \<and> same_request td td' \<and>
      n \<le> 4 \<and> log (t_world s') = log (t_world s) @ take n calls \<and>
      (thread_complete_success td' \<longleftrightarrow> n = 4) \<and>
      (n < 4 \<longrightarrow> (\<exists>w. log w = log (t_world s) @ take n calls \<and> fails os w (calls ! n) (t_world s'))))"
    (is "?blocked \<or> (\<exists>s' td' n. ?ends s' td' n)")
proof -
  define u v m where "u = (word_of_int (wait_to_obtain_ms td * 1000) :: u32)"
    and "v = (word_of_int (wait_to_release_ms td * 1000) :: u32)" and "m = pMutex td"
  have usecs: "usecs (wait_to_obtain_ms td) = Inr u" "usecs (wait_to_release_ms td) = Inr v"
    using ms usecs_ok by (simp_all add: u_def v_def)
  have c: "calls = [Slept u, Locked m, Slept v, Unlocked m]" by (simp add: calls u_def v_def m_def)
  have failed: "\<exists>s' td' n. ?ends s' td' n"
    if "threadfunc os (Some p) s = Some (Inr (Some p, s\<lparr>t_world := w',
          tdata := (tdata s)(p \<mapsto> td\<lparr>thread_complete_success := False\<rparr>)\<rparr>))"
      "n < 4" "log w = log (t_world s) @ take n calls" "fails os w (calls ! n) w'" "log w' = log w" for w w' n
    by (rule exI, rule exI, rule exI [of _ n]) (use that in \<open>auto simp: same_request_def\<close>)
  obtain w1 r1 where 1: "to_usleep os (t_world s) u = (w1, r1)" by fastforce
  note l1 = logs_usleep [OF log 1]
  show ?thesis
  proof (cases "r1 = 0")
    case False
    then show ?thesis using failed [of w1 0 "t_world s"] 1 l1 td usecs
      by (simp add: threadfunc_def deref_def c fails_def Let_def)
  next
    case r1: True
    show ?thesis
    proof (cases "to_lock os w1 m")
      case None
      then show ?thesis using 1 l1 r1 td usecs by (auto simp: threadfunc_def deref_def c m_def Let_def)
    next
      case (Some x)
      then obtain w2 r2 where 2: "to_lock os w1 m = Some (w2, r2)" by (cases x) simp
      note l2 = logs_lock [OF log 2]
      obtain w3 r3 where 3: "to_usleep os w2 v = (w3, r3)" by fastforce
      note l3 = logs_usleep [OF log 3]
      obtain w4 r4 where 4: "to_unlock os w3 m = (w4, r4)" by fastforce
      note l4 = logs_unlock [OF log 4]
      note run = threadfunc_def deref_def m_def [symmetric] Let_def
      consider "r2 \<noteq> 0" | "r2 = 0" "r3 \<noteq> 0" | "r2 = 0" "r3 = 0" "r4 \<noteq> 0" | "r2 = 0" "r3 = 0" "r4 = 0" by blast
      then show ?thesis
      proof cases
        case 1
        then show ?thesis using failed [of w2 1 w1] \<open>to_usleep os (t_world s) u = (w1, r1)\<close> 2 l1 l2 r1 td usecs
          by (simp add: run c fails_def)
      next
        case 2
        then show ?thesis using failed [of w3 2 w2] \<open>to_usleep os (t_world s) u = (w1, r1)\<close>
            \<open>to_lock os w1 m = Some (w2, r2)\<close> 3 l1 l2 l3 r1 td usecs
          by (simp add: run c fails_def numeral_eq_Suc)
      next
        case 3
        then show ?thesis using failed [of w4 3 w3] \<open>to_usleep os (t_world s) u = (w1, r1)\<close>
            \<open>to_lock os w1 m = Some (w2, r2)\<close> \<open>to_usleep os w2 v = (w3, r3)\<close> 4 l1 l2 l3 l4 r1 td usecs
          by (simp add: run c fails_def numeral_eq_Suc)
      next
        case 4
        then have "threadfunc os (Some p) s = Some (Inr (Some p, s\<lparr>t_world := w4,
            tdata := (tdata s)(p \<mapsto> td\<lparr>thread_complete_success := True\<rparr>)\<rparr>))"
          using \<open>to_usleep os (t_world s) u = (w1, r1)\<close> \<open>to_lock os w1 m = Some (w2, r2)\<close>
            \<open>to_usleep os w2 v = (w3, r3)\<close> \<open>to_unlock os w3 m = (w4, r4)\<close> r1 td usecs
          by (simp add: run)
        moreover have "log w4 = log (t_world s) @ calls" using 4 l1 l2 l3 l4 r1 by (simp add: c)
        ultimately have "?ends (s\<lparr>t_world := w4, tdata := (tdata s)(p \<mapsto> td\<lparr>thread_complete_success := True\<rparr>)\<rparr>)
            (td\<lparr>thread_complete_success := True\<rparr>) 4"
          by (simp add: same_request_def c)
        then show ?thesis by blast
      qed
    qed
  qed
qed

lemma uint_micros: "\<bar>ms\<bar> \<le> 2147483 \<Longrightarrow> uint (word_of_int (ms * 1000) :: u32) = micros ms"
proof -
  assume ms: "\<bar>ms\<bar> \<le> 2147483"
  have "(ms * 1000) mod 2 ^ 32 = (ms * 1000 + 2 ^ 32) mod 2 ^ 32" by (rule mod_add_self2 [symmetric])
  also have "\<dots> = ms * 1000 + 2 ^ 32" if "ms < 0" using ms that by (intro mod_pos_pos_trivial) simp_all
  finally have neg: "ms < 0 \<Longrightarrow> (ms * 1000) mod 2 ^ 32 = ms * 1000 + 2 ^ 32" .
  have "uint (word_of_int k :: u32) = k mod 2 ^ 32" for k by (simp add: uint_word_of_int)
  then have "uint (word_of_int (ms * 1000) :: u32) = (ms * 1000) mod 2 ^ 32" .
  also have "\<dots> = micros ms" using ms neg by (cases "0 \<le> ms") (simp_all add: micros_def)
  finally show ?thesis .
qed

lemma threadfunc_sleep_bounds:
  assumes log: "logs os log" and td: "tdata s p = Some td"
    and ms: "ob = wait_to_obtain_ms td" "rel = wait_to_release_ms td"
  shows "(\<bar>ob\<bar> > 2147483 \<longrightarrow> threadfunc os (Some p) s = Some (Inl Undefined)) \<and>
    (\<forall>q s'. threadfunc os (Some p) s = Some (Inr (q, s')) \<longrightarrow>
       (\<exists>n evs. log (t_world s') = log (t_world s) @ evs \<and> slept evs = take n [micros ob, micros rel] \<and>
          (map_option thread_complete_success (tdata s' p) = Some True \<longrightarrow>
             n = 2 \<and> \<bar>ob\<bar> \<le> 2147483 \<and> \<bar>rel\<bar> \<le> 2147483)))"
proof (intro conjI impI allI)
  assume "\<bar>ob\<bar> > 2147483"
  then have "usecs ob = Inl Undefined" by (intro usecs_undefined) linarith
  then show "threadfunc os (Some p) s = Some (Inl Undefined)"
    using td by (simp add: threadfunc_def deref_def ms)
next
  fix q s'
  assume run: "threadfunc os (Some p) s = Some (Inr (q, s'))"
  have o: "\<bar>ob\<bar> \<le> 2147483"
  proof (rule ccontr)
    assume "\<not> \<bar>ob\<bar> \<le> 2147483"
    then have "usecs ob = Inl Undefined" by (intro usecs_undefined) linarith
    then show False using run td by (simp add: threadfunc_def deref_def ms)
  qed
  define u where "u = (word_of_int (ob * 1000) :: u32)"
  have us: "uint u = micros ob" "usecs ob = Inr u"
    using uint_micros [OF o] usecs_ok [of ob] o by (simp_all add: u_def)
  show "\<exists>n evs. log (t_world s') = log (t_world s) @ evs \<and> slept evs = take n [micros ob, micros rel] \<and>
      (map_option thread_complete_success (tdata s' p) = Some True \<longrightarrow>
         n = 2 \<and> \<bar>ob\<bar> \<le> 2147483 \<and> \<bar>rel\<bar> \<le> 2147483)"
  proof (cases "\<bar>rel\<bar> \<le> 2147483")
    case True
    let ?calls = "[Slept u, Locked (pMutex td), Slept (word_of_int (rel * 1000)), Unlocked (pMutex td)]"
    obtain n where n: "n \<le> 4" "log (t_world s') = log (t_world s) @ take n ?calls"
      "map_option thread_complete_success (tdata s' p) = Some True \<longrightarrow> n = 4"
      using threadfunc_calls [OF log td, of ?calls] run o True by (auto simp: ms u_def)
    have "slept (take n ?calls) = take (if n = 0 then 0 else if n < 3 then 1 else 2) [micros ob, micros rel]"
      using n(1) us(1) uint_micros [OF True] by (auto simp: slept_def le_Suc_eq numeral_eq_Suc)
    with n o True show ?thesis
      by (intro exI [of _ "if n = 0 then 0 else if n < 3 then 1 else 2"] exI [of _ "take n ?calls"]) auto
  next
    case False
    then have undef: "usecs rel = Inl Undefined" by (intro usecs_undefined) linarith
    obtain w1 r1 where 1: "to_usleep os (t_world s) u = (w1, r1)" by fastforce
    note l1 = logs_usleep [OF log 1]
    show ?thesis
    proof (cases "r1 = 0")
      case True
      obtain w2 r2 where 2: "to_lock os w1 (pMutex td) = Some (w2, r2)" "r2 \<noteq> 0" "t_world s' = w2"
        "tdata s' = (tdata s)(p \<mapsto> td\<lparr>thread_complete_success := False\<rparr>)"
        using run td us undef 1 True
        by (auto simp: threadfunc_def deref_def ms Let_def split: option.splits if_splits)
      then show ?thesis using logs_lock [OF log 2(1)] l1 True us(1)
        by (intro exI [of _ 1] exI [of _ "[Slept u]"]) (simp add: slept_def)
    next
      case False
      then show ?thesis using run td us 1 l1
        by (intro exI [of _ 0] exI [of _ "[]"]) (auto simp: threadfunc_def deref_def ms slept_def Let_def)
    qed
  qed
qed

section \<open>Properties\<close>

text \<open>
  An instance: the world is whether the mutex is held; the second sleep of a thread, the one made
  while it holds the mutex, is interrupted when it is longer than a second.
\<close>

definition demo_thread_os :: "bool thread_os" where
  "demo_thread_os =
     \<lparr>to_usleep = (\<lambda>w u. (w, if w \<and> 1000000 < u then -1 else 0)), to_lock = (\<lambda>w m. Some (True, 0)),
      to_unlock = (\<lambda>w m. (False, 0)),
      to_calloc = (\<lambda>w U. (w, if finite U then Some (Suc (Max (insert 0 U))) else None)),
      to_create = (\<lambda>w t p. (w, 0))\<rparr>"

definition demo_request :: "int \<Rightarrow> thread_data" where
  "demo_request ms = \<lparr>wait_to_obtain_ms = 5, wait_to_release_ms = ms, pThread = Some 1,
     pMutex = Some 2, thread_complete_success = True\<rparr>"

text \<open>Another one: the world is the history, and sleeping for more than a second is an error.\<close>

definition log_thread_os :: "thread_call list thread_os" where
  "log_thread_os =
     \<lparr>to_usleep = (\<lambda>w u. if u \<le> 1000000 then (w @ [Slept u], 0) else (w, -1)),
      to_lock = (\<lambda>w m. Some (w @ [Locked m], 0)), to_unlock = (\<lambda>w m. (w @ [Unlocked m], 0)),
      to_calloc = (\<lambda>w U. (w, None)), to_create = (\<lambda>w t p. (w, -1))\<rparr>"

lemma log_thread_logs: "logs log_thread_os (\<lambda>w. w)"
  by (simp add: logs_def log_thread_os_def)

lemma demo_mutex_ok: "mutex_ok demo_thread_os (\<lambda>w m. w)"
  by (simp add: mutex_ok_def demo_thread_os_def)

text \<open>
  C33: A started thread makes four calls in this order: it sleeps for the first waiting time, takes the
  mutex, sleeps for the second one while it holds the mutex, and releases the mutex; it makes each of
  them only if the one before succeeded. It reports success exactly if all four succeeded, returns
  its argument, and changes nothing in its data but the flag of success; it does not return exactly
  if the mutex is never given to it. (For waiting times that an \<open>int\<close> of microseconds can hold.)
\<close>

theorem threadfunc_outcome:
  assumes "logs os log" and "tdata s p = Some td"
    and "\<bar>wait_to_obtain_ms td\<bar> \<le> 2147483" and "\<bar>wait_to_release_ms td\<bar> \<le> 2147483"
    and "calls = [Slept (word_of_int (wait_to_obtain_ms td * 1000)), Locked (pMutex td),
                  Slept (word_of_int (wait_to_release_ms td * 1000)), Unlocked (pMutex td)]"
  shows "(threadfunc os (Some p) s = None \<and>
      (\<exists>w. log w = log (t_world s) @ take 1 calls \<and> to_lock os w (pMutex td) = None)) \<or>
    (\<exists>s' td' n. threadfunc os (Some p) s = Some (Inr (Some p, s')) \<and>
      tdata s' = (tdata s)(p \<mapsto> td') \<and> same_request td td' \<and>
      n \<le> 4 \<and> log (t_world s') = log (t_world s) @ take n calls \<and>
      (thread_complete_success td' \<longleftrightarrow> n = 4) \<and>
      (n < 4 \<longrightarrow> (\<exists>w. log w = log (t_world s) @ take n calls \<and> fails os w (calls ! n) (t_world s'))))"
  by (rule threadfunc_calls [OF assms])

theorem threadfunc_outcome_witness:
  "\<exists>s' td'. threadfunc log_thread_os (Some 7)
       \<lparr>t_world = [], tdata = [7 \<mapsto> demo_request 10]\<rparr> = Some (Inr (Some 7, s')) \<and>
     tdata s' = [7 \<mapsto> td'] \<and> thread_complete_success td' \<and>
     t_world s' = [Slept 5000, Locked (Some 2), Slept 10000, Unlocked (Some 2)]"
proof -
  let ?calls = "[Slept 5000, Locked (Some 2), Slept 10000, Unlocked (Some 2)]"
  define td where "td = demo_request 10"
  let ?s = "\<lparr>t_world = [], tdata = [7 \<mapsto> td]\<rparr>"
  have td: "wait_to_obtain_ms td = 5" "wait_to_release_ms td = 10" "pMutex td = Some 2"
    by (simp_all add: td_def demo_request_def)
  have ok: "\<not> fails log_thread_os w (?calls ! n) w'" if "n < 4" for n w w'
  proof -
    have "n = 0 \<or> n = 1 \<or> n = 2 \<or> n = 3" using that by auto
    then show ?thesis by (elim disjE) (simp_all add: fails_def log_thread_os_def)
  qed
  have lock: "to_lock log_thread_os w m \<noteq> None" for w m by (simp add: log_thread_os_def)
  obtain s' td' n where run: "threadfunc log_thread_os (Some 7) ?s = Some (Inr (Some 7, s'))"
    "tdata s' = [7 \<mapsto> td']" "t_world s' = take n ?calls" "n \<le> 4"
    "thread_complete_success td' \<longleftrightarrow> n = 4" "n < 4 \<longrightarrow> fails log_thread_os (take n ?calls) (?calls ! n) (t_world s')"
    using threadfunc_outcome [OF log_thread_logs, of ?s 7 td ?calls] lock by (auto simp: td)
  with ok have "n = 4" by (metis le_neq_implies_less)
  with run show ?thesis by (intro exI [of _ s'] exI [of _ td']) (simp add: td_def)
qed

text \<open>
  If the sleep while the mutex is held is interrupted, the thread returns without success and
  still holds the mutex.
\<close>

lemma interrupted_sleep_keeps_mutex:
  assumes "mutex_ok os held" and "tdata s p = Some td"
    and "\<bar>wait_to_obtain_ms td\<bar> \<le> 2147483" and "\<bar>wait_to_release_ms td\<bar> \<le> 2147483"
    and "to_usleep os (t_world s) (word_of_int (wait_to_obtain_ms td * 1000)) = (w1, 0)"
    and "to_lock os w1 (pMutex td) = Some (w2, 0)"
    and "to_usleep os w2 (word_of_int (wait_to_release_ms td * 1000)) = (w3, -1)"
  shows "\<exists>s'. threadfunc os (Some p) s = Some (Inr (Some p, s')) \<and>
    tdata s' = (tdata s)(p \<mapsto> td\<lparr>thread_complete_success := False\<rparr>) \<and> held (t_world s') (pMutex td)"
proof -
  obtain w4 r4 where ul: "to_unlock os w3 (pMutex td) = (w4, r4)" by fastforce
  have "held w3 (pMutex td)"
    using mutex_usleep [OF assms(1,7)] mutex_lock [OF assms(1,6)] by simp
  then show ?thesis using threadfunc_cases [OF assms(2-7) ul] by simp
qed

lemma interrupted_sleep_keeps_mutex_witness:
  "\<exists>s'. threadfunc demo_thread_os (Some 7)
       \<lparr>t_world = False, tdata = [7 \<mapsto> demo_request 2000]\<rparr> = Some (Inr (Some 7, s')) \<and> t_world s'"
  using interrupted_sleep_keeps_mutex [OF demo_mutex_ok,
      of "\<lparr>t_world = False, tdata = [7 \<mapsto> demo_request 2000]\<rparr>" 7 "demo_request 2000" False True True]
  by (auto simp: demo_request_def demo_thread_os_def)

text \<open>
  C34: The bounds of the waiting times. A first waiting time of more than 2147483 milliseconds, or less than
  their negative, overflows an \<open>int\<close>, and the thread's behaviour is undefined. A thread that returns has
  slept, in this order, for the two times it was given or for fewer: for each millisecond exactly 1000
  microseconds, for a negative time the rest of \<open>2 ^ 32\<close> microseconds; if it
  reports success it has slept for both, and both were in the bounds.
\<close>

theorem threadfunc_sleeps:
  assumes "logs os log" and "tdata s p = Some td"
    and "ob = wait_to_obtain_ms td" and "rel = wait_to_release_ms td"
  shows "(\<bar>ob\<bar> > 2147483 \<longrightarrow> threadfunc os (Some p) s = Some (Inl Undefined)) \<and>
    (\<forall>q s'. threadfunc os (Some p) s = Some (Inr (q, s')) \<longrightarrow>
       (\<exists>n evs. log (t_world s') = log (t_world s) @ evs \<and> slept evs = take n [micros ob, micros rel] \<and>
          (map_option thread_complete_success (tdata s' p) = Some True \<longrightarrow>
             n = 2 \<and> \<bar>ob\<bar> \<le> 2147483 \<and> \<bar>rel\<bar> \<le> 2147483)))"
  by (rule threadfunc_sleep_bounds [OF assms])

theorem threadfunc_sleeps_witness:
  "threadfunc log_thread_os (Some 7) \<lparr>t_world = [], tdata = [7 \<mapsto> (demo_request 10)\<lparr>wait_to_obtain_ms := 2147484\<rparr>]\<rparr>
     = Some (Inl Undefined) \<and>
   (\<exists>q s' n evs. threadfunc log_thread_os (Some 7) \<lparr>t_world = [], tdata = [7 \<mapsto> demo_request (-1)]\<rparr> = Some (Inr (q, s')) \<and>
     t_world s' = evs \<and> slept evs = take n [5000, 4294966296])"
proof
  let ?td = "(demo_request 10)\<lparr>wait_to_obtain_ms := 2147484\<rparr>"
  show "threadfunc log_thread_os (Some 7) \<lparr>t_world = [], tdata = [7 \<mapsto> ?td]\<rparr> = Some (Inl Undefined)"
    using threadfunc_sleeps [OF log_thread_logs, of "\<lparr>t_world = [], tdata = [7 \<mapsto> ?td]\<rparr>" 7 ?td,
        OF _ HOL.refl HOL.refl] by simp
  let ?s = "\<lparr>t_world = [], tdata = [7 \<mapsto> demo_request (-1)]\<rparr>"
  obtain q s' where run: "threadfunc log_thread_os (Some 7) ?s = Some (Inr (q, s'))"
    by (auto simp: threadfunc_def log_thread_os_def demo_request_def deref_def usecs_def in_int_def Let_def)
  with threadfunc_sleeps [OF log_thread_logs, of ?s 7 "demo_request (-1)", OF _ HOL.refl HOL.refl]
  show "\<exists>q s' n evs. threadfunc log_thread_os (Some 7) ?s = Some (Inr (q, s')) \<and>
     t_world s' = evs \<and> slept evs = take n [5000, 4294966296]"
    by (auto simp: demo_request_def micros_def)
qed

text \<open>
  Starting a thread either succeeds and leaves exactly one new block of thread data, which holds
  the requested times, thread handle and mutex, or reports failure and leaves no block behind.
\<close>

lemma start_thread_outcome:
  assumes "calloc_ok os"
    and "start_thread_obtaining_mutex os thread mutex obtain_ms release_ms s = (ok, s')"
  shows "if ok then \<exists>p. p \<notin> dom (tdata s) \<and> tdata s' = (tdata s)(p \<mapsto>
             \<lparr>wait_to_obtain_ms = obtain_ms, wait_to_release_ms = release_ms, pThread = thread,
              pMutex = mutex, thread_complete_success = False\<rparr>)
         else tdata s' = tdata s"
proof -
  have fresh: "(tdata s)(p := None) = tdata s \<and> p \<notin> dom (tdata s)"
    if "to_calloc os (t_world s) (dom (tdata s)) = (w, Some p)" for w p
    using assms(1) that by (auto simp: calloc_ok_def fun_upd_idem)
  show ?thesis
    using assms(2) by (auto simp: start_thread_obtaining_mutex_def Let_def dest!: fresh
        split: prod.splits option.splits if_splits)
qed

lemma start_thread_outcome_witness:
  "\<exists>p. p \<notin> {} \<and> tdata (snd (start_thread_obtaining_mutex demo_thread_os (Some 1) (Some 2) 5 6
      \<lparr>t_world = False, tdata = Map.empty\<rparr>)) = [p \<mapsto>
        \<lparr>wait_to_obtain_ms = 5, wait_to_release_ms = 6, pThread = Some 1, pMutex = Some 2,
         thread_complete_success = False\<rparr>]"
proof -
  have "calloc_ok demo_thread_os"
  proof -
    have "Suc (Max (insert 0 U)) \<notin> U" if "finite U" for U
      using that Max_ge [of "insert 0 U" "Suc (Max (insert 0 U))"] by (metis finite_insert insertCI not_less_eq_eq order_refl)
    then show ?thesis by (auto simp: calloc_ok_def demo_thread_os_def)
  qed
  from start_thread_outcome [OF this, of "Some 1" "Some 2" 5 6 "\<lparr>t_world = False, tdata = Map.empty\<rparr>" True]
  show ?thesis by (simp add: start_thread_obtaining_mutex_def demo_thread_os_def)
qed

end
