(* ===== verification/Writer.thy ===== *)
theory Writer
  imports Prelude
begin

text \<open>
  The file writer \<open>finder-app/writer.c\<close>. The standard input/output functions are the
  record \<open>stdio\<close>, a parameter of the definitions; log messages are not modelled.
\<close>

section \<open>The program\<close>

record 'w stdio =
  io_fopen :: "'w \<Rightarrow> bytes \<Rightarrow> bytes \<Rightarrow> 'w \<times> ptr"
  io_fputs :: "'w \<Rightarrow> bytes \<Rightarrow> addr \<Rightarrow> 'w \<times> int"
  io_fclose :: "'w \<Rightarrow> addr \<Rightarrow> 'w \<times> int"

definition writer_main :: "'w stdio \<Rightarrow> bytes list \<Rightarrow> 'w \<Rightarrow> 'w \<times> int" where
  "writer_main io argv w =
     (if length argv \<noteq> 3 then (w, 1)
      else
        let writeFile = argv ! 1;
            writeStr = argv ! 2;
            (w1, f) = io_fopen io w writeFile ''w''
        in (case f of
              None \<Rightarrow> (w1, 1)
            | Some strm \<Rightarrow>
                let (w2, _) = io_fputs io w1 writeStr strm;
                    (w3, _) = io_fclose io w2 strm
                in (w3, 0)))"

section \<open>Contracts\<close>

text \<open>
  What the manuals promise. \<open>files w\<close> is the file system and \<open>pending w\<close> the open streams with the
  path and the bytes not yet written: opening for writing truncates the file, \<open>fputs\<close> that returns a
  non-negative number appends to the stream's bytes, \<open>fclose\<close> that returns 0 writes them out.
\<close>

definition stdio_ok ::
  "'w stdio \<Rightarrow> ('w \<Rightarrow> bytes \<rightharpoonup> bytes) \<Rightarrow> ('w \<Rightarrow> addr \<rightharpoonup> bytes \<times> bytes) \<Rightarrow> bool" where
  "stdio_ok io files pending \<longleftrightarrow>
     (\<forall>w path w' s. io_fopen io w path ''w'' = (w', Some s) \<longrightarrow>
        files w' = (files w)(path \<mapsto> []) \<and> pending w' s = Some (path, [])) \<and>
     (\<forall>w s str w' r path buf. io_fputs io w str s = (w', r) \<longrightarrow> 0 \<le> r \<longrightarrow>
        pending w s = Some (path, buf) \<longrightarrow>
        files w' = files w \<and> pending w' s = Some (path, buf @ str)) \<and>
     (\<forall>w s w' path buf old. io_fclose io w s = (w', 0) \<longrightarrow> pending w s = Some (path, buf) \<longrightarrow>
        files w path = Some old \<longrightarrow> files w' = (files w)(path \<mapsto> old @ buf))"

text \<open>
  An instance: one stream, and a disk that refuses contents of more than five bytes when the
  stream is closed.
\<close>

type_synonym disk = "(bytes \<rightharpoonup> bytes) \<times> (bytes \<times> bytes) option"

definition small_disk :: "disk stdio" where
  "small_disk =
     \<lparr>io_fopen = (\<lambda>(fs, st) path mode. ((fs(path \<mapsto> []), Some (path, [])), Some 1)),
      io_fputs = (\<lambda>(fs, st) str s.
        ((fs, map_option (\<lambda>(path, buf). (path, buf @ str)) st), int (length str))),
      io_fclose = (\<lambda>(fs, st) s.
        (case st of None \<Rightarrow> ((fs, st), -1)
         | Some (path, buf) \<Rightarrow>
             if 5 < length buf then ((fs, None), -1)
             else ((fs(path := map_option (\<lambda>old. old @ buf) (fs path)), None), 0)))\<rparr>"

definition small_disk_pending :: "disk \<Rightarrow> addr \<rightharpoonup> bytes \<times> bytes" where
  "small_disk_pending d = (\<lambda>s. snd d)"

lemma small_disk_ok: "stdio_ok small_disk fst small_disk_pending"
  by (auto simp: stdio_ok_def small_disk_def small_disk_pending_def split: option.splits if_splits)

section \<open>Properties\<close>

text \<open>
  C35: Called with a path and a text, the writer leaves a file at the path that holds exactly the text,
  whatever it held before, changes no other file and exits with status 0, provided that the file
  can be opened and the calls that write report no error.
\<close>

theorem writer_writes:
  assumes "stdio_ok io files pending"
    and "io_fopen io w path ''w'' = (w1, Some s)" and "io_fputs io w1 str s = (w2, r)" and "0 \<le> r"
    and "io_fclose io w2 s = (w3, 0)"
  shows "writer_main io [prog, path, str] w = (w3, 0) \<and> files w3 = (files w)(path \<mapsto> str)"
proof
  have o: "files w1 = (files w)(path \<mapsto> [])" "pending w1 s = Some (path, [])"
    using assms(1,2) unfolding stdio_ok_def by blast+
  have p: "files w2 = files w1" "pending w2 s = Some (path, [] @ str)"
    using assms(1,3,4) o(2) unfolding stdio_ok_def by blast+
  have "files w2 path = Some []" using o p by simp
  then have "files w3 = (files w2)(path \<mapsto> [] @ [] @ str)"
    using assms(1,5) p(2) unfolding stdio_ok_def by blast
  then show "files w3 = (files w)(path \<mapsto> str)" using o p by simp
  show "writer_main io [prog, path, str] w = (w3, 0)"
    using assms(2,3,5) by (simp add: writer_main_def numeral_2_eq_2)
qed

theorem writer_writes_witness:
  "writer_main small_disk [''writer'', ''f'', ''text''] ([''f'' \<mapsto> ''old'', ''g'' \<mapsto> ''x''], None) =
     (([''f'' \<mapsto> ''text'', ''g'' \<mapsto> ''x''], None), 0)"
  using writer_writes [OF small_disk_ok, of "([''f'' \<mapsto> ''old'', ''g'' \<mapsto> ''x''], None)" "''f''" _ 1
      "''text''" _ 4 "([''f'' \<mapsto> ''text'', ''g'' \<mapsto> ''x''], None)" "''writer''"]
  by (simp add: small_disk_def fun_upd_twist)

text \<open>
  The exit status of the writer tells only whether it was given two arguments and could open the
  file: it is 0 even if writing the text or closing the file fails.
\<close>

lemma writer_ignores_write_errors:
  "snd (writer_main io argv w) =
     (if length argv = 3 \<and> snd (io_fopen io w (argv ! 1) ''w'') \<noteq> None then 0 else 1)"
  by (auto simp: writer_main_def Let_def split: prod.splits option.splits)

text \<open>On a full disk the file is left empty and the status is still 0.\<close>

lemma writer_full_disk:
  "writer_main small_disk [''writer'', ''f'', ''longer text''] ([''f'' \<mapsto> ''old''], None) =
     (([''f'' \<mapsto> []], None), 0)"
  by (simp add: writer_main_def small_disk_def)

end
