(* ===== verification/Autotest.thy ===== *)
theory Autotest
  imports Prelude
begin

text \<open>
  The program \<open>examples/autotest-validate\<close>: the three functions with which the course framework
  checks its set-up, and the \<open>main\<close> that prints two of them.
\<close>

definition this_function_returns_true :: bool where
  "this_function_returns_true = True"

definition this_function_returns_false :: bool where
  "this_function_returns_false = False"

definition my_username :: bytes where
  "my_username = ''qrogers6''"

definition bool_text :: "bool \<Rightarrow> bytes" where
  "bool_text b = (if b then ''true'' else ''false'')"

text \<open>What \<open>main\<close> prints.\<close>

definition autotest_main :: bytes where
  "autotest_main =
     ''this_function_returns_true returned '' @ bool_text this_function_returns_true @ [nl] @
     ''this_function_returns_false returned '' @ bool_text this_function_returns_false @ [nl]"

text \<open>The functions return what their names say.\<close>

lemma autotest_output:
  "autotest_main =
     ''this_function_returns_true returned true'' @ nl # ''this_function_returns_false returned false'' @ [nl]"
  by (simp add: autotest_main_def bool_text_def this_function_returns_true_def this_function_returns_false_def)

end
