(* ===== verification/Spec2Isabelle.thy ===== *)
theory Spec2Isabelle
  imports Driver_Module Server_Shutdown Server_Leaks Server_Timestamp
    Queue_Builds System_Calls Threading Writer Autotest
begin

text \<open>
  A verification of the AESD assignments: a Linux character driver that keeps the last ten lines
  written to it, a socket server that stores the lines its clients send in that driver and echoes
  the driver's contents, the linked list header the server uses, and three small exercises.

  \<^bold>\<open>The program and how its parts interact.\<close> A client connects to the server
  (\<open>server/aesdsocket.c\<close>). The main thread accepts the connection, allocates its data, puts a node for
  it into a singly linked list (\<open>server/queue.h\<close>) and starts a thread; after every new connection, and
  at the end, it joins threads, closes sockets and frees nodes. A connection thread receives bytes
  until a newline, takes the process-wide mutex, opens the device, writes the line or, for the
  line \<open>AESDCHAR_IOCSEEKTO:x,y\<close>, moves the device position with an \<open>ioctl\<close>, sends everything from
  the position on to the client, closes the device and releases the mutex. The device is the
  character driver (\<open>aesd-char-driver/main.c\<close>), whose file operations work on a ring of write commands
  (\<open>aesd-char-driver/aesd-circular-buffer.c\<close>); a line that is written in pieces is collected in a
  pending command until its newline arrives.

  \<^bold>\<open>Conventions.\<close> Every definition models the code that the definition's name and the text
  before it give, and keeps the names of the source. C integers are words of their width where they
  can wrap (\<open>size_t\<close>, \<open>loff_t\<close>, \<open>uint8_t\<close>, \<open>uint32_t\<close>) and otherwise integers with the range
  checked; signed overflow is the error \<open>Undefined\<close>. A fallible operation returns \<open>error + 'a\<close>:
  \<open>Inl (Errno e)\<close> for a returned error code, other errors for what C leaves undefined (a null
  dereference, an access outside a block, a bad \<open>free\<close>). Memory is explicit: a map from block
  addresses to bytes, or one map per structure type and field. A loop that need not end is a
  partial function into \<open>option\<close>, whose value \<open>None\<close> means that it does not return, or that it
  waits forever for a mutex or a thread; that loops do return is proved where it is true. There is
  no fuel. What the operating system, the kernel and the C library do is a record of functions,
  an argument of the definitions; their documented contracts are named predicates (\<open>kernel_ok\<close>,
  \<open>alloc_ok\<close>, \<open>recv_ok\<close>, \<open>read_ok\<close>, \<open>malloc_ok\<close>, \<open>proc_ok\<close>, \<open>fds_ok\<close>, \<open>mutex_ok\<close>, \<open>logs\<close>, \<open>stdio_ok\<close>), each shown to
  hold for a concrete instance.

  \<^bold>\<open>The theories.\<close>

  \<^item> \<open>Prelude\<close>: machine types, errors, the result and run types with their binds, generic lemmas on
    words, slices, positions in concatenated lists and sliding windows.

  \<^item> \<open>Circular_Buffer\<close> models \<open>aesd-circular-buffer.h/.c\<close>: the structures, \<open>find_entry_offset_for_fpos\<close>,
    \<open>add_entry\<close>, \<open>init\<close> and the iteration macro. The ring keeps its invariant \<open>ring_inv\<close>; read
    from its start it is the window of the last ten entries (locales \<open>bounded_window\<close> and
    \<open>positioned_window\<close>, interpreted on the ring's functions); the position search is the reference
    function \<open>locate\<close> on the sizes of the entries.

  \<^item> \<open>Kernel\<close> is the interface of the kernel services; \<open>Char_Driver\<close> models every file operation and the
    module entry points of \<open>main.c\<close>. \<open>Driver_Spec\<close> holds the abstract device (complete commands
    and a pending one), the invariants \<open>mem_inv\<close> and \<open>dev_inv\<close> and the refinement lemmas of
    \<open>read\<close> and \<open>write\<close>; \<open>Driver_Props\<close> the step relation of a running module, its reachable states,
    memory safety in all of them and the refinement properties; \<open>Driver_Seek\<close> the properties of
    \<open>llseek\<close> and \<open>ioctl\<close>; \<open>Driver_Module\<close> those of module load and exit, of evicted blocks and
    of failed allocations.

  \<^item> \<open>Server_OS\<close> has the C strings, \<open>atoi\<close>, the heap operations and the system calls of the
    server; \<open>Server_Process\<close> models \<open>process\<close> and \<open>freeBuffers\<close>. \<open>Server_Recv\<close>: the receive loop is
    memory safe, receives short lines exactly, never ends when the peer has closed, and hands on
    stale bytes after it has grown its buffer. \<open>Server_Exchange\<close>: the locale \<open>echo_device\<close> is the
    device as the server relies on it, and what a client is sent is proved in it; the error paths
    follow. \<open>Device_File\<close> connects the two: the driver behind file descriptors satisfies
    \<open>echo_device\<close> (a sublocale, interpreted on the driver's definitions), so the echo of the server
    is a theorem about server and driver together. What the driver's uninitialised variable holds
    in a call (\<open>junk\<close>) and which calls of \<open>send\<close> fail (\<open>net\<close>) are parameters of \<open>driver_os\<close>; \<open>reports junk n\<close>
    says that a device of \<open>n\<close> bytes is reported with a size the server can use.

  \<^item> \<open>Server_Threads\<close> puts any number of connection threads side by side. The code of \<open>process\<close> is
    cut into atomic blocks (\<open>thread_step\<close>, a state machine over the program points \<open>pc\<close>), at the head of
    each loop, between the test of the exit flag and \<open>recv\<close>, and where the mutex is taken and released;
    \<open>server_step\<close> lets any thread make a step
    on the shared world, heap, mutex and descriptor, starts threads, and lets the environment change
    the world between steps. \<open>mutex_inv\<close> holds in all reachable states. Run alone, the blocks give
    exactly \<open>process\<close>. \<open>Server_Heap\<close> has the invariant \<open>heap_inv\<close>: the buffers of different threads are
    different allocated blocks, and each thread keeps the invariant of the point it has reached.
    \<open>Server_Concurrent\<close> has the properties: mutual exclusion, isolation of the critical section,
    memory safety in every interleaving, that the variables of a thread fit the point it has
    reached and the thread is never stuck there, and what a thread that leaves with the mutex
    does to all others. \<open>Server_Leaks\<close>: the receive buffer of an answered message stays allocated
    for ever and belongs to no thread.

  \<^item> \<open>Server_Service\<close> is the abstract service of server and device together: the device, what every
    client was sent, and atomic exchanges, each of one thread with one line (\<open>exchanged\<close>). A run of
    the detailed server carries a history, the lines in the order in which threads took the mutex.
    In the locale \<open>shared_device\<close> (a device of which each thread has the \<open>echo_device\<close> view) every
    block keeps a simulation relation with the service. \<open>Device_Service\<close> interprets it on the
    driver's file operations: the interleaved server on the driver serialises its exchanges, until
    the device holds \<open>2 ^ 63\<close> bytes, more than a file position can be; a reply may be missing where the
    size of the device is not reported usably.
    \<open>Server_Liveness\<close> has executions, fairness to every thread that \<open>recv\<close> does not keep waiting, and the
    lexicographic measure with which a server whose threads are asked to exit comes to rest.

  \<^item> \<open>Links\<close>, \<open>Slist\<close>, \<open>Stailq\<close>, \<open>List_Queue\<close>, \<open>Tailq\<close> model \<open>server/queue.h\<close>: link fields as maps,
    addresses of links as values, the traversal loops, and every macro of the four families for
    the build without debugging. \<open>slist_rep\<close>, \<open>stailq_rep\<close>, \<open>list_rep\<close>, \<open>tailq_rep\<close> say that a head
    holds a list; each operation has its lemma, and each family interprets the locale
    \<open>linked_lists\<close>, the two tail queues also \<open>tail_queues\<close>, which extends it. \<open>Queue_Props\<close> has the
    properties: scripts of operations refine lists, insertion and removal are inverse, tail
    queues are first in first out, forward and reverse traversals visit the same elements.
    \<open>Queue_Builds\<close> models every macro that has a debugging hook for an arbitrary setting of the build
    flags (the checks of \<open>_KERNEL\<close> with \<open>INVARIANTS\<close>, the overwritten links and trace buffers of
    \<open>QUEUE_MACRO_DEBUG\<close>): the interfaces hold in every build (locale \<open>overwritten_lists\<close>), without
    flags the macros are those of the other theories, and a second removal of an element is told apart.

  \<^item> \<open>Server_Main\<close> models \<open>main\<close>, \<open>cleanup\<close> and \<open>signalHandler\<close>; \<open>Server_Conns\<close> has the invariant
    \<open>main_inv\<close> that ties the list, the nodes, the thread data, the handles and the mutexes
    together, and that every part of \<open>main\<close> keeps it; \<open>Server_Main_Props\<close> what the reaping pass and
    the shutdown do, that \<open>main\<close> is memory safe and that it ends after a signal. There the main
    thread is on its own: it sees what the connection threads store through its parameters
    \<open>graceful\<close>, \<open>seen_complete\<close> and \<open>seen_fd\<close>, and a connection thread sees the exit request through
    \<open>poll_exit\<close>. \<open>Server_Whole\<close> puts the two together: \<open>main_step\<close> cuts \<open>main\<close> at the accept loop and at
    the nodes of its three passes, \<open>conn_step\<close> makes a block of a connection thread on the thread data
    the main thread allocated for it, the flags are read and written in place, and \<open>pthread_join\<close> waits
    for the thread. \<open>Server_Whole_Safety\<close>: \<open>whole_inv\<close> (the invariants of both sides, that every
    thread that has not returned has its node in the list and every node its thread, unless
    \<open>pthread_create\<close> has failed for it, and that the threads behind the main thread have been asked to exit) holds in all reachable states, so no
    thread loses its data and no thread is left behind by a regular end. \<open>Server_Shutdown\<close>: after a
    signal the process ends in every fair execution, unless a join never returns; the causes are
    listed, and a run shows the one in which an idle client keeps its thread in \<open>recv\<close>. \<open>Server_Timestamp\<close>
    models what only the build without the character device has: \<open>appendTimestamp\<close>, whose line always
    fits its array, the start of its timer, and the removal of the data file.

  \<^item> \<open>System_Calls\<close> models \<open>examples/systemcalls/systemcalls.c\<close> with both processes after a \<open>fork\<close>,
    \<open>Threading\<close> models \<open>examples/threading/threading.c\<close>, \<open>Writer\<close> models \<open>finder-app/writer.c\<close>,
    \<open>Autotest\<close> models \<open>examples/autotest-validate\<close>.

  \<^bold>\<open>What is not modelled.\<close> Log and debug messages. The connection threads of the build of the server
  without the character device, a build that does not compile (\<open>kIOCtrlStr\<close> is not declared in it).
  Interleaving inside a block: between two program points a thread makes its calls without another
  thread in between (one round of a loop, one command; everything with the device is under the
  mutex anyway).
  What other threads do after one of them has run into undefined behaviour, other than going on as before.
  The C++ declarations of \<open>queue.h\<close>. The unit test, which needs the course framework that is
  not part of the repository, shell scripts and build files.
\<close>

end
